(* ===== verification/Prelude.thy ===== *)
theory Prelude
  imports Main "HOL-Library.Word" "HOL-Library.Char_ord" "HOL-Library.List_Lexorder"
begin

text \<open>
  Shared vocabulary of the development: the result type of a C++ member function that may
  throw or fail to return, its sequencing, the strings that name entities, \<open>std::upper_bound\<close>,
  association lists for the standard maps, and the generic lemmas the component theories use.
\<close>

section \<open>Lemma collections\<close>

named_theorems exec_simps \<open>evaluation of sequenced executions\<close>
named_theorems view_simps \<open>facts on sorted view histories\<close>

section \<open>Executions: normal return, exception, divergence\<close>

text \<open>
  A member function mutates its object and then returns, throws, or runs forever. An
  exception does not undo the mutations made before it, so the state is part of every outcome;
  \<open>Diverge s\<close> is a loop that was still running in state \<open>s\<close> when its fuel ended.
  \<open>OutOfBounds\<close> is not an exception of the program: it marks an access outside the memory of an
  object, where the behaviour of the program is undefined.
\<close>

datatype exn =
    LogicError string
  | OutOfRange
  | NullDereference
  | BadOptionalAccess
  | DroppedMessage
  | RuntimeError string
  | CompactedVersionConflict string
  | KvSerialiserException
  | OutOfBounds

text \<open>
  What the handlers \<open>catch (const std::exception&)\<close> and \<open>catch (const std::logic_error&)\<close> stop. A
  crash is not an exception, and \<open>CompactedVersionConflict\<close> is not derived from \<open>std::exception\<close>.
\<close>

fun is_std_exception :: "exn \<Rightarrow> bool" where
  "is_std_exception NullDereference = False"
| "is_std_exception OutOfBounds = False"
| "is_std_exception (CompactedVersionConflict s) = False"
| "is_std_exception e = True"

fun is_logic_error :: "exn \<Rightarrow> bool" where
  "is_logic_error (LogicError s) = True"
| "is_logic_error OutOfRange = True"
| "is_logic_error e = False"

datatype ('s, 'v) exec = Done 's 'v | Throw 's exn | Diverge 's

text \<open>A version of the store, which is an index of the ledger.\<close>

type_synonym Version = nat

abbreviation (input) NoVersion :: Version where
  "NoVersion \<equiv> 0"

abbreviation ok :: "'s \<Rightarrow> ('s, unit) exec" where
  "ok s \<equiv> Done s ()"

fun final :: "('s, 'v) exec \<Rightarrow> 's" where
  "final (Done s v) = s"
| "final (Throw s e) = s"
| "final (Diverge s) = s"

fun returns :: "('s, 'v) exec \<Rightarrow> bool" where
  "returns (Done s v) = True"
| "returns (Throw s e) = False"
| "returns (Diverge s) = False"

text \<open>\<open>seq m f\<close>: run \<open>m\<close>, then, if it returned, run \<open>f\<close> on the state it left.\<close>

fun seq :: "('s, 'u) exec \<Rightarrow> ('s \<Rightarrow> ('s, 'v) exec) \<Rightarrow> ('s, 'v) exec" where
  "seq (Done s u) f = f s"
| "seq (Throw s e) f = Throw s e"
| "seq (Diverge s) f = Diverge s"

text \<open>The same with the value that was returned.\<close>

fun bindv :: "('s, 'u) exec \<Rightarrow> ('s \<Rightarrow> 'u \<Rightarrow> ('s, 'v) exec) \<Rightarrow> ('s, 'v) exec" where
  "bindv (Done s u) f = f s u"
| "bindv (Throw s e) f = Throw s e"
| "bindv (Diverge s) f = Diverge s"

text \<open>A range-based \<open>for\<close> loop over the elements of a container.\<close>

fun for_each :: "('x \<Rightarrow> 's \<Rightarrow> ('s, unit) exec) \<Rightarrow> 'x list \<Rightarrow> 's \<Rightarrow> ('s, unit) exec" where
  "for_each f [] s = ok s"
| "for_each f (x # xs) s = seq (f x s) (for_each f xs)"

lemma final_seqI:
  assumes "P (final m)" and "\<And>s. P s \<Longrightarrow> P (final (f s))"
  shows "P (final (seq m f))"
  using assms by (cases m) auto

lemma final_bindvI:
  assumes "P (final m)" and "\<And>s u. P s \<Longrightarrow> P (final (f s u))"
  shows "P (final (bindv m f))"
  using assms by (cases m) auto

lemma final_for_eachI:
  assumes "P s" and "\<And>x s. x \<in> set xs \<Longrightarrow> P s \<Longrightarrow> P (final (f x s))"
  shows "P (final (for_each f xs s))"
  using assms
proof (induction xs arbitrary: s)
  case Nil
  then show ?case by simp
next
  case (Cons x xs)
  have "P (final (seq (f x s) (for_each f xs)))"
  proof (rule final_seqI)
    show "P (final (f x s))" by (simp add: Cons.prems)
    show "P (final (for_each f xs t))" if "P t" for t
      using that by (rule Cons.IH) (simp add: Cons.prems(2))
  qed
  then show ?case by simp
qed

lemma final_seq_frame:
  assumes "\<And>s. g (final (f s)) = g s"
  shows "g (final (seq m f)) = g (final m)"
  using assms by (cases m) auto

lemma final_bindv_frame:
  assumes "\<And>s u. g (final (f s u)) = g s"
  shows "g (final (bindv m f)) = g (final m)"
  using assms by (cases m) auto

lemma final_for_each_frame:
  assumes "\<And>x s. g (final (f x s)) = g s"
  shows "g (final (for_each f xs s)) = g s"
  by (rule final_for_eachI [where P = "\<lambda>t. g t = g s"]) (simp_all add: assms)

lemma returns_seq:
  "returns (seq m f) \<longleftrightarrow> returns m \<and> returns (f (final m))"
  by (cases m) auto

lemma final_seq_returns: "returns m \<Longrightarrow> final (seq m f) = final (f (final m))"
  by (cases m) auto

lemma seq_returns: "returns m \<Longrightarrow> seq m f = f (final m)"
  by (cases m) auto

lemma returns_for_eachI:
  assumes "P s" and "\<And>x s. x \<in> set xs \<Longrightarrow> P s \<Longrightarrow> returns (f x s) \<and> P (final (f x s))"
  shows "returns (for_each f xs s) \<and> P (final (for_each f xs s))"
  using assms
proof (induction xs arbitrary: s)
  case Nil
  then show ?case by simp
next
  case (Cons x xs)
  then have "returns (f x s)" and "P (final (f x s))" by auto
  with Cons show ?case by (simp add: returns_seq final_seq_returns)
qed

lemma seq_Done_iff:
  "seq m f = Done s v \<longleftrightarrow> (\<exists>s' u. m = Done s' u \<and> f s' = Done s v)"
  by (cases m) auto

lemma seq_ok [simp]: "seq (ok s) f = f s"
  by simp

lemma seq_assoc: "seq (seq m f) g = seq m (\<lambda>s. seq (f s) g)"
  by (cases m) auto

lemmas exec_frame = final_seq_frame final_bindv_frame final_for_each_frame

section \<open>Unsigned decrement\<close>

text \<open>\<open>n - 1\<close> on \<open>uint64_t\<close>, which wraps at zero.\<close>

definition uint64_max :: nat where
  "uint64_max = 2 ^ 64 - 1"

definition dec64 :: "nat \<Rightarrow> nat" where
  "dec64 n = (if n = 0 then uint64_max else n - 1)"

lemma dec64_Suc [simp]: "dec64 (Suc n) = n"
  by (simp add: dec64_def)

lemma dec64_pos: "0 < n \<Longrightarrow> dec64 n = n - 1"
  by (simp add: dec64_def)

section \<open>Sorted vectors\<close>

text \<open>
  \<open>std::upper_bound (v.begin (), v.end (), x)\<close> as an offset from \<open>v.begin ()\<close>: the
  number of leading elements that are not greater than \<open>x\<close>. On the sorted vectors the
  standard asks for, this is the position the binary search returns.
\<close>

definition upper_bound :: "'a::linorder list \<Rightarrow> 'a \<Rightarrow> nat" where
  "upper_bound xs x = length (takeWhile (\<lambda>y. y \<le> x) xs)"

lemma upper_bound_le_length [simp]: "upper_bound xs x \<le> length xs"
  by (simp add: upper_bound_def length_takeWhile_le)

lemma upper_bound_Nil [simp]: "upper_bound [] x = 0"
  by (simp add: upper_bound_def)

lemma take_upper_bound: "take (upper_bound xs x) xs = takeWhile (\<lambda>y. y \<le> x) xs"
  unfolding upper_bound_def by (rule takeWhile_eq_take [symmetric])

lemma sorted_takeWhile_le:
  "sorted xs \<Longrightarrow> takeWhile (\<lambda>y. y \<le> x) xs = filter (\<lambda>y. y \<le> x) xs"
proof (induction xs)
  case Nil
  then show ?case by simp
next
  case (Cons a xs)
  then show ?case
    by (cases "a \<le> x") (auto simp: filter_empty_conv intro!: filter_False [symmetric]
        dest: order_trans)
qed

lemma sorted_le_last: "sorted xs \<Longrightarrow> x \<in> set xs \<Longrightarrow> x \<le> last xs"
  by (induction xs) (auto intro: last_in_set)

lemma takeWhile_sorted_filter: "sorted xs \<Longrightarrow> takeWhile (\<lambda>y. y \<le> x) xs = filter (\<lambda>y. y \<le> x) xs"
  for xs :: "'a::linorder list"
  by (induction xs) (auto intro!: filter_False [symmetric] dest: order_trans)

lemma upper_bound_nth_le:
  assumes "i < upper_bound xs x"
  shows "xs ! i \<le> x"
proof -
  have i: "i < length (takeWhile (\<lambda>y. y \<le> x) xs)"
    using assms by (simp add: upper_bound_def)
  then have "takeWhile (\<lambda>y. y \<le> x) xs ! i \<le> x"
    using set_takeWhileD [OF nth_mem [OF i]] by simp
  with i show ?thesis by (simp add: takeWhile_nth)
qed

lemma upper_bound_nth_gt:
  assumes "sorted xs" and "upper_bound xs x \<le> i" and "i < length xs"
  shows "x < xs ! i"
proof -
  have "\<not> xs ! upper_bound xs x \<le> x"
    using assms(2,3) nth_length_takeWhile [of "\<lambda>y. y \<le> x" xs]
    unfolding upper_bound_def by linarith
  moreover have "xs ! upper_bound xs x \<le> xs ! i"
    using assms by (simp add: sorted_nth_mono)
  ultimately show ?thesis by simp
qed

lemma upper_bound_le_iff:
  assumes "sorted xs" and "i < length xs"
  shows "i < upper_bound xs x \<longleftrightarrow> xs ! i \<le> x"
proof (cases "i < upper_bound xs x")
  case True
  then show ?thesis by (simp add: upper_bound_nth_le)
next
  case False
  then have "x < xs ! i" by (simp add: upper_bound_nth_gt assms)
  with False show ?thesis by simp
qed

lemma upper_bound_eqI:
  assumes "sorted xs" and "n \<le> length xs"
    and "\<And>i. i < n \<Longrightarrow> xs ! i \<le> x"
    and "\<And>i. n \<le> i \<Longrightarrow> i < length xs \<Longrightarrow> x < xs ! i"
  shows "upper_bound xs x = n"
proof (rule antisym)
  show "upper_bound xs x \<le> n"
  proof (rule ccontr)
    assume "\<not> upper_bound xs x \<le> n"
    then have n: "n < upper_bound xs x" by simp
    then have "xs ! n \<le> x" by (rule upper_bound_nth_le)
    moreover have "x < xs ! n"
      using assms(4) [of n] n upper_bound_le_length [of xs x] by simp
    ultimately show False by simp
  qed
  show "n \<le> upper_bound xs x"
  proof (rule ccontr)
    assume "\<not> n \<le> upper_bound xs x"
    then have u: "upper_bound xs x < n" by simp
    then have "xs ! upper_bound xs x \<le> x" by (rule assms(3))
    moreover have "x < xs ! upper_bound xs x"
      using upper_bound_nth_gt [OF assms(1), of x "upper_bound xs x"] u assms(2) by simp
    ultimately show False by simp
  qed
qed

lemma upper_bound_mono:
  assumes "sorted xs" and "x \<le> y"
  shows "upper_bound xs x \<le> upper_bound xs y"
proof (rule ccontr)
  assume "\<not> upper_bound xs x \<le> upper_bound xs y"
  then have u: "upper_bound xs y < upper_bound xs x" by simp
  then have "xs ! upper_bound xs y \<le> x" by (rule upper_bound_nth_le)
  moreover have "y < xs ! upper_bound xs y"
    using upper_bound_nth_gt [OF assms(1), of y "upper_bound xs y"] u
      upper_bound_le_length [of xs x] by simp
  ultimately show False using assms(2) by simp
qed

section \<open>Association lists\<close>

text \<open>
  \<open>std::map\<close> and \<open>std::unordered_map\<close> are association lists with distinct keys: the
  list is the iteration order. An \<open>unordered_map\<close> promises no order; a new key goes last
  here, and no theorem of the development depends on that choice.
\<close>

definition al_keys :: "('k \<times> 'v) list \<Rightarrow> 'k list" where
  "al_keys m = map fst m"

fun al_update :: "'k \<Rightarrow> ('v \<Rightarrow> 'v) \<Rightarrow> ('k \<times> 'v) list \<Rightarrow> ('k \<times> 'v) list" where
  "al_update k f [] = []"
| "al_update k f ((k', v) # m) = (if k = k' then (k', f v) # m else (k', v) # al_update k f m)"

definition al_emplace :: "'k \<Rightarrow> 'v \<Rightarrow> ('k \<times> 'v) list \<Rightarrow> ('k \<times> 'v) list" where
  "al_emplace k v m = (if k \<in> set (al_keys m) then m else m @ [(k, v)])"

definition al_erase :: "'k \<Rightarrow> ('k \<times> 'v) list \<Rightarrow> ('k \<times> 'v) list" where
  "al_erase k m = filter (\<lambda>(k', v). k' \<noteq> k) m"

definition al_map :: "('v \<Rightarrow> 'v) \<Rightarrow> ('k \<times> 'v) list \<Rightarrow> ('k \<times> 'v) list" where
  "al_map f m = map (\<lambda>(k, v). (k, f v)) m"

text \<open>\<open>std::map::emplace\<close>: the keys stay sorted, an existing key is left alone.\<close>

fun smap_emplace :: "'k::linorder \<Rightarrow> 'v \<Rightarrow> ('k \<times> 'v) list \<Rightarrow> ('k \<times> 'v) list" where
  "smap_emplace k v [] = [(k, v)]"
| "smap_emplace k v ((k', v') # m) =
     (if k < k' then (k, v) # (k', v') # m
      else if k = k' then (k', v') # m
      else (k', v') # smap_emplace k v m)"

lemma al_keys_simps [simp]:
  "al_keys [] = []" "al_keys (p # m) = fst p # al_keys m" "al_keys (m @ n) = al_keys m @ al_keys n"
  by (simp_all add: al_keys_def)

lemma al_keys_filter: "al_keys (filter (\<lambda>(k, v). P k) m) = filter P (al_keys m)"
  by (induction m) auto

lemma map_of_None_iff_keys: "map_of m k = None \<longleftrightarrow> k \<notin> set (al_keys m)"
  by (simp add: al_keys_def map_of_eq_None_iff)

lemma map_of_Some_keys: "map_of m k = Some v \<Longrightarrow> k \<in> set (al_keys m)"
  by (metis map_of_None_iff_keys option.simps(3))

lemma keys_map_of_Some: "k \<in> set (al_keys m) \<Longrightarrow> \<exists>v. map_of m k = Some v"
  by (metis map_of_None_iff_keys not_Some_eq)

lemma al_keys_update [simp]: "al_keys (al_update k f m) = al_keys m"
  by (induction k f m rule: al_update.induct) auto

lemma map_of_al_update:
  "map_of (al_update k f m) k' = (if k' = k then map_option f (map_of m k) else map_of m k')"
  by (induction k f m rule: al_update.induct) auto

lemma length_al_update [simp]: "length (al_update k f m) = length m"
  by (induction k f m rule: al_update.induct) auto

lemma set_keys_emplace [simp]: "set (al_keys (al_emplace k v m)) = insert k (set (al_keys m))"
  by (auto simp: al_emplace_def)

lemma distinct_keys_emplace: "distinct (al_keys m) \<Longrightarrow> distinct (al_keys (al_emplace k v m))"
  by (simp add: al_emplace_def)

lemma keys_erase: "al_keys (al_erase k m) = filter (\<lambda>k'. k' \<noteq> k) (al_keys m)"
  by (induction m) (auto simp: al_erase_def)

lemma al_keys_map [simp]: "al_keys (al_map f m) = al_keys m"
  by (simp add: al_keys_def al_map_def case_prod_beta comp_def)

lemma map_of_al_map: "map_of (al_map f m) k = map_option f (map_of m k)"
  by (induction m) (auto simp: al_map_def)

lemma length_al_map [simp]: "length (al_map f m) = length m"
  by (simp add: al_map_def)

lemma length_al_keys [simp]: "length (al_keys m) = length m"
  by (simp add: al_keys_def)

lemma set_keys_smap_emplace [simp]:
  "set (al_keys (smap_emplace k v m)) = insert k (set (al_keys m))"
  by (induction k v m rule: smap_emplace.induct) auto

lemma sorted_keys_smap_emplace:
  "sorted_wrt (<) (al_keys m) \<Longrightarrow> sorted_wrt (<) (al_keys (smap_emplace k v m))"
  by (induction k v m rule: smap_emplace.induct) (auto dest: less_trans)

end
