(* ===== verification/View_History.thy ===== *)
theory View_History
  imports Prelude
begin

text \<open>
  The view history of a node (class \<open>aft::ViewHistory\<close>, consensus/aft/impl/state.h): a
  vector whose entry \<open>i\<close> is the first version of view \<open>i + 1\<close>. The operations are
  those of the class; the locale \<open>view_log\<close> states what the consensus code relies on when it
  walks a log backwards view by view, and is interpreted on them.
\<close>

section \<open>Operations\<close>

type_synonym View = nat
type_synonym ViewHistory = "Version list"

abbreviation (input) VIEW_UNKNOWN :: View where
  "VIEW_UNKNOWN \<equiv> 0"

definition vh_update :: "Version \<Rightarrow> View \<Rightarrow> ViewHistory \<Rightarrow> (ViewHistory, unit) exec" where
  "vh_update idx view views =
     (if views \<noteq> [] \<and> idx < last views
      then Throw views (LogicError ''version must not move backwards'')
      else ok (views @ replicate (view - length views) idx))"

fun vh_initialise_from :: "nat \<Rightarrow> Version list \<Rightarrow> ViewHistory \<Rightarrow> (ViewHistory, unit) exec" where
  "vh_initialise_from i [] views = ok views"
| "vh_initialise_from i (t # ts) views =
     seq (vh_update t (i + 1) views) (vh_initialise_from (i + 1) ts)"

definition vh_initialise :: "Version list \<Rightarrow> (ViewHistory, unit) exec" where
  "vh_initialise terms = vh_initialise_from 0 terms []"

definition vh_view_at :: "ViewHistory \<Rightarrow> Version \<Rightarrow> View" where
  "vh_view_at views idx =
     (let it = upper_bound views idx in if it = 0 then VIEW_UNKNOWN else it)"

definition vh_start_of_view :: "ViewHistory \<Rightarrow> View \<Rightarrow> Version" where
  "vh_start_of_view views view =
     (if view > length views \<or> view = VIEW_UNKNOWN then NoVersion
      else let tentative = views ! (view - 1) in
        if view + 1 \<le> length views \<and> views ! view = tentative then NoVersion
        else tentative)"

definition vh_end_of_view :: "ViewHistory \<Rightarrow> View \<Rightarrow> Version" where
  "vh_end_of_view views view =
     (if vh_start_of_view views view = NoVersion then NoVersion
      else if view \<ge> length views \<or> view = VIEW_UNKNOWN then NoVersion
      else dec64 (views ! view))"

definition vh_get_history_until :: "ViewHistory \<Rightarrow> Version \<Rightarrow> Version list" where
  "vh_get_history_until views idx = take (upper_bound views idx) views"

definition vh_rollback :: "Version \<Rightarrow> ViewHistory \<Rightarrow> ViewHistory" where
  "vh_rollback idx views = take (upper_bound views idx) views"

section \<open>Well-formed histories\<close>

text \<open>
  A history is well formed when the views start in order and, no transaction having version 0,
  none starts at 0.
\<close>

definition vh_inv :: "ViewHistory \<Rightarrow> bool" where
  "vh_inv views \<longleftrightarrow> sorted views \<and> (\<forall>v\<in>set views. 0 < v)"

lemma vh_inv_Nil [simp]: "vh_inv []"
  by (simp add: vh_inv_def)

lemma vh_inv_sorted [dest]: "vh_inv views \<Longrightarrow> sorted views"
  by (simp add: vh_inv_def)

lemma vh_inv_update:
  assumes "vh_inv views" and "0 < idx"
  shows "vh_inv (final (vh_update idx view views))"
proof (cases "views \<noteq> [] \<and> idx < last views")
  case True
  with assms show ?thesis by (simp add: vh_update_def)
next
  case False
  have "\<forall>v\<in>set views. v \<le> idx"
    using False assms(1) by (fastforce simp: vh_inv_def dest: sorted_le_last)
  with assms False show ?thesis
    by (auto simp: vh_update_def vh_inv_def sorted_append)
qed

lemma vh_inv_rollback: "vh_inv views \<Longrightarrow> vh_inv (vh_rollback idx views)"
  by (auto simp: vh_inv_def vh_rollback_def sorted_wrt_take dest: in_set_takeD)

lemma vh_inv_initialise_from:
  "vh_inv views \<Longrightarrow> \<forall>t\<in>set ts. 0 < t \<Longrightarrow> vh_inv (final (vh_initialise_from i ts views))"
proof (induction i ts views rule: vh_initialise_from.induct)
  case (1 i views)
  then show ?case by simp
next
  case (2 i t ts views)
  then have "vh_inv (final (vh_update t (i + 1) views))"
    by (simp add: vh_inv_update)
  with 2 show ?case
    by (cases "vh_update t (i + 1) views") auto
qed

lemma set_vh_rollback_le: "v \<in> set (vh_rollback idx views) \<Longrightarrow> v \<le> idx"
  by (auto simp: vh_rollback_def take_upper_bound dest: set_takeWhileD)

lemma set_vh_rollback_subset: "set (vh_rollback idx views) \<subseteq> set views"
  by (simp add: vh_rollback_def set_take_subset)

lemma set_vh_update_subset: "set (final (vh_update idx view views)) \<subseteq> insert idx (set views)"
  by (auto simp: vh_update_def)

section \<open>The view of a version\<close>

lemma vh_view_at_upper_bound: "vh_view_at views idx = upper_bound views idx"
  by (simp add: vh_view_at_def Let_def)

lemma vh_view_at_Nil [simp]: "vh_view_at [] i = 0"
  by (simp add: vh_view_at_upper_bound)

lemma vh_view_at_0 [simp]: "vh_inv views \<Longrightarrow> vh_view_at views 0 = 0"
  by (cases views) (auto simp: vh_view_at_upper_bound upper_bound_def vh_inv_def)

lemma vh_view_at_mono: "vh_inv views \<Longrightarrow> i \<le> j \<Longrightarrow> vh_view_at views i \<le> vh_view_at views j"
  by (simp add: vh_view_at_upper_bound upper_bound_mono vh_inv_sorted)

lemma vh_view_at_le_length: "vh_view_at views i \<le> length views"
  by (simp add: vh_view_at_upper_bound)

lemma vh_view_at_last:
  assumes "vh_inv views" and "views = [] \<or> last views \<le> i"
  shows "vh_view_at views i = length views"
proof -
  have "\<forall>v\<in>set views. v \<le> i"
    using assms by (fastforce simp: vh_inv_def dest: sorted_le_last)
  then show ?thesis
    by (simp add: vh_view_at_upper_bound upper_bound_def takeWhile_eq_all_conv [THEN iffD2])
qed

text \<open>What \<open>start_of_view\<close> returns for the view a version lies in.\<close>

lemma vh_start_of_view_at:
  assumes "vh_inv views" and "vh_view_at views i \<noteq> 0"
  shows "vh_start_of_view views (vh_view_at views i) = views ! (vh_view_at views i - 1)"
proof -
  let ?v = "vh_view_at views i"
  have le: "?v \<le> length views" by (rule vh_view_at_le_length)
  have "views ! ?v \<noteq> views ! (?v - 1)" if "?v < length views"
  proof -
    have "i < views ! ?v"
      using upper_bound_nth_gt [of views i ?v] assms(1) that
      by (auto simp: vh_view_at_upper_bound)
    moreover have "views ! (?v - 1) \<le> i"
      using upper_bound_nth_le [of "?v - 1" views i] assms(2)
      by (auto simp: vh_view_at_upper_bound)
    ultimately show ?thesis by simp
  qed
  with le assms(2) show ?thesis
    by (auto simp: vh_start_of_view_def Let_def)
qed

lemma vh_start_of_view_bounds:
  assumes "vh_inv views" and "vh_view_at views i \<noteq> 0"
  shows "0 < vh_start_of_view views (vh_view_at views i)"
    and "vh_start_of_view views (vh_view_at views i) \<le> i"
proof -
  let ?v = "vh_view_at views i"
  have ub: "?v - 1 < upper_bound views i"
    using assms(2) by (simp add: vh_view_at_upper_bound)
  then have lt: "?v - 1 < length views"
    using upper_bound_le_length [of views i] by linarith
  from lt show "0 < vh_start_of_view views ?v"
    using assms by (simp add: vh_start_of_view_at vh_inv_def)
  from ub show "vh_start_of_view views ?v \<le> i"
    using assms by (simp add: vh_start_of_view_at upper_bound_nth_le)
qed

lemma vh_before_start_of_view:
  assumes "vh_inv views" and "vh_view_at views i \<noteq> 0"
    and "j < vh_start_of_view views (vh_view_at views i)"
  shows "vh_view_at views j < vh_view_at views i"
proof (rule ccontr)
  let ?v = "vh_view_at views i"
  assume "\<not> vh_view_at views j < ?v"
  then have "?v - 1 < upper_bound views j"
    using assms(2) by (simp add: vh_view_at_upper_bound)
  then have "views ! (?v - 1) \<le> j" by (rule upper_bound_nth_le)
  with assms show False by (simp add: vh_start_of_view_at)
qed

section \<open>Walking a log backwards\<close>

text \<open>
  The search of \<open>Aft::find_highest_possible_match\<close>: starting from \<open>probe\<close>, jump to the
  version before the start of the current view while that view is above \<open>view\<close>. The
  operations of the history are parameters, \<open>fuel\<close> bounds the iterations and \<open>None\<close>
  means that it ran out.
\<close>

fun match_search ::
  "(Version \<Rightarrow> View) \<Rightarrow> (View \<Rightarrow> Version) \<Rightarrow> nat \<Rightarrow> View \<Rightarrow> Version \<Rightarrow> Version option"
where
  "match_search view_at start_of_view 0 view probe = None"
| "match_search view_at start_of_view (Suc fuel) view probe =
     (if view_at probe > view
      then let start = start_of_view (view_at probe);
               probe' = (if start > 0 then start - 1 else start)
           in match_search view_at start_of_view fuel view probe'
      else Some probe)"

locale view_log =
  fixes invar :: "'h \<Rightarrow> bool"
    and view_at :: "'h \<Rightarrow> Version \<Rightarrow> View"
    and start_of_view :: "'h \<Rightarrow> View \<Rightarrow> Version"
  assumes log_start_pos: "invar h \<Longrightarrow> view_at h i \<noteq> 0 \<Longrightarrow> 0 < start_of_view h (view_at h i)"
    and log_start_le: "invar h \<Longrightarrow> view_at h i \<noteq> 0 \<Longrightarrow> start_of_view h (view_at h i) \<le> i"
    and log_from_start: "invar h \<Longrightarrow> view_at h i \<noteq> 0 \<Longrightarrow>
      start_of_view h (view_at h i) \<le> j \<Longrightarrow> view_at h i \<le> view_at h j"
begin

text \<open>With more fuel than the probe the search ends, at the greatest version up to the probe
  whose view is not above the one asked for.\<close>

lemma match_search_spec:
  assumes "invar h" and "probe < fuel"
  shows "\<exists>n. match_search (view_at h) (start_of_view h) fuel view probe = Some n
    \<and> n \<le> probe \<and> view_at h n \<le> view
    \<and> (\<forall>m. n < m \<longrightarrow> m \<le> probe \<longrightarrow> view < view_at h m)"
  using assms(2)
proof (induction fuel arbitrary: probe)
  case 0
  then show ?case by simp
next
  case (Suc fuel)
  show ?case
  proof (cases "view_at h probe > view")
    case False
    then show ?thesis by (intro exI [of _ probe]) auto
  next
    case True
    let ?s = "start_of_view h (view_at h probe)"
    from True have nz: "view_at h probe \<noteq> 0" by simp
    then have s: "0 < ?s" "?s \<le> probe"
      using assms(1) by (simp_all add: log_start_pos log_start_le)
    with Suc.prems have "?s - 1 < fuel" by simp
    from Suc.IH [OF this] obtain n where
      n: "match_search (view_at h) (start_of_view h) fuel view (?s - 1) = Some n"
        "n \<le> ?s - 1" "view_at h n \<le> view"
        "\<forall>m. n < m \<longrightarrow> m \<le> ?s - 1 \<longrightarrow> view < view_at h m"
      by auto
    have "view < view_at h m" if "n < m" "m \<le> probe" for m
    proof (cases "m \<le> ?s - 1")
      case True
      with n(4) that show ?thesis by simp
    next
      case False
      then have "?s \<le> m" using s(1) by simp
      then have "view_at h probe \<le> view_at h m"
        using assms(1) nz by (rule log_from_start [rotated 2])
      with True show ?thesis by simp
    qed
    with n s True show ?thesis by (intro exI [of _ n]) (auto simp: Let_def)
  qed
qed

end

lemma vh_from_start_of_view:
  assumes "vh_inv views" and "vh_view_at views i \<noteq> 0"
    and "vh_start_of_view views (vh_view_at views i) \<le> j"
  shows "vh_view_at views i \<le> vh_view_at views j"
proof -
  let ?v = "vh_view_at views i"
  have "?v - 1 < length views" and "views ! (?v - 1) \<le> j"
    using assms vh_view_at_le_length [of views i] by (auto simp: vh_start_of_view_at)
  then have "?v - 1 < upper_bound views j"
    using assms(1) by (simp add: upper_bound_le_iff vh_inv_sorted)
  then show ?thesis by (simp add: vh_view_at_upper_bound)
qed

interpretation vh_log: view_log vh_inv vh_view_at vh_start_of_view
  by unfold_locales (simp_all add: vh_start_of_view_bounds vh_from_start_of_view)

section \<open>Properties of the operations\<close>

text \<open>Effect of a successful \<open>update\<close> on the view of every version.\<close>

lemma vh_view_at_update:
  assumes "vh_inv views" and "vh_update idx view views = ok views'"
  shows "vh_view_at views' i =
    (if idx \<le> i then max view (length views) else vh_view_at views i)"
proof -
  from assms(2) have eq: "views' = views @ replicate (view - length views) idx"
    and le: "views = [] \<or> last views \<le> idx"
    by (auto simp: vh_update_def split: if_splits)
  show ?thesis
  proof (cases "idx \<le> i")
    case True
    with le assms(1) have "\<forall>v\<in>set views. v \<le> i"
      by (fastforce simp: vh_inv_def dest: sorted_le_last)
    with True have "\<forall>v\<in>set views'. v \<le> i" by (auto simp: eq)
    then have "vh_view_at views' i = length views'"
      by (simp add: vh_view_at_upper_bound upper_bound_def takeWhile_eq_all_conv [THEN iffD2])
    then have "vh_view_at views' i = length views + (view - length views)" by (simp add: eq)
    with True show ?thesis by simp
  next
    case False
    then have "takeWhile (\<lambda>y. y \<le> i) (replicate n idx) = []" for n
      by (cases n) auto
    then have "takeWhile (\<lambda>y. y \<le> i) views' = takeWhile (\<lambda>y. y \<le> i) views"
      by (simp add: eq takeWhile_append takeWhile_eq_all_conv [THEN iffD2])
    with False show ?thesis by (simp add: vh_view_at_upper_bound upper_bound_def)
  qed
qed

text \<open>Effect of \<open>rollback\<close> on the view of every version.\<close>

lemma vh_view_at_rollback:
  assumes "vh_inv views"
  shows "vh_view_at (vh_rollback idx views) i = vh_view_at views (min i idx)"
proof -
  have "takeWhile (\<lambda>y. y \<le> i) (takeWhile (\<lambda>y. y \<le> idx) views)
      = takeWhile (\<lambda>y. y \<le> min i idx) views"
    by (induction views) auto
  then show ?thesis
    unfolding vh_view_at_upper_bound vh_rollback_def take_upper_bound
    by (simp add: upper_bound_def)
qed

text \<open>The interval of versions of one view.\<close>

lemma vh_view_interval:
  assumes "vh_inv views" and "vh_view_at views i = v" and "v \<noteq> 0"
  shows "vh_start_of_view views v \<le> i"
    and "vh_end_of_view views v = NoVersion \<longrightarrow> v = length views"
    and "vh_end_of_view views v \<noteq> NoVersion \<longrightarrow> i \<le> vh_end_of_view views v"
proof -
  have start: "0 < vh_start_of_view views v" "vh_start_of_view views v \<le> i"
    using assms vh_start_of_view_bounds by blast+
  from start(2) show "vh_start_of_view views v \<le> i" .
  have vle: "v \<le> length views" using assms(2) vh_view_at_le_length by blast
  have lt: "i < views ! v" if "v < length views"
    using upper_bound_nth_gt [of views i v] assms that by (auto simp: vh_view_at_upper_bound)
  show "vh_end_of_view views v = NoVersion \<longrightarrow> v = length views"
  proof
    assume e: "vh_end_of_view views v = NoVersion"
    show "v = length views"
    proof (rule ccontr)
      assume "v \<noteq> length views"
      with vle have "v < length views" by simp
      with lt have l: "i < views ! v" by simp
      moreover have "vh_end_of_view views v = dec64 (views ! v)"
        using start(1) \<open>v < length views\<close> assms(3) by (simp add: vh_end_of_view_def)
      ultimately show False using e start by (simp add: dec64_pos)
    qed
  qed
  show "vh_end_of_view views v \<noteq> NoVersion \<longrightarrow> i \<le> vh_end_of_view views v"
    using lt by (auto simp: vh_end_of_view_def dec64_def)
qed

text \<open>A well-formed history is restored by initialising from its own entries.\<close>

lemma vh_initialise_from_append:
  assumes "sorted (views @ ts)"
  shows "vh_initialise_from (length views) ts views = ok (views @ ts)"
  using assms
proof (induction ts arbitrary: views)
  case Nil
  then show ?case by simp
next
  case (Cons t ts)
  have "\<not> (views \<noteq> [] \<and> t < last views)"
    using Cons.prems last_in_set [of views] by (cases "views = []") (auto simp: sorted_append not_less)
  then have "vh_update t (length views + 1) views = ok (views @ [t])"
    by (simp add: vh_update_def)
  moreover have "vh_initialise_from (length (views @ [t])) ts (views @ [t]) = ok (views @ [t] @ ts)"
    using Cons.IH [of "views @ [t]"] Cons.prems by simp
  ultimately show ?case by simp
qed

lemma vh_end_of_view_at:
  assumes "vh_inv views" and "vh_view_at views i \<noteq> 0" and "vh_view_at views i < length views"
  shows "vh_end_of_view views (vh_view_at views i) = views ! vh_view_at views i - 1"
    and "i < views ! vh_view_at views i"
proof -
  show i: "i < views ! vh_view_at views i"
    using assms by (auto simp: vh_view_at_upper_bound intro: upper_bound_nth_gt)
  with assms vh_start_of_view_bounds(1) [OF assms(1,2)]
  show "vh_end_of_view views (vh_view_at views i) = views ! vh_view_at views i - 1"
    by (simp add: vh_end_of_view_def dec64_pos)
qed

lemma vh_end_of_last_view:
  "length views \<le> v \<or> v = 0 \<Longrightarrow> vh_end_of_view views v = NoVersion"
  by (auto simp: vh_end_of_view_def)

text \<open>Inside one view the view of a version is constant.\<close>

lemma vh_view_at_before:
  assumes "vh_inv views" and "vh_view_at views i < length views" and "i \<le> j"
    and "j < views ! vh_view_at views i"
  shows "vh_view_at views j = vh_view_at views i"
proof (rule antisym)
  show "vh_view_at views i \<le> vh_view_at views j" using assms(1,3) by (rule vh_view_at_mono)
  have "\<not> vh_view_at views i < upper_bound views j"
    using assms by (simp add: upper_bound_le_iff vh_inv_sorted)
  then show "vh_view_at views j \<le> vh_view_at views i" by (simp add: vh_view_at_upper_bound)
qed

text \<open>C23: The view history answers like the map from versions to views it stands for. An update at
  the version \<open>idx\<close> puts every version from \<open>idx\<close> on into the new view and changes no
  earlier one; a rollback keeps the view of every version up to \<open>idx\<close>; and the history until a
  version, given to a new node, is read back as it was.\<close>

theorem view_history_spec:
  assumes "vh_inv views" and "views = [] \<or> last views \<le> idx"
  shows "\<exists>views'. vh_update idx view views = ok views'
      \<and> (\<forall>i. vh_view_at views' i = (if idx \<le> i then max view (length views) else vh_view_at views i))
    \<and> (\<forall>i. vh_view_at (vh_rollback j views) i = vh_view_at views (min i j))
    \<and> vh_initialise (vh_get_history_until views j) = ok (vh_rollback j views)"
proof -
  let ?v = "views @ replicate (view - length views) idx"
  have u: "vh_update idx view views = ok ?v" using assms(2) by (auto simp: vh_update_def)
  have "sorted (vh_rollback j views)" using vh_inv_rollback [OF assms(1)] by (rule vh_inv_sorted)
  then have "vh_initialise (vh_get_history_until views j) = ok (vh_rollback j views)"
    using vh_initialise_from_append [of "[]" "vh_rollback j views"]
    by (simp add: vh_initialise_def vh_get_history_until_def vh_rollback_def)
  then show ?thesis
    using u vh_view_at_update [OF assms(1) u] vh_view_at_rollback [OF assms(1)]
    by (intro exI [of _ ?v]) simp
qed

theorem view_history_spec_witness:
  "vh_view_at (vh_rollback 4 [1, 3, 6]) 9 = vh_view_at [1, 3, 6] 4"
  using view_history_spec [of "[1, 3, 6]" 6 4 4] by (auto simp: vh_inv_def)

end
