(* ===== verification/Serialized.thy ===== *)
theory Serialized
  imports Prelude
begin

text \<open>
  The byte cursors of ds/serialized.h and the ledger entry framing built on them
  (kv/serialised_entry_format.h, consensus/ledger_enclave.h). A read cursor \<open>(data, size)\<close>
  is the list of the bytes that remain; a write cursor is the bytes written so far and the room
  that is left. Fixed-width integers are little-endian, as on the platforms CCF is built for.
\<close>

type_synonym byte = "8 word"
type_synonym 'a fallible = "exn + 'a"

section \<open>Little-endian integers\<close>

fun le_bytes :: "nat \<Rightarrow> nat \<Rightarrow> byte list" where
  "le_bytes 0 v = []"
| "le_bytes (Suc n) v = word_of_nat (v mod 256) # le_bytes n (v div 256)"

fun le_value :: "byte list \<Rightarrow> nat" where
  "le_value [] = 0"
| "le_value (b # bs) = unat b + 256 * le_value bs"

lemma length_le_bytes [simp]: "length (le_bytes n v) = n"
  by (induction n arbitrary: v) auto

lemma unat_word_of_nat_byte [simp]: "unat (word_of_nat (v mod 256) :: byte) = v mod 256"
  by (simp add: unat_of_nat)

lemma le_value_le_bytes: "v < 256 ^ n \<Longrightarrow> le_value (le_bytes n v) = v"
proof (induction n arbitrary: v)
  case 0
  then show ?case by simp
next
  case (Suc n)
  then have "v div 256 < 256 ^ n"
    by (simp add: less_mult_imp_div_less mult.commute)
  then have "le_value (le_bytes n (v div 256)) = v div 256" by (rule Suc.IH)
  then show ?case by simp
qed

lemma le_value_bound: "le_value bs < 256 ^ length bs"
proof (induction bs)
  case Nil
  then show ?case by simp
next
  case (Cons b bs)
  have "unat b < 256" using unsigned_less [of b] by simp
  with Cons show ?case by simp
qed

section \<open>Read cursors\<close>

definition insufficient :: "'a fallible" where
  "insufficient = Inl (LogicError ''Insufficient space'')"

text \<open>\<open>peek<T>\<close> for an unsigned integer type of \<open>n\<close> bytes.\<close>

definition peek_uint :: "nat \<Rightarrow> byte list \<Rightarrow> nat fallible" where
  "peek_uint n data =
     (if length data < n then insufficient else Inr (le_value (take n data)))"

definition read_uint :: "nat \<Rightarrow> byte list \<Rightarrow> (nat \<times> byte list) fallible" where
  "read_uint n data =
     (if length data < n then insufficient
      else Inr (le_value (take n data), drop n data))"

definition read_block :: "nat \<Rightarrow> byte list \<Rightarrow> (byte list \<times> byte list) fallible" where
  "read_block block_size data =
     (if length data < block_size then insufficient
      else Inr (take block_size data, drop block_size data))"

text \<open>
  \<open>read<std::string>\<close> reads a length of eight bytes and then that many bytes, without
  comparing the length with what remains: \<open>None\<close> is the read outside the buffer that the
  code performs when the length is too large.
\<close>

definition read_string :: "byte list \<Rightarrow> (byte list \<times> byte list) option fallible" where
  "read_string data =
     (case read_uint 8 data of
        Inl e \<Rightarrow> Inl e
      | Inr (len, rest) \<Rightarrow>
          if len \<le> length rest then Inr (Some (take len rest, drop len rest)) else Inr None)"

definition read_lpsv :: "byte list \<Rightarrow> (byte list \<times> byte list) fallible" where
  "read_lpsv data =
     (case read_uint 2 data of
        Inl e \<Rightarrow> Inl e
      | Inr (len, rest) \<Rightarrow>
          if length rest < len then insufficient else Inr (take len rest, drop len rest))"

definition skip_bytes :: "nat \<Rightarrow> byte list \<Rightarrow> byte list fallible" where
  "skip_bytes n data = (if length data < n then insufficient else Inr (drop n data))"

text \<open>\<open>overlay<T>\<close>: the bytes under the overlaid object, and the rest.\<close>

definition overlay :: "nat \<Rightarrow> byte list \<Rightarrow> (byte list \<times> byte list) fallible" where
  "overlay n data =
     (if length data < n then insufficient else Inr (take n data, drop n data))"

section \<open>Write cursors\<close>

record cursor =
  written :: "byte list"
  room :: nat

definition write_block :: "byte list \<Rightarrow> cursor \<Rightarrow> cursor fallible" where
  "write_block block c =
     (if room c < length block then insufficient
      else Inr (c\<lparr>written := written c @ block, room := room c - length block\<rparr>))"

definition write_uint :: "nat \<Rightarrow> nat \<Rightarrow> cursor \<Rightarrow> cursor fallible" where
  "write_uint n v c =
     (if room c < n then insufficient
      else Inr (c\<lparr>written := written c @ le_bytes n v, room := room c - n\<rparr>))"

definition write_string :: "byte list \<Rightarrow> cursor \<Rightarrow> cursor fallible" where
  "write_string v c =
     (if room c < 8 + length v then insufficient
      else case write_uint 8 (length v) c of
             Inl e \<Rightarrow> Inl e
           | Inr c' \<Rightarrow> write_block v c')"

text \<open>\<open>write_lps\<close> passes the length as a \<open>uint16_t\<close>, which keeps its low 16 bits.\<close>

definition write_lps :: "byte list \<Rightarrow> cursor \<Rightarrow> cursor fallible" where
  "write_lps v c =
     (case write_uint 2 (length v mod 2 ^ 16) c of
        Inl e \<Rightarrow> Inl e
      | Inr c' \<Rightarrow> write_block v c')"

section \<open>Round trips\<close>

lemma read_uint_le_bytes:
  "v < 256 ^ n \<Longrightarrow> read_uint n (le_bytes n v @ rest) = Inr (v, rest)"
  by (simp add: read_uint_def le_value_le_bytes)

lemma write_uint_room:
  "write_uint n v c = Inr c' \<Longrightarrow>
     written c' = written c @ le_bytes n v \<and> room c = room c' + n"
  by (auto simp: write_uint_def insufficient_def split: if_splits)

lemma write_block_room:
  "write_block b c = Inr c' \<Longrightarrow> written c' = written c @ b \<and> room c = room c' + length b"
  by (auto simp: write_block_def insufficient_def split: if_splits)

lemma write_string_written:
  assumes "write_string v c = Inr c'"
  shows "written c' = written c @ le_bytes 8 (length v) @ v"
    and "room c = room c' + 8 + length v"
  using assms
  by (auto simp: write_string_def insufficient_def split: if_splits sum.splits
      dest!: write_uint_room write_block_room)

lemma read_string_written:
  assumes "length v < 2 ^ 64"
  shows "read_string (le_bytes 8 (length v) @ v @ rest) = Inr (Some (v, rest))"
  using assms by (simp add: read_string_def read_uint_le_bytes)

lemma read_lpsv_written:
  assumes "length v < 2 ^ 16"
  shows "read_lpsv (le_bytes 2 (length v mod 2 ^ 16) @ v @ rest) = Inr (v, rest)"
  using assms by (simp add: read_lpsv_def read_uint_le_bytes)

section \<open>Ledger entries\<close>

text \<open>
  An entry starts with an eight-byte header: the format version, the flags and a 48-bit size
  of what follows.
\<close>

record SerialisedEntryHeader =
  version :: nat
  flags :: nat
  hsize :: nat

definition serialised_entry_header_size :: nat where
  "serialised_entry_header_size = 8"

definition peek_header :: "byte list \<Rightarrow> SerialisedEntryHeader fallible" where
  "peek_header data =
     (if length data < serialised_entry_header_size then insufficient
      else Inr \<lparr>version = le_value (take 1 data), flags = le_value (take 1 (drop 1 data)),
                hsize = le_value (take 6 (drop 2 data))\<rparr>)"

definition header_bytes :: "SerialisedEntryHeader \<Rightarrow> byte list" where
  "header_bytes h = le_bytes 1 (version h) @ le_bytes 1 (flags h) @ le_bytes 6 (hsize h)"

text \<open>The vector made of the bytes from a pointer up to \<open>n\<close> bytes further.\<close>

definition copy_bytes :: "nat \<Rightarrow> byte list \<Rightarrow> byte list fallible" where
  "copy_bytes n data = (if n \<le> length data then Inr (take n data) else Inl OutOfBounds)"

definition get_entry :: "byte list \<Rightarrow> (byte list \<times> byte list) fallible" where
  "get_entry data =
     (case peek_header data of
        Inl e \<Rightarrow> Inl e
      | Inr h \<Rightarrow>
          let entry_size = serialised_entry_header_size + hsize h
          in case copy_bytes entry_size data of
               Inl e \<Rightarrow> Inl e
             | Inr entry \<Rightarrow>
                 (case skip_bytes entry_size data of
                    Inl e \<Rightarrow> Inl e
                  | Inr rest \<Rightarrow> Inr (entry, rest)))"

definition skip_entry :: "byte list \<Rightarrow> byte list fallible" where
  "skip_entry data =
     (case peek_header data of
        Inl e \<Rightarrow> Inl e
      | Inr h \<Rightarrow> skip_bytes (hsize h) (drop serialised_entry_header_size data))"

definition entry_bytes :: "SerialisedEntryHeader \<Rightarrow> byte list \<Rightarrow> byte list" where
  "entry_bytes h body = header_bytes h @ body"

lemma length_header_bytes [simp]: "length (header_bytes h) = 8"
  by (simp add: header_bytes_def)

lemma peek_header_bytes:
  assumes "version h < 256" and "flags h < 256" and "hsize h < 2 ^ 48"
  shows "peek_header (header_bytes h @ rest) = Inr h"
proof -
  have "hsize h < 256 ^ 6" using assms(3) by simp
  moreover have "take 1 (header_bytes h @ rest) = le_bytes 1 (version h)"
    and "take 1 (drop 1 (header_bytes h @ rest)) = le_bytes 1 (flags h)"
    and "take 6 (drop 2 (header_bytes h @ rest)) = le_bytes 6 (hsize h)"
    by (simp_all add: header_bytes_def)
  moreover have "le_value (le_bytes 1 (version h)) = version h"
    and "le_value (le_bytes 1 (flags h)) = flags h"
    using assms(1,2) by (simp_all add: le_value_le_bytes del: le_bytes.simps One_nat_def)
  ultimately show ?thesis
    by (simp add: peek_header_def serialised_entry_header_size_def le_value_le_bytes
        del: le_bytes.simps One_nat_def drop_append take_append)
qed

lemma get_entry_skip_entry:
  "get_entry data = Inr (entry, rest) \<Longrightarrow> skip_entry data = Inr rest"
  by (auto simp: get_entry_def copy_bytes_def skip_entry_def skip_bytes_def insufficient_def Let_def add.commute
      split: sum.splits if_splits)

lemma get_entry_append: "get_entry data = Inr (entry, rest) \<Longrightarrow> data = entry @ rest"
  by (auto simp: get_entry_def copy_bytes_def skip_bytes_def insufficient_def Let_def
      split: sum.splits if_splits)

lemma length_entry_bytes: "length (entry_bytes h body) = serialised_entry_header_size + length body"
  by (simp add: entry_bytes_def serialised_entry_header_size_def)

text \<open>C24: A ledger entry round trip: an entry framed by its header is found again in front of any
  other bytes, the rest of the buffer is left, and skipping the entry leaves the same rest.\<close>

theorem entry_roundtrip:
  assumes "version h < 256" and "flags h < 256" and "hsize h < 2 ^ 48" and "hsize h = length body"
  shows "get_entry (entry_bytes h body @ rest) = Inr (entry_bytes h body, rest)
    \<and> skip_entry (entry_bytes h body @ rest) = Inr rest"
proof -
  have p: "peek_header (entry_bytes h body @ rest) = Inr h"
    using peek_header_bytes [OF assms(1-3)] by (simp add: entry_bytes_def)
  then have g: "get_entry (entry_bytes h body @ rest) = Inr (entry_bytes h body, rest)"
    using assms(4) length_entry_bytes [of h body]
    by (simp add: get_entry_def copy_bytes_def skip_bytes_def Let_def)
  with get_entry_skip_entry [OF g] show ?thesis by simp
qed

theorem entry_roundtrip_witness:
  "get_entry (entry_bytes \<lparr>version = 1, flags = 0, hsize = 2\<rparr> [7, 8] @ [9])
    = Inr (entry_bytes \<lparr>version = 1, flags = 0, hsize = 2\<rparr> [7, 8], [9])"
  using entry_roundtrip [of "\<lparr>version = 1, flags = 0, hsize = 2\<rparr>" "[7, 8]" "[9]"] by simp

text \<open>C27: \<open>get_entry\<close> reads outside its buffer whenever the size in the header is larger than what
  follows, because the copy is made before the size is compared; \<open>skip_entry\<close>, which makes no copy,
  throws an exception on the same bytes.\<close>

theorem get_entry_reads_too_far:
  assumes "version h < 256" and "flags h < 256" and "hsize h < 2 ^ 48" and "length body < hsize h"
  shows "get_entry (entry_bytes h body) = Inl OutOfBounds \<and> skip_entry (entry_bytes h body) = insufficient"
proof -
  have p: "peek_header (entry_bytes h body) = Inr h"
    using peek_header_bytes [OF assms(1-3), of body] by (simp add: entry_bytes_def)
  moreover have "drop serialised_entry_header_size (entry_bytes h body) = body"
    by (simp add: entry_bytes_def serialised_entry_header_size_def)
  ultimately show ?thesis
    using assms(4) length_entry_bytes [of h body]
    by (simp add: get_entry_def skip_entry_def copy_bytes_def skip_bytes_def Let_def)
qed

theorem get_entry_reads_too_far_witness:
  "get_entry (entry_bytes \<lparr>version = 1, flags = 0, hsize = 9\<rparr> [7, 8]) = Inl OutOfBounds
    \<and> skip_entry (entry_bytes \<lparr>version = 1, flags = 0, hsize = 9\<rparr> [7, 8]) = insufficient"
  using get_entry_reads_too_far [of "\<lparr>version = 1, flags = 0, hsize = 9\<rparr>" "[7, 8]"] by simp

text \<open>String round trips: what \<open>write\<close> and \<open>write_lps\<close> put into a buffer with enough
  room, \<open>read<std::string>\<close> and \<open>read_lpsv\<close> take out again, up to the 16-bit length
  of the second.\<close>

theorem string_roundtrip:
  assumes "length v < 2 ^ 16" and "write_string v c = Inr c'" and "write_lps v d = Inr d'"
  shows "\<exists>s l. written c' = written c @ s \<and> read_string (s @ rest) = Inr (Some (v, rest))
    \<and> written d' = written d @ l \<and> read_lpsv (l @ rest) = Inr (v, rest)"
proof -
  have "written d' = written d @ le_bytes 2 (length v mod 2 ^ 16) @ v"
    using assms(3) by (auto simp: write_lps_def split: sum.splits dest!: write_uint_room write_block_room)
  moreover have "read_lpsv ((le_bytes 2 (length v mod 2 ^ 16) @ v) @ rest) = Inr (v, rest)"
    using read_lpsv_written [OF assms(1)] by simp
  moreover have "read_string ((le_bytes 8 (length v) @ v) @ rest) = Inr (Some (v, rest))"
    using read_string_written [of v rest] assms(1) by simp
  ultimately show ?thesis using write_string_written(1) [OF assms(2)] by blast
qed

theorem string_roundtrip_witness:
  "read_string (le_bytes 8 1 @ [1, 5]) = Inr (Some ([1], [5]))
    \<and> read_lpsv (le_bytes 2 1 @ [1, 5]) = Inr ([1], [5])"
  using string_roundtrip [of "[1]" "\<lparr>written = [], room = 9\<rparr>" "\<lparr>written = le_bytes 8 1 @ [1], room = 0\<rparr>"
      "\<lparr>written = [], room = 3\<rparr>" "\<lparr>written = le_bytes 2 1 @ [1], room = 0\<rparr>" "[5]"]
  by (auto simp: write_string_def write_lps_def write_uint_def write_block_def insufficient_def
      simp del: le_bytes.simps)

end
