(* ===== verification/Raft_Types.thy ===== *)
theory Raft_Types
  imports View_History Serialized
begin

text \<open>
  The data of the consensus layer: entity identifiers (include/ccf/entity_id.h),
  configurations, node states and result codes (kv/kv_types.h), the Raft messages
  (consensus/aft/raft_types.h) with their packed wire format, and the hooks that reconfigure
  a node (node/hooks.h, node/resharing.h).
\<close>

section \<open>Entity identifiers\<close>

datatype EntityId = EntityId (id_value: string)

type_synonym NodeId = EntityId

instantiation EntityId :: linorder
begin

definition less_EntityId :: "EntityId \<Rightarrow> EntityId \<Rightarrow> bool" where
  "less_EntityId a b \<longleftrightarrow> id_value a < id_value b"

definition less_eq_EntityId :: "EntityId \<Rightarrow> EntityId \<Rightarrow> bool" where
  "less_eq_EntityId a b \<longleftrightarrow> id_value a \<le> id_value b"

instance
  by intro_classes (auto simp: less_EntityId_def less_eq_EntityId_def intro: EntityId.expand)

end

section \<open>Enumerations\<close>

datatype ConsensusType = CFT | BFT
datatype ReconfigurationType = ONE_TRANSACTION | TWO_TRANSACTION
datatype LeadershipState = Leader | Follower | Candidate
datatype MembershipState = Learner | Active | RetirementInitiated | Retired
datatype RetirementPhase = Committed | Ordered | Signed | Completed
datatype SignatureDisposition = CANT_REPLICATE | CAN_SIGN | SHOULD_SIGN
datatype ApplyResult =
    PASS | PASS_SIGNATURE | PASS_BACKUP_SIGNATURE | PASS_BACKUP_SIGNATURE_SEND_ACK
  | PASS_NONCES | PASS_NEW_VIEW | PASS_SNAPSHOT_EVIDENCE
  | PASS_ENCRYPTED_PAST_LEDGER_SECRET | PASS_APPLY | FAIL

text \<open>The numeric values of the phases, which the code compares.\<close>

fun phase_num :: "RetirementPhase \<Rightarrow> nat" where
  "phase_num Committed = 0"
| "phase_num Ordered = 1"
| "phase_num Signed = 2"
| "phase_num Completed = 3"

section \<open>Configurations\<close>

type_synonym Index = nat
type_synonym Term = nat
type_synonym ReconfigurationId = nat

record TxID =
  tx_view :: Term
  tx_seqno :: Index

record NodeInfo =
  hostname :: string
  port :: string

type_synonym Nodes = "(NodeId \<times> NodeInfo) list"

record Configuration =
  cfg_idx :: Index
  cfg_nodes :: Nodes
  cfg_bft_offset :: nat
  cfg_rid :: ReconfigurationId

abbreviation node_ids :: "Nodes \<Rightarrow> NodeId set" where
  "node_ids ns \<equiv> set (al_keys ns)"

record ResharingResult =
  rr_seqno :: Index
  rr_reconfiguration_id :: ReconfigurationId

section \<open>Messages\<close>

record AppendEntries =
  ae_idx :: Index
  ae_prev_idx :: Index
  ae_term :: Term
  ae_prev_term :: Term
  ae_leader_commit_idx :: Index
  ae_term_of_idx :: Term
  ae_contains_new_view :: bool

datatype AppendEntriesResponseType = AE_OK | AE_FAIL | AE_REQUIRE_EVIDENCE

record AppendEntriesResponse =
  aer_term :: Term
  aer_last_log_idx :: Index
  aer_success :: AppendEntriesResponseType

record RequestVote =
  rv_term :: Term
  rv_last_committable_idx :: Index
  rv_term_of_last_committable_idx :: Term

record RequestVoteResponse =
  rvr_term :: Term
  rvr_vote_granted :: bool

datatype RaftMsg =
    MsgAppendEntries AppendEntries
  | MsgAppendEntriesResponse AppendEntriesResponse
  | MsgRequestVote RequestVote
  | MsgRequestVoteResponse RequestVoteResponse

section \<open>Wire format\<close>

text \<open>
  The structs are packed; every integer field has eight bytes, an enumeration of base
  \<open>uint8_t\<close> and a \<open>bool\<close> have one. \<open>RaftMsgType\<close> numbers its constants from 0:
  append entries, its response, the signed response, request vote, its response.
\<close>

definition raft_append_entries :: nat where "raft_append_entries = 0"
definition raft_append_entries_response :: nat where "raft_append_entries_response = 1"
definition raft_request_vote :: nat where "raft_request_vote = 3"
definition raft_request_vote_response :: nat where "raft_request_vote_response = 4"

lemmas raft_msg_types =
  raft_append_entries_def raft_append_entries_response_def raft_request_vote_def
  raft_request_vote_response_def

fun response_code :: "AppendEntriesResponseType \<Rightarrow> nat" where
  "response_code AE_OK = 0"
| "response_code AE_FAIL = 1"
| "response_code AE_REQUIRE_EVIDENCE = 2"

text \<open>
  The receiver compares the byte with \<open>OK\<close> and \<open>FAIL\<close> only: every other value is
  handled as \<open>REQUIRE_EVIDENCE\<close> is.
\<close>

definition response_of_code :: "nat \<Rightarrow> AppendEntriesResponseType" where
  "response_of_code c =
     (if c = 0 then AE_OK else if c = 1 then AE_FAIL else AE_REQUIRE_EVIDENCE)"

definition bool_code :: "bool \<Rightarrow> nat" where
  "bool_code b = (if b then 1 else 0)"

fun raft_msg_bytes :: "RaftMsg \<Rightarrow> byte list" where
  "raft_msg_bytes (MsgAppendEntries r) =
     le_bytes 8 raft_append_entries @ le_bytes 8 (ae_idx r) @ le_bytes 8 (ae_prev_idx r)
     @ le_bytes 8 (ae_term r) @ le_bytes 8 (ae_prev_term r) @ le_bytes 8 (ae_leader_commit_idx r)
     @ le_bytes 8 (ae_term_of_idx r) @ le_bytes 1 (bool_code (ae_contains_new_view r))"
| "raft_msg_bytes (MsgAppendEntriesResponse r) =
     le_bytes 8 raft_append_entries_response @ le_bytes 8 (aer_term r)
     @ le_bytes 8 (aer_last_log_idx r) @ le_bytes 1 (response_code (aer_success r))"
| "raft_msg_bytes (MsgRequestVote r) =
     le_bytes 8 raft_request_vote @ le_bytes 8 (rv_term r)
     @ le_bytes 8 (rv_last_committable_idx r) @ le_bytes 8 (rv_term_of_last_committable_idx r)"
| "raft_msg_bytes (MsgRequestVoteResponse r) =
     le_bytes 8 raft_request_vote_response @ le_bytes 8 (rvr_term r)
     @ le_bytes 1 (bool_code (rvr_vote_granted r))"

text \<open>The field of \<open>n\<close> bytes at offset \<open>off\<close> of an overlaid struct.\<close>

definition field_at :: "nat \<Rightarrow> nat \<Rightarrow> byte list \<Rightarrow> nat" where
  "field_at off n bs = le_value (take n (drop off bs))"

definition sizeof_AppendEntries :: nat where "sizeof_AppendEntries = 57"
definition sizeof_AppendEntriesResponse :: nat where "sizeof_AppendEntriesResponse = 25"
definition sizeof_RequestVote :: nat where "sizeof_RequestVote = 32"
definition sizeof_RequestVoteResponse :: nat where "sizeof_RequestVoteResponse = 17"

lemmas raft_sizeofs =
  sizeof_AppendEntries_def sizeof_AppendEntriesResponse_def sizeof_RequestVote_def
  sizeof_RequestVoteResponse_def

definition AppendEntries_of :: "byte list \<Rightarrow> AppendEntries" where
  "AppendEntries_of bs =
     \<lparr>ae_idx = field_at 8 8 bs, ae_prev_idx = field_at 16 8 bs, ae_term = field_at 24 8 bs,
      ae_prev_term = field_at 32 8 bs, ae_leader_commit_idx = field_at 40 8 bs,
      ae_term_of_idx = field_at 48 8 bs, ae_contains_new_view = (field_at 56 1 bs \<noteq> 0)\<rparr>"

definition AppendEntriesResponse_of :: "byte list \<Rightarrow> AppendEntriesResponse" where
  "AppendEntriesResponse_of bs =
     \<lparr>aer_term = field_at 8 8 bs, aer_last_log_idx = field_at 16 8 bs,
      aer_success = response_of_code (field_at 24 1 bs)\<rparr>"

definition RequestVote_of :: "byte list \<Rightarrow> RequestVote" where
  "RequestVote_of bs =
     \<lparr>rv_term = field_at 8 8 bs, rv_last_committable_idx = field_at 16 8 bs,
      rv_term_of_last_committable_idx = field_at 24 8 bs\<rparr>"

definition RequestVoteResponse_of :: "byte list \<Rightarrow> RequestVoteResponse" where
  "RequestVoteResponse_of bs =
     \<lparr>rvr_term = field_at 8 8 bs, rvr_vote_granted = (field_at 16 1 bs \<noteq> 0)\<rparr>"

lemma field_at_le_bytes:
  "length pre = off \<Longrightarrow> v < 256 ^ n \<Longrightarrow> field_at off n (pre @ le_bytes n v @ post) = v"
  by (simp add: field_at_def le_value_le_bytes)

lemma length_raft_msg_bytes:
  "length (raft_msg_bytes (MsgAppendEntries r1)) = sizeof_AppendEntries"
  "length (raft_msg_bytes (MsgAppendEntriesResponse r2)) = sizeof_AppendEntriesResponse"
  "length (raft_msg_bytes (MsgRequestVote r3)) = sizeof_RequestVote"
  "length (raft_msg_bytes (MsgRequestVoteResponse r4)) = sizeof_RequestVoteResponse"
  by (simp_all add: raft_sizeofs del: le_bytes.simps)

lemma response_of_code_code [simp]: "response_of_code (response_code s) = s"
  by (cases s) (simp_all add: response_of_code_def)

section \<open>Reconfiguration hooks\<close>

datatype NodeStatus = PENDING | TRUSTED | RETIRED | LEARNER | RETIRING

text \<open>
  A write to the nodes table: the status and the published node-to-node address, already
  split into host and port. \<open>None\<close> deletes the key.
\<close>

record NodeWrite =
  nw_status :: NodeStatus
  nw_host :: string
  nw_port :: string

datatype Hook =
    ConfigurationChangeHook Version "(NodeId \<times> (string \<times> string) option) list" "NodeId set" "NodeId set"
  | ResharingsHook Version "(ReconfigurationId \<times> ResharingResult) list"

fun configuration_change_write ::
  "NodeId \<times> NodeWrite option
   \<Rightarrow> (NodeId \<times> (string \<times> string) option) list \<times> NodeId set \<times> NodeId set
   \<Rightarrow> (NodeId \<times> (string \<times> string) option) list \<times> NodeId set \<times> NodeId set"
where
  "configuration_change_write (node_id, None) (delta, learners, retired) = (delta, learners, retired)"
| "configuration_change_write (node_id, Some ni) (delta, learners, retired) =
     (case nw_status ni of
        PENDING \<Rightarrow> (delta, learners, retired)
      | TRUSTED \<Rightarrow> (smap_emplace node_id (Some (nw_host ni, nw_port ni)) delta, learners, retired)
      | RETIRED \<Rightarrow> (smap_emplace node_id None delta, learners, insert node_id retired)
      | LEARNER \<Rightarrow> (smap_emplace node_id (Some (nw_host ni, nw_port ni)) delta,
                     insert node_id learners, retired)
      | RETIRING \<Rightarrow> (smap_emplace node_id None delta, learners, retired))"

definition make_configuration_change_hook :: "Version \<Rightarrow> (NodeId \<times> NodeWrite option) list \<Rightarrow> Hook" where
  "make_configuration_change_hook v w =
     (let (delta, learners, retired) = fold configuration_change_write w ([], {}, {})
      in ConfigurationChangeHook v delta learners retired)"

fun resharings_write ::
  "ReconfigurationId \<times> ResharingResult option
   \<Rightarrow> (ReconfigurationId \<times> ResharingResult) list \<Rightarrow> (ReconfigurationId \<times> ResharingResult) list"
where
  "resharings_write (rid, None) results = results"
| "resharings_write (rid, Some rr) results = al_emplace rid rr results"

definition make_resharings_hook ::
  "Version \<Rightarrow> (ReconfigurationId \<times> ResharingResult option) list \<Rightarrow> Hook"
where
  "make_resharings_hook v w = ResharingsHook v (fold resharings_write w [])"

text \<open>The configuration a \<open>ConfigurationChangeHook\<close> computes from the latest one.\<close>

fun apply_delta :: "(NodeId \<times> (string \<times> string) option) list \<Rightarrow> Nodes \<Rightarrow> Nodes" where
  "apply_delta [] conf = conf"
| "apply_delta ((node_id, Some (host, prt)) # delta) conf =
     apply_delta delta (smap_emplace node_id \<lparr>hostname = host, port = prt\<rparr> conf)"
| "apply_delta ((node_id, None) # delta) conf = apply_delta delta (al_erase node_id conf)"

section \<open>The outside of a node\<close>

text \<open>
  What a node does to its collaborators, in order: messages handed to the node-to-node
  channels (with the result of \<open>send_authenticated\<close>), calls on the store, the ledger, the
  resharing tracker and the node client, and draws of the election randomness.
\<close>

datatype event =
    Send NodeId RaftMsg bool
  | AssociateAddress NodeId string string
  | StoreApply "byte list" TxID
  | StoreExecute Index
  | StoreCompact Index
  | StoreRollback TxID Term
  | StoreInitialiseTerm Term
  | LedgerPutEntry "byte list" bool Term Index
  | LedgerTruncate Index
  | LedgerCommit Index
  | LedgerInit Index Index
  | CleanupRetiredNodes
  | SubmitOrc NodeId ReconfigurationId
  | TrackConfiguration Configuration
  | Reshare Configuration
  | TrackResharingResult Index ReconfigurationId ResharingResult
  | CompactResharing Index
  | DrawRandom

text \<open>
  What \<open>Store::apply\<close> returns for a ledger entry (\<open>kv::AbstractExecutionWrapper\<close>). The
  result of \<open>apply ()\<close> and the hooks it collects may depend on everything before the call.
\<close>

record ExecutionWrapper =
  ew_apply :: "event list \<Rightarrow> ApplyResult"
  ew_hooks :: "event list \<Rightarrow> Hook list"
  ew_entry :: "byte list"
  ew_term :: Term
  ew_index :: Version

record ResharingTracker =
  rt_find_reconfiguration :: "event list \<Rightarrow> Nodes \<Rightarrow> ReconfigurationId option"
  rt_have_resharing_result_for :: "event list \<Rightarrow> ReconfigurationId \<Rightarrow> Index \<Rightarrow> bool"

text \<open>
  The collaborators' answers, as functions of what was asked of them so far: each answer may
  depend on the whole history. \<open>env_empty_config\<close> stands for what \<open>front ()\<close> and
  \<open>back ()\<close> read in an empty list, which the language leaves undefined.
\<close>

record Environment =
  env_send_authenticated :: "event list \<Rightarrow> NodeId \<Rightarrow> RaftMsg \<Rightarrow> bool"
  env_recv_authenticated :: "event list \<Rightarrow> NodeId \<Rightarrow> byte list \<Rightarrow> byte list \<Rightarrow> byte list option"
  env_have_channel :: "event list \<Rightarrow> NodeId \<Rightarrow> bool"
  env_deserialize ::
    "event list \<Rightarrow> byte list \<Rightarrow> ConsensusType \<Rightarrow> bool \<Rightarrow> TxID \<Rightarrow> ExecutionWrapper option"
  env_random :: "event list \<Rightarrow> nat"
  env_resharing_tracker :: "ResharingTracker option"
  env_node_client :: bool
  env_empty_config :: Configuration

end
