(* ===== verification/Aft_State.thy ===== *)
theory Aft_State
  imports Raft_Types
begin

text \<open>
  The state of \<open>aft::Aft\<close> (consensus/aft/raft.h) and of the shared \<open>aft::State\<close>
  (consensus/aft/impl/state.h), with the queries that change nothing. \<open>Aft\<close> extends
  \<open>State\<close>: the shared pointer is flattened into the record. Two fields stand for the
  node's collaborators: \<open>env\<close> gives their answers and \<open>trace\<close> records every call the
  node makes on them, in order.
\<close>

section \<open>State\<close>

record NodeState =
  node_info :: NodeInfo
  sent_idx :: Index
  match_idx :: Index
  last_ack_timeout :: nat

record State =
  my_node_id :: NodeId
  current_view :: Term
  last_idx :: Index
  commit_idx :: Index
  cft_watermark_idx :: Index
  view_history :: ViewHistory
  new_view_idx :: Index
  requested_evidence_from :: "NodeId option"

record Aft = State +
  consensus_type :: ConsensusType
  voted_for :: "NodeId option"
  leader_id :: "NodeId option"
  votes_for_me :: "NodeId set"
  leadership_state :: "LeadershipState option"
  membership_state :: MembershipState
  retirement_phase :: "RetirementPhase option"
  timeout_elapsed :: nat
  election_index :: Version
  is_new_follower :: bool
  should_sign :: bool
  request_timeout :: nat
  election_timeout :: nat
  ticking :: bool
  configurations :: "Configuration list"
  nodes :: "(NodeId \<times> NodeState) list"
  learner_nodes :: "NodeId \<rightharpoonup> Index"
  retired_nodes :: "NodeId \<rightharpoonup> Index"
  reconfiguration_type :: ReconfigurationType
  require_identity_for_reconfig :: bool
  orc_sets :: "ReconfigurationId \<rightharpoonup> NodeId set"
  retirement_idx :: "Index option"
  retirement_committable_idx :: "Index option"
  entry_size_not_limited :: nat
  entry_count :: nat
  entries_batch_size :: Index
  batch_window_sum :: int
  committable_indices :: "Index list"
  public_only :: bool
  env :: Environment
  trace :: "event list"

definition starting_view_change :: Term where
  "starting_view_change = 2"

definition emit :: "event \<Rightarrow> Aft \<Rightarrow> Aft" where
  "emit e a = a\<lparr>trace := trace a @ [e]\<rparr>"

lemma emit_simps [simp]:
  "my_node_id (emit e a) = my_node_id a" "current_view (emit e a) = current_view a"
  "last_idx (emit e a) = last_idx a" "commit_idx (emit e a) = commit_idx a"
  "cft_watermark_idx (emit e a) = cft_watermark_idx a" "view_history (emit e a) = view_history a"
  "new_view_idx (emit e a) = new_view_idx a" "voted_for (emit e a) = voted_for a"
  "leader_id (emit e a) = leader_id a" "votes_for_me (emit e a) = votes_for_me a"
  "leadership_state (emit e a) = leadership_state a"
  "membership_state (emit e a) = membership_state a"
  "retirement_phase (emit e a) = retirement_phase a"
  "requested_evidence_from (emit e a) = requested_evidence_from a"
  "consensus_type (emit e a) = consensus_type a" "election_index (emit e a) = election_index a"
  "timeout_elapsed (emit e a) = timeout_elapsed a" "election_timeout (emit e a) = election_timeout a"
  "request_timeout (emit e a) = request_timeout a"
  "is_new_follower (emit e a) = is_new_follower a" "should_sign (emit e a) = should_sign a"
  "ticking (emit e a) = ticking a" "configurations (emit e a) = configurations a"
  "nodes (emit e a) = nodes a" "learner_nodes (emit e a) = learner_nodes a"
  "retired_nodes (emit e a) = retired_nodes a"
  "reconfiguration_type (emit e a) = reconfiguration_type a"
  "require_identity_for_reconfig (emit e a) = require_identity_for_reconfig a"
  "orc_sets (emit e a) = orc_sets a" "retirement_idx (emit e a) = retirement_idx a"
  "retirement_committable_idx (emit e a) = retirement_committable_idx a"
  "entries_batch_size (emit e a) = entries_batch_size a"
  "batch_window_sum (emit e a) = batch_window_sum a"
  "entry_size_not_limited (emit e a) = entry_size_not_limited a"
  "entry_count (emit e a) = entry_count a"
  "committable_indices (emit e a) = committable_indices a" "public_only (emit e a) = public_only a"
  "env (emit e a) = env a" "trace (emit e a) = trace a @ [e]"
  by (simp_all add: emit_def)

section \<open>Queries\<close>

definition primary :: "Aft \<Rightarrow> NodeId option" where
  "primary a = leader_id a"

definition view_change_in_progress :: "Aft \<Rightarrow> bool" where
  "view_change_in_progress a =
     (if consensus_type a = BFT then False else leadership_state a = Some Candidate)"

definition is_primary :: "Aft \<Rightarrow> bool" where
  "is_primary a \<longleftrightarrow> leadership_state a = Some Leader"

definition is_backup :: "Aft \<Rightarrow> bool" where
  "is_backup a \<longleftrightarrow> leadership_state a = Some Follower"

definition is_learner :: "Aft \<Rightarrow> bool" where
  "is_learner a \<longleftrightarrow> membership_state a = Learner"

definition is_retired :: "Aft \<Rightarrow> bool" where
  "is_retired a \<longleftrightarrow> membership_state a = Retired"

definition is_retiring :: "Aft \<Rightarrow> bool" where
  "is_retiring a \<longleftrightarrow> membership_state a = RetirementInitiated"

definition can_replicate_unsafe :: "Aft \<Rightarrow> bool" where
  "can_replicate_unsafe a \<longleftrightarrow>
     leadership_state a = Some Leader \<and> retirement_committable_idx a = None"

definition get_signature_disposition :: "Aft \<Rightarrow> SignatureDisposition" where
  "get_signature_disposition a =
     (if can_replicate_unsafe a
      then if should_sign a then SHOULD_SIGN else CAN_SIGN
      else CANT_REPLICATE)"

definition last_committable_index :: "Aft \<Rightarrow> Index" where
  "last_committable_index a =
     (if committable_indices a = [] then commit_idx a else last (committable_indices a))"

definition get_term_internal :: "Index \<Rightarrow> Aft \<Rightarrow> Term" where
  "get_term_internal idx a =
     (if idx > last_idx a then VIEW_UNKNOWN else vh_view_at (view_history a) idx)"

definition get_commit_idx_unsafe :: "Aft \<Rightarrow> Index" where
  "get_commit_idx_unsafe a = (if consensus_type a = CFT then commit_idx a else 0)"

definition get_committed_txid :: "Aft \<Rightarrow> Term \<times> Index" where
  "get_committed_txid a =
     (let idx = get_commit_idx_unsafe a in (get_term_internal idx a, idx))"

definition get_view_history :: "Index \<Rightarrow> Aft \<Rightarrow> ViewHistory" where
  "get_view_history idx a = vh_get_history_until (view_history a) idx"

record SignableTxIndices =
  sig_term :: Term
  sig_version :: Index
  sig_previous_version :: Index

definition get_signable_txid :: "Aft \<Rightarrow> Aft \<times> SignableTxIndices" where
  "get_signable_txid a =
     (a\<lparr>should_sign := False\<rparr>,
      \<lparr>sig_term = get_term_internal (last_idx a) a, sig_version = last_idx a,
       sig_previous_version = max (last_committable_index a) (election_index a)\<rparr>)"

definition get_latest_configuration_unsafe :: "Aft \<Rightarrow> Nodes" where
  "get_latest_configuration_unsafe a =
     (if configurations a = [] then [] else cfg_nodes (last (configurations a)))"

definition get_quorum :: "nat \<Rightarrow> Aft \<Rightarrow> nat" where
  "get_quorum n a = (case consensus_type a of CFT \<Rightarrow> n div 2 + 1 | BFT \<Rightarrow> (2 * n) div 3 + 1)"

definition get_commit_watermark_idx :: "Aft \<Rightarrow> Index" where
  "get_commit_watermark_idx a = cft_watermark_idx a"

definition is_self_in_latest_config :: "Aft \<Rightarrow> bool" where
  "is_self_in_latest_config a \<longleftrightarrow>
     configurations a \<noteq> [] \<and> my_node_id a \<in> node_ids (cfg_nodes (last (configurations a)))"

definition can_endorse_primary :: "Aft \<Rightarrow> bool" where
  "can_endorse_primary a \<longleftrightarrow> membership_state a \<noteq> Retired \<and> membership_state a \<noteq> Learner"

definition can_advance_watermark :: "Aft \<Rightarrow> bool" where
  "can_advance_watermark a \<longleftrightarrow> membership_state a \<noteq> Retired \<and> membership_state a \<noteq> Learner"

text \<open>\<open>configurations.front ()\<close> and \<open>configurations.back ()\<close>.\<close>

definition configurations_front :: "Aft \<Rightarrow> Configuration" where
  "configurations_front a =
     (if configurations a = [] then env_empty_config (env a) else hd (configurations a))"

definition configurations_back :: "Aft \<Rightarrow> Configuration" where
  "configurations_back a =
     (if configurations a = [] then env_empty_config (env a) else last (configurations a))"

record ConsensusDetails =
  cd_configs :: "Configuration list"
  cd_acks :: "(NodeId \<times> Index \<times> nat) list"
  cd_membership_state :: MembershipState
  cd_leadership_state :: "LeadershipState option"
  cd_retirement_phase :: "RetirementPhase option"
  cd_learners :: "(NodeId \<rightharpoonup> Index) option"
  cd_reconfiguration_type :: "ReconfigurationType option"
  cd_primary_id :: "NodeId option"
  cd_current_view :: Term
  cd_ticking :: bool

definition get_details :: "Aft \<Rightarrow> ConsensusDetails" where
  "get_details a =
     \<lparr>cd_configs = configurations a,
      cd_acks = map (\<lambda>(k, v). (k, match_idx v, last_ack_timeout v)) (nodes a),
      cd_membership_state = membership_state a,
      cd_leadership_state = leadership_state a,
      cd_retirement_phase = (if is_retired a then retirement_phase a else None),
      cd_learners =
        (if reconfiguration_type a = TWO_TRANSACTION then Some (learner_nodes a) else None),
      cd_reconfiguration_type = Some (reconfiguration_type a),
      cd_primary_id = leader_id a,
      cd_current_view = current_view a,
      cd_ticking = ticking a\<rparr>"

section \<open>Construction and small updates\<close>

record Settings =
  set_type :: ConsensusType
  set_message_timeout :: nat
  set_election_timeout :: nat

text \<open>\<open>view_history.update\<close> and \<open>initialise\<close> on the node's own history.\<close>

definition with_history :: "(ViewHistory, unit) exec \<Rightarrow> Aft \<Rightarrow> (Aft, unit) exec" where
  "with_history m a =
     (case m of
        Done vh u \<Rightarrow> ok (a\<lparr>view_history := vh\<rparr>)
      | Throw vh e \<Rightarrow> Throw (a\<lparr>view_history := vh\<rparr>) e
      | Diverge vh \<Rightarrow> Diverge (a\<lparr>view_history := vh\<rparr>))"

definition make_aft ::
  "Settings \<Rightarrow> State \<Rightarrow> Environment \<Rightarrow> bool \<Rightarrow> MembershipState \<Rightarrow> ReconfigurationType
   \<Rightarrow> (Aft, unit) exec"
where
  "make_aft settings st e public_only0 initial_membership_state reconf =
     (let a = State.extend st
        (Aft.fields (set_type settings) None None {} None initial_membership_state None 0 0 False
           False (set_message_timeout settings) (set_election_timeout settings) False [] []
           Map.empty Map.empty reconf False Map.empty None None 0 0 20 0 [] public_only0 e [])
      in if consensus_type a = BFT
         then seq (with_history (vh_update 1 starting_view_change (view_history a)) a)
           (\<lambda>a. let a = a\<lparr>require_identity_for_reconfig := True, ticking := True\<rparr> in
              if env_resharing_tracker (env a) = None
              then Throw a (LogicError ''missing identity tracker'') else ok a)
         else ok a)"

definition enable_all_domains :: "Aft \<Rightarrow> Aft" where
  "enable_all_domains a = a\<lparr>public_only := False\<rparr>"

definition update_parameters :: "ReconfigurationType \<Rightarrow> Aft \<Rightarrow> Aft" where
  "update_parameters params a = a\<lparr>reconfiguration_type := params\<rparr>"

definition initialise_view_history :: "ViewHistory \<Rightarrow> Aft \<Rightarrow> (Aft, unit) exec" where
  "initialise_view_history terms a = with_history (vh_initialise terms) a"

definition start_ticking :: "Aft \<Rightarrow> Aft" where
  "start_ticking a = a\<lparr>ticking := True, timeout_elapsed := 0\<rparr>"

definition start_ticking_if_necessary :: "Aft \<Rightarrow> Aft" where
  "start_ticking_if_necessary a =
     (if \<not> ticking a \<and> is_self_in_latest_config a then start_ticking a else a)"

definition clear_orc_sets :: "Aft \<Rightarrow> Aft" where
  "clear_orc_sets a = a\<lparr>orc_sets := (\<lambda>r. map_option (\<lambda>_. {}) (orc_sets a r))\<rparr>"

definition reset_last_ack_timeouts :: "Aft \<Rightarrow> Aft" where
  "reset_last_ack_timeouts a =
     a\<lparr>nodes := al_map (\<lambda>n. n\<lparr>last_ack_timeout := 0\<rparr>) (nodes a)\<rparr>"

text \<open>
  \<open>distrib\<close> draws from \<open>0 .. election_timeout / 2\<close>; the draw is a value of the environment
  brought into that range.
\<close>

definition restart_election_timeout :: "Aft \<Rightarrow> Aft" where
  "restart_election_timeout a =
     (let r = env_random (env a) (trace a) mod (election_timeout a div 2 + 1)
      in emit DrawRandom (a\<lparr>timeout_elapsed := r\<rparr>))"

definition become_retiring :: "Aft \<Rightarrow> Aft" where
  "become_retiring a = a\<lparr>membership_state := RetirementInitiated\<rparr>"

definition become_retired :: "Index \<Rightarrow> RetirementPhase \<Rightarrow> Aft \<Rightarrow> Aft" where
  "become_retired idx phase a =
     (let a = (case phase of
          Committed \<Rightarrow> a
        | Ordered \<Rightarrow> a\<lparr>retirement_idx := Some idx\<rparr>
        | Signed \<Rightarrow> a\<lparr>retirement_committable_idx := Some idx\<rparr>
        | Completed \<Rightarrow> a\<lparr>leader_id := None, leadership_state := None\<rparr>)
      in a\<lparr>membership_state := Retired, retirement_phase := Some phase\<rparr>)"

end
