(* ===== verification/Aft_Send.thy ===== *)
theory Aft_Send
  imports Aft_State
begin

text \<open>
  The sending half of \<open>aft::Aft\<close>: batch sizing, the search for a matching index, append
  entries, vote messages and responses. Every send may fail, as the channel decides.
\<close>

section \<open>Batch size\<close>

definition append_entries_size_limit :: nat where
  "append_entries_size_limit = 20000"

definition batch_window_size :: int where
  "batch_window_size = 100"

text \<open>Conversion to a 32-bit \<open>int\<close>, and division truncated towards zero.\<close>

definition int32 :: "int \<Rightarrow> int" where
  "int32 x = sint (word_of_int x :: 32 word)"

definition cdiv :: "int \<Rightarrow> int \<Rightarrow> int" where
  "cdiv x y = sgn x * sgn y * (\<bar>x\<bar> div \<bar>y\<bar>)"

definition update_batch_size :: "Aft \<Rightarrow> Aft" where
  "update_batch_size a =
     (let avg_entry_size = (if entry_count a = 0 then append_entries_size_limit
                            else entry_size_not_limited a div entry_count a);
          batch_size = (if avg_entry_size = 0 then append_entries_size_limit div 2
                        else append_entries_size_limit div avg_entry_size);
          batch_avg = cdiv (batch_window_sum a) batch_window_size;
          sum = int32 (batch_window_sum a + (int batch_size - batch_avg))
      in a\<lparr>batch_window_sum := sum,
           entries_batch_size := nat (max (cdiv sum batch_window_size) 1)\<rparr>)"

section \<open>Matching index\<close>

text \<open>\<open>None\<close> is a search that does not end.\<close>

definition find_highest_possible_match :: "TxID \<Rightarrow> Aft \<Rightarrow> Index option" where
  "find_highest_possible_match tx_id a =
     (let probe_index = min (tx_seqno tx_id) (last_idx a)
      in match_search (vh_view_at (view_history a)) (vh_start_of_view (view_history a))
           (Suc probe_index) (tx_view tx_id) probe_index)"

section \<open>Sending\<close>

text \<open>\<open>channels->send_authenticated\<close>: the message is recorded with the result.\<close>

definition send_ok :: "NodeId \<Rightarrow> RaftMsg \<Rightarrow> Aft \<Rightarrow> bool" where
  "send_ok to m a = env_send_authenticated (env a) (trace a) to m"

definition send_authenticated :: "NodeId \<Rightarrow> RaftMsg \<Rightarrow> Aft \<Rightarrow> Aft" where
  "send_authenticated to m a = emit (Send to m (send_ok to m a)) a"

definition calculate_end_index :: "Aft \<Rightarrow> Index \<Rightarrow> Index" where
  "calculate_end_index a start =
     (let term_of_ae = vh_view_at (view_history a) start;
          index_at_end_of_term = vh_end_of_view (view_history a) term_of_ae;
          max_idx = (if index_at_end_of_term \<noteq> NoVersion then index_at_end_of_term else last_idx a)
      in min (start + entries_batch_size a) max_idx)"

definition make_append_entries :: "Index \<Rightarrow> Index \<Rightarrow> Aft \<Rightarrow> AppendEntries" where
  "make_append_entries prev_idx end_idx a =
     \<lparr>ae_idx = end_idx, ae_prev_idx = prev_idx, ae_term = current_view a,
      ae_prev_term = get_term_internal prev_idx a, ae_leader_commit_idx = commit_idx a,
      ae_term_of_idx = get_term_internal end_idx a,
      ae_contains_new_view = (new_view_idx a > prev_idx \<and> new_view_idx a \<le> end_idx)\<rparr>"

lemma make_append_entries_simps [simp]:
  "ae_idx (make_append_entries p e a) = e"
  "ae_prev_idx (make_append_entries p e a) = p"
  "ae_term (make_append_entries p e a) = current_view a"
  "ae_prev_term (make_append_entries p e a) = get_term_internal p a"
  "ae_leader_commit_idx (make_append_entries p e a) = commit_idx a"
  "ae_term_of_idx (make_append_entries p e a) = get_term_internal e a"
  by (simp_all add: make_append_entries_def)

definition phase_gt_Signed :: "RetirementPhase option \<Rightarrow> bool" where
  "phase_gt_Signed ph = (case ph of None \<Rightarrow> False | Some p \<Rightarrow> phase_num p > phase_num Signed)"

definition send_append_entries_range :: "NodeId \<Rightarrow> Index \<Rightarrow> Index \<Rightarrow> Aft \<Rightarrow> (Aft, unit) exec" where
  "send_append_entries_range to start_idx end_idx a =
     (if is_retired a \<and> phase_gt_Signed (retirement_phase a) \<and> start_idx \<ge> end_idx
      then ok a
      else
        let m = MsgAppendEntries (make_append_entries (dec64 start_idx) end_idx a) in
        if to \<notin> set (al_keys (nodes a)) then Throw a OutOfRange
        else if \<not> send_ok to m a then ok (send_authenticated to m a)
        else ok ((send_authenticated to m a)
               \<lparr>nodes := al_update to (\<lambda>n. n\<lparr>sent_idx := end_idx\<rparr>) (nodes a)\<rparr>))"

text \<open>
  The \<open>do .. while\<close> loop, with fuel: it ends when a range reaches \<open>last_idx\<close>. Every
  iteration before that moves \<open>start_idx\<close> forward, so that \<open>last_idx + 3\<close> is enough
  whenever the view history is well formed (\<open>send_append_entries_returns\<close>).
\<close>

fun send_append_entries_loop :: "nat \<Rightarrow> NodeId \<Rightarrow> Index \<Rightarrow> Aft \<Rightarrow> (Aft, unit) exec" where
  "send_append_entries_loop 0 to start_idx a = Diverge a"
| "send_append_entries_loop (Suc n) to start_idx a =
     (let end_idx = calculate_end_index a start_idx in
      seq (send_append_entries_range to start_idx end_idx a)
        (\<lambda>a. if end_idx \<noteq> last_idx a
             then send_append_entries_loop n to (min (end_idx + 1) (last_idx a)) a
             else ok a))"

definition send_append_entries :: "NodeId \<Rightarrow> Index \<Rightarrow> Aft \<Rightarrow> (Aft, unit) exec" where
  "send_append_entries to start_idx a = send_append_entries_loop (last_idx a + 3) to start_idx a"

text \<open>\<open>for (it : nodes) send_append_entries (it.first, it.second.sent_idx + 1)\<close>\<close>

definition sent_idx_of :: "NodeId \<Rightarrow> Aft \<Rightarrow> Index" where
  "sent_idx_of k a = (case map_of (nodes a) k of None \<Rightarrow> 0 | Some n \<Rightarrow> sent_idx n)"

definition send_append_entries_to_all :: "Aft \<Rightarrow> (Aft, unit) exec" where
  "send_append_entries_to_all a =
     for_each (\<lambda>k a. send_append_entries k (sent_idx_of k a + 1) a) (al_keys (nodes a)) a"

definition send_append_entries_response ::
  "NodeId \<Rightarrow> AppendEntriesResponseType \<Rightarrow> TxID option \<Rightarrow> Aft \<Rightarrow> (Aft, unit) exec"
where
  "send_append_entries_response to answer rejected a =
     (let a = (if answer = AE_REQUIRE_EVIDENCE then a\<lparr>requested_evidence_from := Some to\<rparr> else a);
          reply = (\<lambda>t i. ok (send_authenticated to (MsgAppendEntriesResponse
             \<lparr>aer_term = t, aer_last_log_idx = i, aer_success = answer\<rparr>) a))
      in case (if consensus_type a \<noteq> BFT \<and> answer = AE_FAIL then rejected else None) of
           None \<Rightarrow> reply (current_view a) (last_idx a)
         | Some tx \<Rightarrow>
             (case find_highest_possible_match tx a of
                None \<Rightarrow> Diverge a
              | Some i \<Rightarrow> reply (get_term_internal i a) i))"

definition make_request_vote :: "Aft \<Rightarrow> RequestVote" where
  "make_request_vote a =
     \<lparr>rv_term = current_view a, rv_last_committable_idx = last_committable_index a,
      rv_term_of_last_committable_idx = get_term_internal (last_committable_index a) a\<rparr>"

definition send_request_vote :: "NodeId \<Rightarrow> Aft \<Rightarrow> Aft" where
  "send_request_vote to a = send_authenticated to (MsgRequestVote (make_request_vote a)) a"

definition send_request_vote_response :: "NodeId \<Rightarrow> bool \<Rightarrow> Aft \<Rightarrow> Aft" where
  "send_request_vote_response to answer a =
     send_authenticated to (MsgRequestVoteResponse
       \<lparr>rvr_term = current_view a, rvr_vote_granted = answer\<rparr>) a"

section \<open>What sending leaves alone\<close>

text \<open>
  \<open>same_but_sends a0 a\<close>: \<open>a\<close> is \<open>a0\<close> except for the trace and the per-node indices.
\<close>

fun is_send :: "event \<Rightarrow> bool" where
  "is_send (Send k m b) = True"
| "is_send e = False"

definition same_but_sends :: "Aft \<Rightarrow> Aft \<Rightarrow> bool" where
  "same_but_sends a0 a \<longleftrightarrow>
     (\<exists>ns es. a = a0\<lparr>nodes := ns, trace := trace a0 @ es\<rparr> \<and> al_keys ns = al_keys (nodes a0)
        \<and> (\<forall>e\<in>set es. is_send e))"

lemma same_but_sendsI:
  "a = a0\<lparr>nodes := ns, trace := trace a0 @ es\<rparr> \<Longrightarrow> al_keys ns = al_keys (nodes a0)
   \<Longrightarrow> \<forall>e\<in>set es. is_send e \<Longrightarrow> same_but_sends a0 a"
  by (auto simp: same_but_sends_def)

lemma same_but_sends_refl: "same_but_sends a a"
  by (rule same_but_sendsI [where ns = "nodes a" and es = "[]"]) simp_all

lemma same_but_sends_trans:
  assumes "same_but_sends a b" and "same_but_sends b c"
  shows "same_but_sends a c"
proof -
  from assms obtain ns es ns' es' where
    "b = a\<lparr>nodes := ns, trace := trace a @ es\<rparr>" "al_keys ns = al_keys (nodes a)"
    "c = b\<lparr>nodes := ns', trace := trace b @ es'\<rparr>" "al_keys ns' = al_keys (nodes b)"
    "\<forall>e\<in>set es. is_send e" "\<forall>e\<in>set es'. is_send e"
    by (auto simp: same_but_sends_def)
  then show ?thesis by (intro same_but_sendsI [where ns = ns' and es = "es @ es'"]) auto
qed

lemma same_but_sendsD:
  assumes "same_but_sends a0 a"
  shows "my_node_id a = my_node_id a0" "current_view a = current_view a0"
    "last_idx a = last_idx a0" "commit_idx a = commit_idx a0"
    "cft_watermark_idx a = cft_watermark_idx a0" "view_history a = view_history a0"
    "new_view_idx a = new_view_idx a0" "voted_for a = voted_for a0"
    "leader_id a = leader_id a0" "votes_for_me a = votes_for_me a0"
    "leadership_state a = leadership_state a0" "membership_state a = membership_state a0"
    "retirement_phase a = retirement_phase a0" "consensus_type a = consensus_type a0"
    "configurations a = configurations a0" "reconfiguration_type a = reconfiguration_type a0"
    "require_identity_for_reconfig a = require_identity_for_reconfig a0"
    "retirement_idx a = retirement_idx a0"
    "retirement_committable_idx a = retirement_committable_idx a0"
    "committable_indices a = committable_indices a0"
    "entries_batch_size a = entries_batch_size a0" "batch_window_sum a = batch_window_sum a0"
    "election_index a = election_index a0" "ticking a = ticking a0" "env a = env a0"
    "election_timeout a = election_timeout a0" "timeout_elapsed a = timeout_elapsed a0"
    "is_new_follower a = is_new_follower a0" "should_sign a = should_sign a0"
    "al_keys (nodes a) = al_keys (nodes a0)"
  using assms by (auto simp: same_but_sends_def)

lemma same_but_sends_authenticated: "same_but_sends a (send_authenticated to m a)"
  by (rule same_but_sendsI [where ns = "nodes a" and es = "[Send to m (send_ok to m a)]"])
    (simp_all add: send_authenticated_def emit_def)

lemma same_but_sends_range: "same_but_sends a (final (send_append_entries_range to s e a))"
proof -
  let ?m = "MsgAppendEntries (make_append_entries (dec64 s) e a)"
  have "same_but_sends a ((send_authenticated to ?m a)
      \<lparr>nodes := al_update to (\<lambda>n. n\<lparr>sent_idx := e\<rparr>) (nodes a)\<rparr>)"
    by (rule same_but_sendsI [where ns = "al_update to (\<lambda>n. n\<lparr>sent_idx := e\<rparr>) (nodes a)"
          and es = "[Send to ?m (send_ok to ?m a)]"])
      (simp_all add: send_authenticated_def emit_def)
  then show ?thesis
    by (simp add: send_append_entries_range_def Let_def same_but_sends_refl
        same_but_sends_authenticated)
qed

lemma same_but_sends_loop: "same_but_sends a (final (send_append_entries_loop n to s a))"
proof (induction n arbitrary: s a)
  case 0
  then show ?case by (simp add: same_but_sends_refl)
next
  case (Suc n)
  show ?case
    unfolding send_append_entries_loop.simps Let_def
  proof (rule final_seqI)
    show "same_but_sends a (final (send_append_entries_range to s (calculate_end_index a s) a))"
      by (rule same_but_sends_range)
  next
    fix b assume b: "same_but_sends a b"
    show "same_but_sends a (final
        (if calculate_end_index a s \<noteq> last_idx b
         then send_append_entries_loop n to (min (calculate_end_index a s + 1) (last_idx b)) b
         else ok b))"
      using b by (auto intro: same_but_sends_trans Suc.IH)
  qed
qed

lemma same_but_sends_entries: "same_but_sends a (final (send_append_entries to s a))"
  by (simp add: send_append_entries_def same_but_sends_loop)

lemma same_but_sends_to_all: "same_but_sends a (final (send_append_entries_to_all a))"
  unfolding send_append_entries_to_all_def
  by (rule final_for_eachI)
    (auto intro: same_but_sends_refl same_but_sends_trans same_but_sends_entries)

text \<open>Sent messages are only ever added to the trace.\<close>

lemma same_but_sends_request_vote: "same_but_sends a (send_request_vote to a)"
  by (simp add: send_request_vote_def same_but_sends_authenticated)

lemma same_but_sends_request_vote_response:
  "same_but_sends a (send_request_vote_response to g a)"
  by (simp add: send_request_vote_response_def same_but_sends_authenticated)

section \<open>Batch bounds\<close>

definition batch_inv :: "Aft \<Rightarrow> bool" where
  "batch_inv a \<longleftrightarrow> 0 \<le> batch_window_sum a \<and> batch_window_sum a \<le> 2000099
     \<and> 1 \<le> entries_batch_size a \<and> entries_batch_size a \<le> 20000"

lemma int32_id: "0 \<le> x \<Longrightarrow> x < 2 ^ 31 \<Longrightarrow> int32 x = x"
  by (simp add: int32_def signed_of_int signed_take_bit_int_eq_self)

lemma cdiv_nonneg: "0 \<le> x \<Longrightarrow> cdiv x batch_window_size = x div 100"
  by (cases "x = 0") (simp_all add: cdiv_def batch_window_size_def)

lemma batch_inv_update: 
  assumes "batch_inv a"
  shows "batch_inv (update_batch_size a)"
proof -
  define avg where "avg = (if entry_count a = 0 then append_entries_size_limit
      else entry_size_not_limited a div entry_count a)"
  define b where "b = (if avg = 0 then append_entries_size_limit div 2
      else append_entries_size_limit div avg)"
  define s where "s = batch_window_sum a"
  have "b \<le> append_entries_size_limit" by (simp add: b_def)
  then have b: "int b \<le> 20000" by (simp add: append_entries_size_limit_def)
  have s: "0 \<le> s" "s \<le> 2000099" using assms by (simp_all add: batch_inv_def s_def)
  have r: "0 \<le> s + (int b - s div 100)" "s + (int b - s div 100) \<le> 2000099"
    using b s by linarith+
  have eq: "int32 (s + (int b - cdiv s batch_window_size)) = s + (int b - s div 100)"
    using r s by (simp add: cdiv_nonneg int32_id)
  have "update_batch_size a = a\<lparr>batch_window_sum := s + (int b - s div 100),
      entries_batch_size := nat (max ((s + (int b - s div 100)) div 100) 1)\<rparr>"
    using r eq by (simp add: update_batch_size_def Let_def flip: avg_def b_def s_def)
      (simp add: cdiv_nonneg)
  moreover have "(s + (int b - s div 100)) div 100 \<le> 20000"
    using r(2) by linarith
  ultimately show ?thesis using r by (simp add: batch_inv_def nat_le_iff Suc_le_eq)
qed

section \<open>Ranges\<close>

text \<open>The log of a node: the views start in order, inside the log.\<close>

definition log_wf :: "Aft \<Rightarrow> bool" where
  "log_wf a \<longleftrightarrow>
     vh_inv (view_history a) \<and> (\<forall>v\<in>set (view_history a). v \<le> max 1 (last_idx a))"

lemma find_highest_possible_match_spec:
  assumes "vh_inv (view_history a)"
  shows "\<exists>n. find_highest_possible_match tx a = Some n
    \<and> n \<le> min (tx_seqno tx) (last_idx a) \<and> vh_view_at (view_history a) n \<le> tx_view tx
    \<and> (\<forall>m. n < m \<longrightarrow> m \<le> min (tx_seqno tx) (last_idx a)
         \<longrightarrow> tx_view tx < vh_view_at (view_history a) m)"
  unfolding find_highest_possible_match_def Let_def
  by (rule vh_log.match_search_spec) (simp_all add: assms)

lemma calculate_end_index_past:
  assumes "log_wf a" and "last_idx a < start"
  shows "calculate_end_index a start = last_idx a"
proof -
  let ?vs = "view_history a"
  have "vh_view_at ?vs start = length ?vs"
    using assms by (intro vh_view_at_last) (auto simp: log_wf_def dest!: bspec [OF _ last_in_set])
  then show ?thesis
    using assms by (simp add: calculate_end_index_def Let_def vh_end_of_last_view)
qed

lemma calculate_end_index_in:
  assumes "log_wf a" and "start \<le> last_idx a"
  shows "start \<le> calculate_end_index a start" and "calculate_end_index a start \<le> last_idx a"
proof -
  let ?vs = "view_history a" and ?v = "vh_view_at (view_history a) start"
  have inv: "vh_inv ?vs" using assms(1) by (simp add: log_wf_def)
  consider (mid) "?v \<noteq> 0" "?v < length ?vs" | (last) "length ?vs \<le> ?v \<or> ?v = 0"
    by linarith
  then have "start \<le> calculate_end_index a start \<and> calculate_end_index a start \<le> last_idx a"
  proof cases
    case mid
    note e = vh_end_of_view_at [OF inv mid]
    have "0 < start" using mid(1) inv by (cases start) simp_all
    moreover have "?vs ! ?v \<le> max 1 (last_idx a)"
      using assms(1) mid(2) by (simp add: log_wf_def)
    ultimately show ?thesis
      using e assms(2) by (auto simp: calculate_end_index_def Let_def)
  next
    case last
    with assms(2) show ?thesis
      by (simp add: calculate_end_index_def Let_def vh_end_of_last_view)
  qed
  then show "start \<le> calculate_end_index a start" "calculate_end_index a start \<le> last_idx a"
    by auto
qed

lemma calculate_end_index_one_view:
  assumes "log_wf a" and "vh_view_at (view_history a) start \<noteq> 0"
    and "start \<le> i" and "i \<le> calculate_end_index a start"
  shows "vh_view_at (view_history a) i = vh_view_at (view_history a) start"
proof -
  let ?vs = "view_history a" and ?v = "vh_view_at (view_history a) start"
  have inv: "vh_inv ?vs" using assms(1) by (simp add: log_wf_def)
  show ?thesis
  proof (cases "?v < length ?vs")
    case True
    note e = vh_end_of_view_at [OF inv assms(2) True]
    have "0 < start" using assms(2) inv by (cases start) simp_all
    with assms(4) e have "i < ?vs ! ?v"
      by (auto simp: calculate_end_index_def Let_def)
    with inv True assms(3) show ?thesis by (intro vh_view_at_before)
  next
    case False
    then show ?thesis
      using vh_view_at_mono [OF inv assms(3)] vh_view_at_le_length [of ?vs i]
        vh_view_at_le_length [of ?vs start] by linarith
  qed
qed

text \<open>\<open>send_append_entries\<close> returns: enough fuel was given.\<close>

lemma log_wf_same_but_sends: "same_but_sends a b \<Longrightarrow> log_wf b = log_wf a"
  by (simp add: log_wf_def same_but_sendsD)

lemma calculate_end_index_same_but_sends:
  "same_but_sends a b \<Longrightarrow> calculate_end_index b s = calculate_end_index a s"
  by (simp add: calculate_end_index_def same_but_sendsD Let_def)

lemma send_append_entries_range_returns:
  "to \<in> set (al_keys (nodes a)) \<Longrightarrow> returns (send_append_entries_range to s e a)"
  by (simp add: send_append_entries_range_def Let_def)

lemma send_append_entries_loop_returns:
  assumes "log_wf a" and "to \<in> set (al_keys (nodes a))" and "last_idx a + 1 < n + start" and "0 < n"
  shows "returns (send_append_entries_loop n to start a)"
  using assms
proof (induction n arbitrary: start a)
  case 0
  then show ?case by simp
next
  case (Suc n)
  let ?e = "calculate_end_index a start"
  let ?b = "final (send_append_entries_range to start ?e a)"
  have sbs: "same_but_sends a ?b" by (rule same_but_sends_range)
  have ret: "returns (send_append_entries_range to start ?e a)"
    using Suc.prems(2) by (rule send_append_entries_range_returns)
  have "returns (send_append_entries_loop n to (min (?e + 1) (last_idx ?b)) ?b)"
    if ne: "?e \<noteq> last_idx ?b"
  proof -
    have "last_idx ?b = last_idx a" using sbs by (rule same_but_sendsD)
    with ne Suc.prems(1) have "start \<le> last_idx a"
      using calculate_end_index_past [of a start] by fastforce
    with Suc.prems(1) ne sbs have "start \<le> ?e" "?e < last_idx a"
      using calculate_end_index_in [of a start] by (simp_all add: same_but_sendsD order_less_le)
    then show ?thesis
      using Suc.prems sbs by (intro Suc.IH)
        (auto simp: log_wf_same_but_sends same_but_sendsD)
  qed
  with ret show ?case by (simp add: returns_seq Let_def)
qed

lemma send_append_entries_returns:
  assumes "log_wf a" and "to \<in> set (al_keys (nodes a))"
  shows "returns (send_append_entries to start a)"
  unfolding send_append_entries_def
  using assms by (intro send_append_entries_loop_returns) simp_all

lemma send_append_entries_to_all_returns:
  assumes "log_wf a"
  shows "returns (send_append_entries_to_all a)"
proof -
  have "returns (for_each (\<lambda>k a. send_append_entries k (sent_idx_of k a + 1) a) (al_keys (nodes a)) a)
    \<and> same_but_sends a
        (final (for_each (\<lambda>k a. send_append_entries k (sent_idx_of k a + 1) a) (al_keys (nodes a)) a))"
  proof (rule returns_for_eachI)
    fix k b assume k: "k \<in> set (al_keys (nodes a))" and b: "same_but_sends a b"
    have "returns (send_append_entries k (sent_idx_of k b + 1) b)"
      using k b assms by (intro send_append_entries_returns)
        (simp_all add: log_wf_same_but_sends same_but_sendsD)
    then show "returns (send_append_entries k (sent_idx_of k b + 1) b)
      \<and> same_but_sends a (final (send_append_entries k (sent_idx_of k b + 1) b))"
      using b by (auto intro: same_but_sends_trans same_but_sends_entries)
  qed (rule same_but_sends_refl)
  then show ?thesis by (simp add: send_append_entries_to_all_def)
qed

text \<open>
  What is sent: consecutive messages, each starting where the one before ended, the last one
  ending at \<open>last_idx\<close>.
\<close>

fun ae_covers :: "Index \<Rightarrow> Index \<Rightarrow> AppendEntries list \<Rightarrow> bool" where
  "ae_covers prev tip [] \<longleftrightarrow> False"
| "ae_covers prev tip [m] \<longleftrightarrow> ae_prev_idx m = prev \<and> ae_idx m = tip"
| "ae_covers prev tip (m # ms) \<longleftrightarrow>
     ae_prev_idx m = prev \<and> prev < ae_idx m \<and> ae_covers (ae_idx m) tip ms"

definition well_formed_batch :: "Aft \<Rightarrow> AppendEntries \<Rightarrow> bool" where
  "well_formed_batch a m \<longleftrightarrow>
     m = make_append_entries (ae_prev_idx m) (ae_idx m) a
     \<and> ae_idx m \<le> ae_prev_idx m + 1 + entries_batch_size a
     \<and> (ae_prev_idx m < ae_idx m \<longrightarrow> vh_view_at (view_history a) (ae_prev_idx m + 1) \<noteq> 0 \<longrightarrow>
          (\<forall>i\<in>{ae_prev_idx m + 1 .. ae_idx m}.
             vh_view_at (view_history a) i = ae_term_of_idx m))"

lemma well_formed_batch_same_but_sends:
  "same_but_sends a b \<Longrightarrow> well_formed_batch b m = well_formed_batch a m"
  by (simp add: well_formed_batch_def make_append_entries_def get_term_internal_def same_but_sendsD)

lemma well_formed_batch_range:
  assumes "log_wf a" and "0 < start"
  shows "well_formed_batch a (make_append_entries (start - 1) (calculate_end_index a start) a)"
proof -
  let ?e = "calculate_end_index a start" and ?at = "vh_view_at (view_history a)"
  have e: "?e \<le> start + entries_batch_size a"
    by (simp add: calculate_end_index_def Let_def)
  have one: "?at i = (if last_idx a < ?e then VIEW_UNKNOWN else ?at ?e)"
    if "start - 1 < ?e" "?at start \<noteq> 0" "i \<in> {start .. ?e}" for i
  proof -
    have "start \<le> last_idx a"
      using that(1) assms calculate_end_index_past [of a start] by fastforce
    then have "?e \<le> last_idx a" using assms(1) by (simp add: calculate_end_index_in)
    moreover have "?at i = ?at start"
      using assms(1) that(2,3) by (intro calculate_end_index_one_view) simp_all
    moreover have "?at ?e = ?at start"
      using assms(1) that(2,3) by (intro calculate_end_index_one_view) simp_all
    ultimately show ?thesis by simp
  qed
  obtain p where p: "start = Suc p" using assms(2) by (cases start) simp_all
  have "\<forall>i\<in>{start .. ?e}. ?at i = get_term_internal ?e a" if "p < ?e" "?at start \<noteq> 0"
  proof
    fix i assume "i \<in> {start .. ?e}"
    moreover have "start - 1 < ?e" using that(1) p by simp
    ultimately show "?at i = get_term_internal ?e a"
      unfolding get_term_internal_def using that(2) by (intro one)
  qed
  with p e show ?thesis by (intro well_formed_batch_def [THEN iffD2] conjI impI) simp_all
qed

definition sends_of :: "NodeId \<Rightarrow> (AppendEntries \<times> bool) list \<Rightarrow> event list" where
  "sends_of to ms = map (\<lambda>(m, sent). Send to (MsgAppendEntries m) sent) ms"

lemma trace_send_append_entries_range:
  assumes "to \<in> set (al_keys (nodes a))" and "\<not> (is_retired a \<and> phase_gt_Signed (retirement_phase a))"
    and "0 < start"
  shows "\<exists>sent. trace (final (send_append_entries_range to start e a))
    = trace a @ sends_of to [(make_append_entries (start - 1) e a, sent)]"
  using assms by (auto simp: send_append_entries_range_def Let_def send_authenticated_def
      sends_of_def dec64_pos)

lemma trace_send_append_entries_loop:
  assumes "log_wf a" and "to \<in> set (al_keys (nodes a))" and "0 < start"
    and "\<not> (is_retired a \<and> phase_gt_Signed (retirement_phase a))"
    and "last_idx a + 1 < n + start" and "0 < n"
  shows "\<exists>ms. trace (final (send_append_entries_loop n to start a)) = trace a @ sends_of to ms
    \<and> ae_covers (start - 1) (last_idx a) (map fst ms) \<and> (\<forall>m\<in>set ms. well_formed_batch a (fst m))"
  using assms
proof (induction n arbitrary: start a)
  case 0
  then show ?case by simp
next
  case (Suc n)
  let ?e = "calculate_end_index a start"
  let ?b = "final (send_append_entries_range to start ?e a)"
  let ?m = "make_append_entries (start - 1) ?e a"
  have sbs: "same_but_sends a ?b" by (rule same_but_sends_range)
  have ret: "returns (send_append_entries_range to start ?e a)"
    using Suc.prems(2) by (rule send_append_entries_range_returns)
  obtain sent where tr: "trace ?b = trace a @ sends_of to [(?m, sent)]"
    using trace_send_append_entries_range [OF Suc.prems(2,4,3)] by blast
  have wf: "well_formed_batch a ?m" using Suc.prems(1,3) by (rule well_formed_batch_range)
  have step: "send_append_entries_loop (Suc n) to start a =
      (if ?e \<noteq> last_idx a then send_append_entries_loop n to (min (?e + 1) (last_idx a)) ?b else ok ?b)"
    using ret sbs by (simp add: seq_returns same_but_sendsD Let_def)
  show ?case
  proof (cases "?e = last_idx a")
    case True
    with tr wf show ?thesis
      by (intro exI [of _ "[(?m, sent)]"]) (simp add: step del: send_append_entries_loop.simps)
  next
    case False
    with Suc.prems(1) have "start \<le> last_idx a"
      using calculate_end_index_past [of a start] by fastforce
    with Suc.prems(1) False have e: "start \<le> ?e" "?e < last_idx a"
      using calculate_end_index_in [of a start] by (simp_all add: order_less_le)
    have "\<exists>ms. trace (final (send_append_entries_loop n to (?e + 1) ?b)) = trace ?b @ sends_of to ms
      \<and> ae_covers (?e + 1 - 1) (last_idx ?b) (map fst ms)
      \<and> (\<forall>m\<in>set ms. well_formed_batch ?b (fst m))"
      using Suc.prems e sbs by (intro Suc.IH)
        (auto simp: log_wf_same_but_sends same_but_sendsD is_retired_def)
    then obtain ms where ms: "trace (final (send_append_entries_loop n to (?e + 1) ?b))
        = trace ?b @ sends_of to ms"
      "ae_covers ?e (last_idx a) (map fst ms)" "\<forall>m\<in>set ms. well_formed_batch a (fst m)"
      using sbs by (auto simp: same_but_sendsD well_formed_batch_same_but_sends)
    moreover have "ae_covers (start - 1) (last_idx a) (?m # map fst ms)"
      using ms(2) e Suc.prems(3) by (cases ms) auto
    ultimately show ?thesis
      using tr wf False e by (intro exI [of _ "(?m, sent) # ms"])
        (simp add: step sends_of_def min_def del: send_append_entries_loop.simps)
  qed
qed

end
