(* ===== verification/Aft_Commit.thy ===== *)
theory Aft_Commit
  imports Aft_Send
begin

text \<open>
  Commit, rollback and reconfiguration of \<open>aft::Aft\<close>: the node states follow the active
  configurations, committing an index retires configurations, rolling back drops a suffix of
  the log and everything recorded in it.
\<close>

section \<open>Node states\<close>

definition active_nodes :: "Configuration list \<Rightarrow> Nodes" where
  "active_nodes confs =
     fold (\<lambda>conf active. fold (\<lambda>(k, info) active. smap_emplace k info active) (cfg_nodes conf) active)
       confs []"

definition add_node_state :: "NodeId \<times> NodeInfo \<Rightarrow> Aft \<Rightarrow> (Aft, unit) exec" where
  "add_node_state = (\<lambda>(k, info) a.
     if k = my_node_id a \<or> k \<in> set (al_keys (nodes a)) then ok a
     else
       let a = (if env_have_channel (env a) (trace a) k then a
                else emit (AssociateAddress k (hostname info) (port info)) a);
           index = last_idx a + 1;
           a = a\<lparr>nodes := al_emplace k \<lparr>node_info = info, sent_idx = index, match_idx = 0,
                                        last_ack_timeout = 0\<rparr> (nodes a)\<rparr>
       in if leadership_state a = Some Leader then send_append_entries k index a else ok a)"

definition create_and_remove_node_state :: "Aft \<Rightarrow> (Aft, unit) exec" where
  "create_and_remove_node_state a =
     (let active = active_nodes (configurations a);
          a = a\<lparr>nodes := filter (\<lambda>(k, n). k \<in> set (al_keys active)) (nodes a)\<rparr>
      in for_each add_node_state active a)"

section \<open>Rollback\<close>

definition rollback_retirement :: "Index \<Rightarrow> Aft \<Rightarrow> (Aft, unit) exec" where
  "rollback_retirement idx a =
     seq (if membership_state a = Retired \<and> retirement_phase a = Some Signed
          then case retirement_committable_idx a of
              None \<Rightarrow> Throw a BadOptionalAccess
            | Some c \<Rightarrow>
                if c > idx
                then ok (a\<lparr>retirement_committable_idx := None, retirement_phase := Some Ordered\<rparr>)
                else ok a
          else ok a)
       (\<lambda>a. if membership_state a = Retired \<and> retirement_phase a = Some Ordered
            then case retirement_idx a of
                None \<Rightarrow> Throw a BadOptionalAccess
              | Some r \<Rightarrow>
                  if r > idx
                  then ok (a\<lparr>retirement_idx := None, retirement_phase := None,
                             membership_state :=
                               (if reconfiguration_type a = ONE_TRANSACTION then Active
                                else RetirementInitiated)\<rparr>)
                  else ok a
            else ok a)"

text \<open>Keep the longest prefix that ends at or before \<open>idx\<close>: \<open>while (back () > idx) pop_back ()\<close>.\<close>

definition pop_back_while :: "('a \<Rightarrow> bool) \<Rightarrow> 'a list \<Rightarrow> 'a list" where
  "pop_back_while p xs = rev (dropWhile p (rev xs))"

definition erase_above :: "Index \<Rightarrow> (NodeId \<rightharpoonup> Index) \<Rightarrow> (NodeId \<rightharpoonup> Index)" where
  "erase_above idx m = (\<lambda>k. case m k of None \<Rightarrow> None | Some v \<Rightarrow> if v > idx then None else Some v)"

definition rollback_configurations :: "Index \<Rightarrow> Aft \<Rightarrow> (Aft, unit) exec" where
  "rollback_configurations idx a =
     (let confs = pop_back_while (\<lambda>c. cfg_idx c > idx) (configurations a);
          changed = (confs \<noteq> configurations a);
          a = a\<lparr>configurations := confs\<rparr>;
          a = (if reconfiguration_type a = TWO_TRANSACTION
               then a\<lparr>learner_nodes := erase_above idx (learner_nodes a),
                      retired_nodes := erase_above idx (retired_nodes a)\<rparr>
               else a)
      in if changed then create_and_remove_node_state a else ok a)"

definition truncate_log :: "Index \<Rightarrow> Aft \<Rightarrow> Aft" where
  "truncate_log idx a =
     (let a = emit (StoreRollback \<lparr>tx_view = get_term_internal idx a, tx_seqno = idx\<rparr>
                      (current_view a)) a;
          a = emit (LedgerTruncate idx) a
      in a\<lparr>last_idx := idx, view_history := vh_rollback idx (view_history a),
           committable_indices := pop_back_while (\<lambda>i. i > idx) (committable_indices a)\<rparr>)"

definition rollback :: "Index \<Rightarrow> Aft \<Rightarrow> (Aft, unit) exec" where
  "rollback idx a =
     (if consensus_type a = CFT \<and> idx < commit_idx a then ok a
      else seq (rollback_retirement idx (truncate_log idx a)) (rollback_configurations idx))"

section \<open>Commit\<close>

definition num_trusted :: "Configuration \<Rightarrow> Aft \<Rightarrow> nat" where
  "num_trusted c a =
     length (filter (\<lambda>k. (k \<in> set (al_keys (nodes a)) \<and> learner_nodes a k = None)
                         \<or> (k = my_node_id a \<and> \<not> is_learner a)) (al_keys (cfg_nodes c)))"

definition num_retired :: "Configuration \<Rightarrow> Configuration \<Rightarrow> Aft \<Rightarrow> nat" where
  "num_retired from to a =
     length (filter (\<lambda>k. k \<notin> node_ids (cfg_nodes to)
                         \<and> (case retired_nodes a k of None \<Rightarrow> False | Some i \<Rightarrow> i \<le> commit_idx a))
       (al_keys (cfg_nodes from)))"

definition num_required_retirements :: "Configuration \<Rightarrow> Configuration \<Rightarrow> nat" where
  "num_required_retirements from to =
     length (filter (\<lambda>k. k \<notin> node_ids (cfg_nodes to)) (al_keys (cfg_nodes from)))"

text \<open>The identity check of a switch; \<open>None\<close> is a null \<open>resharing_tracker\<close>.\<close>

definition identity_ready :: "Index \<Rightarrow> Configuration \<Rightarrow> Aft \<Rightarrow> bool option" where
  "identity_ready idx nxt a =
     (if \<not> require_identity_for_reconfig a then Some True
      else case env_resharing_tracker (env a) of
        None \<Rightarrow> None
      | Some rt \<Rightarrow>
          Some (case rt_find_reconfiguration rt (trace a) (cfg_nodes nxt) of
             None \<Rightarrow> False
           | Some rid \<Rightarrow> rt_have_resharing_result_for rt (trace a) rid idx))"

definition cleanup_if_primary :: "Aft \<Rightarrow> Aft" where
  "cleanup_if_primary a = (if is_primary a then emit CleanupRetiredNodes a else a)"

text \<open>The two-transaction branch: the node's own retirement, the switch, the pending case.\<close>

definition observe_own_removal :: "Index \<Rightarrow> Configuration \<Rightarrow> Configuration \<Rightarrow> Aft \<Rightarrow> Aft" where
  "observe_own_removal idx conf nxt a =
     (if \<not> is_retired a \<and> my_node_id a \<in> node_ids (cfg_nodes conf)
         \<and> my_node_id a \<notin> node_ids (cfg_nodes nxt)
      then if \<not> is_retiring a then become_retiring a else become_retired idx Committed a
      else a)"

definition ready_to_switch :: "Configuration \<Rightarrow> Configuration \<Rightarrow> Aft \<Rightarrow> bool" where
  "ready_to_switch conf nxt a \<longleftrightarrow>
     num_trusted nxt a = length (cfg_nodes nxt)
     \<and> num_retired conf nxt a = num_required_retirements conf nxt"

definition switch_configuration :: "Configuration \<Rightarrow> Configuration \<Rightarrow> Aft \<Rightarrow> Aft" where
  "switch_configuration conf nxt a =
     (let a = (if is_learner a \<and> my_node_id a \<in> node_ids (cfg_nodes nxt)
               then a\<lparr>leadership_state := Some Follower, membership_state := Active\<rparr> else a);
          a = a\<lparr>learner_nodes := (\<lambda>k. if k \<in> node_ids (cfg_nodes nxt) then None else learner_nodes a k),
                retired_nodes := (\<lambda>k. if k \<in> node_ids (cfg_nodes conf) \<and> k \<notin> node_ids (cfg_nodes nxt)
                                      then None else retired_nodes a k)\<rparr>;
          a = cleanup_if_primary a
      in a\<lparr>configurations := tl (configurations a)\<rparr>)"

definition await_switch :: "Configuration \<Rightarrow> Aft \<Rightarrow> Aft" where
  "await_switch nxt a =
     (if env_node_client (env a) \<and> \<not> is_learner a
         \<and> (my_node_id a \<in> node_ids (cfg_nodes nxt)
            \<or> (is_retiring a \<and> my_node_id a \<notin> node_ids (cfg_nodes nxt)))
      then emit (SubmitOrc (my_node_id a) (cfg_rid nxt)) a else a)"

text \<open>
  The loop of \<open>commit\<close> over the configurations. Every iteration that goes on has popped the
  first configuration. The value is the flag \<open>changed\<close>.
\<close>

lemma configurations_update_simps [simp]:
  "configurations (cleanup_if_primary a) = configurations a"
  "configurations (become_retiring a) = configurations a"
  "configurations (become_retired idx ph a) = configurations a"
  "configurations (observe_own_removal idx conf nxt a) = configurations a"
  "configurations (switch_configuration conf nxt a) = tl (configurations a)"
  by (simp_all add: cleanup_if_primary_def become_retiring_def become_retired_def
      observe_own_removal_def switch_configuration_def Let_def split: RetirementPhase.split)

function commit_configurations :: "Index \<Rightarrow> bool \<Rightarrow> Aft \<Rightarrow> (Aft, bool) exec" where
  "commit_configurations idx changed a =
     (case configurations a of
        conf # nxt # rest \<Rightarrow>
          if idx < cfg_idx nxt then Done a changed
          else (case identity_ready idx nxt a of
             None \<Rightarrow> Throw a NullDereference
           | Some False \<Rightarrow> Done a changed
           | Some True \<Rightarrow>
               if reconfiguration_type a = ONE_TRANSACTION
               then commit_configurations idx True
                      (cleanup_if_primary (a\<lparr>configurations := nxt # rest\<rparr>))
               else if ready_to_switch conf nxt (observe_own_removal idx conf nxt a)
               then commit_configurations idx changed
                      (switch_configuration conf nxt (observe_own_removal idx conf nxt a))
               else Done (await_switch nxt (observe_own_removal idx conf nxt a)) changed)
      | _ \<Rightarrow> Done a changed)"
  by pat_completeness auto

termination
  by (relation "measure (\<lambda>(idx, changed, a). length (configurations a))") auto

declare commit_configurations.simps [simp del]

definition advance_commit :: "Index \<Rightarrow> Aft \<Rightarrow> Aft" where
  "advance_commit idx a =
     (let a = a\<lparr>commit_idx := idx\<rparr>;
          a = (if is_retired a \<and> retirement_phase a = Some Signed
                  \<and> (case retirement_committable_idx a of None \<Rightarrow> False | Some c \<Rightarrow> idx \<ge> c)
               then become_retired idx Completed a else a);
          a = emit (StoreCompact idx) a
      in emit (LedgerCommit idx) a)"

definition finish_commit :: "Index \<Rightarrow> Aft \<Rightarrow> bool \<Rightarrow> (Aft, unit) exec" where
  "finish_commit idx a changed =
     (let a = (if env_resharing_tracker (env a) \<noteq> None then emit (CompactResharing idx) a else a)
      in if changed then create_and_remove_node_state a else ok a)"

definition commit :: "Index \<Rightarrow> Aft \<Rightarrow> (Aft, unit) exec" where
  "commit idx a =
     (if idx > last_idx a then Throw a (LogicError ''Tried to commit past last_idx'')
      else if idx \<le> commit_idx a then ok a
      else bindv (commit_configurations idx False (advance_commit idx a)) (finish_commit idx))"

definition commit_if_possible :: "Index \<Rightarrow> Aft \<Rightarrow> (Aft, unit) exec" where
  "commit_if_possible idx a =
     (if idx > commit_idx a \<and> get_term_internal idx a \<le> current_view a
      then
        let popped = takeWhile (\<lambda>i. i \<le> idx) (committable_indices a);
            a = a\<lparr>committable_indices := dropWhile (\<lambda>i. i \<le> idx) (committable_indices a)\<rparr>
        in if popped \<noteq> [] \<and> consensus_type a = CFT then commit (last popped) a else ok a
      else ok a)"

text \<open>
  The commit watermark: in every configuration the highest index a majority has reached, and
  the least of them over the configurations. \<open>None\<close> is an exception of \<open>nodes.at\<close> or
  \<open>match.at\<close>; without configurations the watermark is left alone.
\<close>

fun match_indices :: "Aft \<Rightarrow> NodeId list \<Rightarrow> Index list option" where
  "match_indices a [] = Some []"
| "match_indices a (k # ks) =
     (case (if k = my_node_id a then Some (last_idx a) else map_option match_idx (map_of (nodes a) k))
      of None \<Rightarrow> None | Some i \<Rightarrow> map_option (Cons i) (match_indices a ks))"

definition confirmed_index :: "Aft \<Rightarrow> Configuration \<Rightarrow> Index option" where
  "confirmed_index a c =
     (case match_indices a (al_keys (cfg_nodes c)) of
        None \<Rightarrow> None
      | Some match \<Rightarrow> if match = [] then None else Some (sort match ! ((length match - 1) div 2)))"

fun new_commit_cft_idx :: "Aft \<Rightarrow> Configuration list \<Rightarrow> Index \<Rightarrow> Index option" where
  "new_commit_cft_idx a [] acc = Some acc"
| "new_commit_cft_idx a (c # cs) acc =
     (case confirmed_index a c of
        None \<Rightarrow> None
      | Some confirmed \<Rightarrow> new_commit_cft_idx a cs (if confirmed < acc then confirmed else acc))"

definition update_commit :: "Aft \<Rightarrow> (Aft, unit) exec" where
  "update_commit a =
     (case new_commit_cft_idx a (configurations a) uint64_max of
        None \<Rightarrow> Throw a OutOfRange
      | Some w \<Rightarrow>
          let a = (if w \<noteq> uint64_max then a\<lparr>cft_watermark_idx := w\<rparr> else a) in
          if get_commit_watermark_idx a > last_idx a
          then Throw a (LogicError ''Followers appear to have later match indices than leader'')
          else commit_if_possible (get_commit_watermark_idx a) a)"

section \<open>Reconfiguration\<close>

definition note_nodes :: "NodeId set \<Rightarrow> Index \<Rightarrow> (NodeId \<rightharpoonup> Index) \<Rightarrow> (NodeId \<rightharpoonup> Index)" where
  "note_nodes ids idx m = (\<lambda>k. if k \<in> ids \<and> m k = None then Some idx else m k)"

fun observe_promotions :: "NodeId set \<Rightarrow> NodeId list \<Rightarrow> Aft \<Rightarrow> Aft" where
  "observe_promotions new_learner_nodes [] a = a"
| "observe_promotions new_learner_nodes (nid # nids) a =
     (let a = (if nid \<in> set (al_keys (nodes a)) \<and> learner_nodes a nid \<noteq> None
                  \<and> nid \<notin> new_learner_nodes
               then a\<lparr>learner_nodes := (learner_nodes a)(nid := None)\<rparr> else a);
          a = (if is_learner a \<and> nid = my_node_id a
               then a\<lparr>leadership_state := Some Follower, membership_state := Active\<rparr> else a)
      in observe_promotions new_learner_nodes nids a)"

definition observe_configuration_1tx :: "Index \<Rightarrow> Nodes \<Rightarrow> Aft \<Rightarrow> Aft" where
  "observe_configuration_1tx idx conf a =
     (if configurations a \<noteq> []
         \<and> my_node_id a \<in> node_ids (cfg_nodes (last (configurations a)))
         \<and> my_node_id a \<notin> node_ids conf
      then become_retired idx Ordered a else a)"

definition observe_configuration_2tx ::
  "Index \<Rightarrow> Nodes \<Rightarrow> NodeId set \<Rightarrow> NodeId set \<Rightarrow> Aft \<Rightarrow> Aft"
where
  "observe_configuration_2tx idx conf new_learner_nodes new_retired_nodes a =
     (let a = (if configurations a \<noteq> []
                  \<and> my_node_id a \<notin> node_ids (cfg_nodes (last (configurations a)))
                  \<and> my_node_id a \<notin> node_ids conf
                  \<and> (is_retiring a \<or> (is_retired a \<and> retirement_phase a = Some Committed))
               then become_retired idx Ordered a else a);
          a = a\<lparr>learner_nodes := note_nodes new_learner_nodes idx (learner_nodes a),
                retired_nodes := note_nodes new_retired_nodes idx (retired_nodes a)\<rparr>;
          a = (if configurations a \<noteq> [] then observe_promotions new_learner_nodes (al_keys conf) a
               else a)
      in if orc_sets a idx = None then a\<lparr>orc_sets := (orc_sets a)(idx \<mapsto> {})\<rparr> else a)"

definition add_configuration ::
  "Index \<Rightarrow> Nodes \<Rightarrow> NodeId set \<Rightarrow> NodeId set \<Rightarrow> Aft \<Rightarrow> (Aft, unit) exec"
where
  "add_configuration idx conf new_learner_nodes new_retired_nodes a =
     (let a = (if reconfiguration_type a = ONE_TRANSACTION
               then observe_configuration_1tx idx conf a
               else observe_configuration_2tx idx conf new_learner_nodes new_retired_nodes a)
      in if conf \<noteq> cfg_nodes (configurations_back a)
         then
           let new_config = \<lparr>cfg_idx = idx, cfg_nodes = conf, cfg_bft_offset = 0, cfg_rid = idx\<rparr>;
               a = a\<lparr>configurations := configurations a @ [new_config]\<rparr>;
               a = (if reconfiguration_type a = TWO_TRANSACTION
                       \<and> env_resharing_tracker (env a) \<noteq> None
                    then let a = emit (TrackConfiguration new_config) a
                         in if is_primary a then emit (Reshare new_config) a else a
                    else a)
           in create_and_remove_node_state a
         else ok a)"

definition add_resharing_result ::
  "Index \<Rightarrow> ReconfigurationId \<Rightarrow> ResharingResult \<Rightarrow> Aft \<Rightarrow> (Aft, unit) exec"
where
  "add_resharing_result seqno rid result a =
     (if reconfiguration_type a = TWO_TRANSACTION \<and> require_identity_for_reconfig a
      then if env_resharing_tracker (env a) = None then Throw a NullDereference
           else ok (emit (TrackResharingResult seqno rid result) a)
      else ok a)"

fun call_hook :: "Hook \<Rightarrow> Aft \<Rightarrow> (Aft, unit) exec" where
  "call_hook (ConfigurationChangeHook ver cfg_delta learners retired) a =
     (let configuration = apply_delta cfg_delta (get_latest_configuration_unsafe a)
      in if cfg_delta \<noteq> [] then add_configuration ver configuration learners retired a
         else ok a)"
| "call_hook (ResharingsHook ver results) a =
     for_each (\<lambda>(rid, res). add_resharing_result ver rid res) results a"

definition orc :: "ReconfigurationId \<Rightarrow> NodeId \<Rightarrow> Aft \<Rightarrow> (Aft, Nodes option) exec" where
  "orc rid node_id a =
     (case orc_sets a rid of
        None \<Rightarrow> Throw a (LogicError ''Missing ORC set'')
      | Some s \<Rightarrow>
          (case find (\<lambda>c. cfg_rid c = rid) (configurations a) of
             None \<Rightarrow> Done a None
           | Some conf \<Rightarrow>
               if node_id \<notin> node_ids (cfg_nodes conf) then Done a None
               else let s' = insert node_id s;
                        a' = a\<lparr>orc_sets := (orc_sets a)(rid \<mapsto> s')\<rparr>
                    in Done a' (if card s' \<ge> get_quorum (length (cfg_nodes conf)) a
                                then Some (cfg_nodes conf) else None)))"

end
