(* ===== verification/Aft_Election.thy ===== *)
theory Aft_Election
  imports Aft_Commit
begin

text \<open>
  Roles of \<open>aft::Aft\<close>: follower, candidate, leader; request-vote messages and the forced
  transitions of a starting or recovering service.
\<close>

section \<open>Becoming follower\<close>

definition become_follower :: "Aft \<Rightarrow> (Aft, unit) exec" where
  "become_follower a =
     (let a = a\<lparr>leader_id := None\<rparr>;
          a = restart_election_timeout a;
          a = clear_orc_sets a;
          a = reset_last_ack_timeouts a
      in seq (rollback (last_committable_index a) a)
        (\<lambda>a. if can_endorse_primary a \<and> membership_state a \<noteq> RetirementInitiated
             then ok (a\<lparr>leadership_state := Some Follower\<rparr>) else ok a))"

definition become_aware_of_new_term :: "Term \<Rightarrow> Aft \<Rightarrow> (Aft, unit) exec" where
  "become_aware_of_new_term term a =
     seq (become_follower (a\<lparr>current_view := term, voted_for := None, votes_for_me := {}\<rparr>))
       (\<lambda>a. ok (a\<lparr>is_new_follower := True\<rparr>))"

section \<open>Becoming leader\<close>

definition announce_leadership :: "Index \<Rightarrow> NodeId \<Rightarrow> Aft \<Rightarrow> (Aft, unit) exec" where
  "announce_leadership nxt k a =
     send_append_entries k nxt
       (a\<lparr>nodes := al_update k (\<lambda>n. n\<lparr>match_idx := 0, sent_idx := nxt - 1\<rparr>) (nodes a)\<rparr>)"

definition become_leader :: "Aft \<Rightarrow> (Aft, unit) exec" where
  "become_leader a =
     (if is_retired a then ok a
      else
        let a = a\<lparr>election_index := last_committable_index a, committable_indices := []\<rparr> in
        seq (if commit_idx a > 0 then rollback (election_index a) a
             else ok (emit (StoreInitialiseTerm (current_view a)) a))
          (\<lambda>a.
             let a = a\<lparr>leadership_state := Some Leader, leader_id := Some (my_node_id a),
                       should_sign := True, timeout_elapsed := 0\<rparr>;
                 a = reset_last_ack_timeouts a
             in if nodes a = [] then commit (last_idx a) a
                else for_each (announce_leadership (last_idx a + 1)) (al_keys (nodes a)) a))"

section \<open>Elections\<close>

definition add_vote_for_me :: "NodeId \<Rightarrow> Aft \<Rightarrow> (Aft, unit) exec" where
  "add_vote_for_me from a =
     (if reconfiguration_type a = TWO_TRANSACTION
         \<and> from \<notin> node_ids (cfg_nodes (configurations_front a))
      then ok a
      else
        let quorum = (if reconfiguration_type a = TWO_TRANSACTION
                      then get_quorum (length (cfg_nodes (configurations_front a))) a
                      else get_quorum (length (nodes a) + 1) a);
            a = a\<lparr>votes_for_me := insert from (votes_for_me a)\<rparr>
        in if card (votes_for_me a) \<ge> quorum then become_leader a else ok a)"

definition become_candidate :: "Aft \<Rightarrow> (Aft, unit) exec" where
  "become_candidate a =
     (let a = a\<lparr>leadership_state := Some Candidate, leader_id := None\<rparr>;
          a = clear_orc_sets a;
          a = a\<lparr>voted_for := Some (my_node_id a), votes_for_me := {},
                current_view := current_view a + 1\<rparr>;
          a = restart_election_timeout a;
          a = reset_last_ack_timeouts a
      in seq (add_vote_for_me (my_node_id a) a)
        (\<lambda>a. if consensus_type a \<noteq> BFT
             then for_each (\<lambda>k a. ok (send_request_vote k a)) (al_keys (nodes a)) a
             else ok a))"

text \<open>Whether a candidate's committable log is at least as up to date as the node's own.\<close>

definition up_to_date :: "RequestVote \<Rightarrow> Aft \<Rightarrow> bool" where
  "up_to_date r a \<longleftrightarrow>
     (let last_committable_idx = last_committable_index a;
          term_of_last_committable_idx = get_term_internal last_committable_idx a
      in rv_term_of_last_committable_idx r > term_of_last_committable_idx
         \<or> (rv_term_of_last_committable_idx r = term_of_last_committable_idx
            \<and> rv_last_committable_idx r \<ge> last_committable_idx))"

definition answer_request_vote :: "NodeId \<Rightarrow> RequestVote \<Rightarrow> Aft \<Rightarrow> Aft" where
  "answer_request_vote from r a =
     (if leader_id a \<noteq> None then send_request_vote_response from False a
      else if voted_for a \<noteq> None \<and> voted_for a \<noteq> Some from
      then send_request_vote_response from False a
      else if up_to_date r a
      then send_request_vote_response from True
             ((restart_election_timeout a)\<lparr>leader_id := None, voted_for := Some from\<rparr>)
      else send_request_vote_response from False a)"

definition recv_request_vote :: "NodeId \<Rightarrow> RequestVote \<Rightarrow> Aft \<Rightarrow> (Aft, unit) exec" where
  "recv_request_vote from r a =
     (if current_view a > rv_term r then ok (send_request_vote_response from False a)
      else seq (if current_view a < rv_term r then become_aware_of_new_term (rv_term r) a else ok a)
        (\<lambda>a. ok (answer_request_vote from r a)))"

definition recv_request_vote_response ::
  "NodeId \<Rightarrow> RequestVoteResponse \<Rightarrow> Aft \<Rightarrow> (Aft, unit) exec"
where
  "recv_request_vote_response from r a =
     (if leadership_state a \<noteq> Some Candidate then ok a
      else if from \<notin> set (al_keys (nodes a)) then ok a
      else if current_view a < rvr_term r then become_aware_of_new_term (rvr_term r) a
      else if current_view a \<noteq> rvr_term r then ok a
      else if \<not> rvr_vote_granted r then ok a
      else add_vote_for_me from a)"

section \<open>Forced transitions\<close>

definition force_become_primary :: "Aft \<Rightarrow> (Aft, unit) exec" where
  "force_become_primary a =
     (if leader_id a \<noteq> None
      then Throw a (LogicError ''Can't force leadership if there is already a leader'')
      else become_leader (a\<lparr>current_view := current_view a + starting_view_change\<rparr>))"

definition force_become_primary_at ::
  "Index \<Rightarrow> Term \<Rightarrow> ViewHistory \<Rightarrow> Index \<Rightarrow> Aft \<Rightarrow> (Aft, unit) exec"
where
  "force_become_primary_at index term terms commit_idx0 a =
     (if leader_id a \<noteq> None
      then Throw a (LogicError ''Can't force leadership if there is already a leader'')
      else
        seq (initialise_view_history terms
               (a\<lparr>current_view := term, last_idx := index, commit_idx := commit_idx0\<rparr>))
          (\<lambda>a. seq (with_history (vh_update index term (view_history a)) a)
            (\<lambda>a. become_leader (a\<lparr>current_view := current_view a + starting_view_change\<rparr>))))"

definition init_as_backup ::
  "Index \<Rightarrow> Term \<Rightarrow> ViewHistory \<Rightarrow> Index \<Rightarrow> Aft \<Rightarrow> (Aft, unit) exec"
where
  "init_as_backup index term term_history recovery_start_index a =
     seq (initialise_view_history term_history (a\<lparr>last_idx := index, commit_idx := index\<rparr>))
       (\<lambda>a. become_aware_of_new_term term (emit (LedgerInit index recovery_start_index) a))"

end
