(* ===== verification/Aft_Node.thy ===== *)
theory Aft_Node
  imports Aft_Election
begin

text \<open>
  The handlers of \<open>aft::Aft\<close>: replication on the leader, append entries on a follower and
  their acknowledgement, the clock, and the dispatch of authenticated messages.
\<close>

section \<open>Replication on the leader\<close>

record BatchEntry =
  be_index :: Index
  be_data :: "byte list"
  be_globally_committable :: bool
  be_hooks :: "Hook list"

definition mark_committable :: "Index \<Rightarrow> Aft \<Rightarrow> Aft" where
  "mark_committable i a =
     (let a = (if membership_state a = Retired \<and> retirement_phase a = Some Ordered
               then become_retired i Signed a else a)
      in a\<lparr>committable_indices := committable_indices a @ [i]\<rparr>)"

definition flush_if_full :: "Aft \<Rightarrow> (Aft, unit) exec" where
  "flush_if_full a =
     (if entry_size_not_limited a \<ge> append_entries_size_limit
      then send_append_entries_to_all
             ((update_batch_size a)\<lparr>entry_count := 0, entry_size_not_limited := 0\<rparr>)
      else ok a)"

definition append_entry :: "BatchEntry \<Rightarrow> Aft \<Rightarrow> (Aft, unit) exec" where
  "append_entry e a =
     (let a = (if be_globally_committable e
               then start_ticking_if_necessary (mark_committable (be_index e) a) else a);
          a = a\<lparr>last_idx := be_index e\<rparr>;
          a = emit (LedgerPutEntry (be_data e) (be_globally_committable e) (current_view a)
                      (be_index e)) a;
          a = a\<lparr>entry_size_not_limited := entry_size_not_limited a + length (be_data e),
                entry_count := entry_count a + 1\<rparr>
      in with_history (vh_update (be_index e) (current_view a) (view_history a)) a)"

definition replicate_entry :: "BatchEntry \<Rightarrow> Aft \<Rightarrow> (Aft, unit) exec" where
  "replicate_entry e a =
     seq (for_each call_hook (be_hooks e) a) (\<lambda>a. seq (append_entry e a) flush_if_full)"

text \<open>The loop over a batch; the value is \<open>False\<close> when it returned early.\<close>

fun replicate_entries :: "BatchEntry list \<Rightarrow> Aft \<Rightarrow> (Aft, bool) exec" where
  "replicate_entries [] a = Done a True"
| "replicate_entries (e # es) a =
     (if be_index e \<noteq> last_idx a + 1 then Done a False
      else if retirement_committable_idx a \<noteq> None then Done a False
      else bindv (replicate_entry e a) (\<lambda>a _. replicate_entries es a))"

definition replicate_batch :: "BatchEntry list \<Rightarrow> Term \<Rightarrow> Aft \<Rightarrow> (Aft, bool) exec" where
  "replicate_batch entries term a =
     (if leadership_state a \<noteq> Some Leader
      then bindv (rollback (last_idx a) a) (\<lambda>a _. Done a False)
      else if term \<noteq> current_view a then Done a False
      else bindv (replicate_entries entries a)
        (\<lambda>a ok_so_far.
           if \<not> ok_so_far then Done a False
           else if nodes a = [] then bindv (update_commit a) (\<lambda>a _. Done a True)
           else Done a True))"

section \<open>Append entries on a follower\<close>

text \<open>Deserialise the entries of a message; \<open>None\<close> after an early return.\<close>

fun deserialise_entries ::
  "NodeId \<Rightarrow> AppendEntries \<Rightarrow> Index list \<Rightarrow> byte list \<Rightarrow> (ExecutionWrapper \<times> Version) list \<Rightarrow> Aft
   \<Rightarrow> (Aft, (ExecutionWrapper \<times> Version) list option) exec"
where
  "deserialise_entries from r [] data acc a = Done a (Some acc)"
| "deserialise_entries from r (i # is) data acc a =
     (if i \<le> last_idx a
      then (case skip_entry data of
              Inl e \<Rightarrow> Throw a e
            | Inr data' \<Rightarrow> deserialise_entries from r is data' acc a)
      else (case get_entry data of
              Inl e \<Rightarrow>
                if is_logic_error e
                then bindv (send_append_entries_response from AE_FAIL None a) (\<lambda>a _. Done a None)
                else Throw a e
            | Inr (entry, data') \<Rightarrow>
                let expected = \<lparr>tx_view = ae_term_of_idx r, tx_seqno = i\<rparr>;
                    ds = env_deserialize (env a) (trace a) entry (consensus_type a) (public_only a)
                           expected;
                    a = emit (StoreApply entry expected) a
                in (case ds of
                      None \<Rightarrow> bindv (send_append_entries_response from AE_FAIL None a)
                                (\<lambda>a _. Done a None)
                    | Some w \<Rightarrow> deserialise_entries from r is data' (acc @ [(w, i)]) a)))"

definition signature_history :: "AppendEntries \<Rightarrow> ExecutionWrapper \<Rightarrow> Aft \<Rightarrow> (Aft, unit) exec" where
  "signature_history r ds a =
     (if ae_term_of_idx r = VIEW_UNKNOWN
      then with_history (vh_update 1 (ae_term r) (view_history a)) a
      else with_history (vh_update (ae_prev_idx r + 1) (ew_term ds) (view_history a)) a)"

definition apply_signature ::
  "AppendEntries \<Rightarrow> ExecutionWrapper \<Rightarrow> Index \<Rightarrow> Aft \<Rightarrow> (Aft, unit) exec"
where
  "apply_signature r ds i a =
     (let a = mark_committable i a in
      if ew_term ds \<noteq> 0
      then seq (signature_history r ds a) (commit_if_possible (ae_leader_commit_idx r))
      else ok a)"

text \<open>The part of one iteration that follows the hooks: write the entry, act on its kind.\<close>

definition record_entry ::
  "AppendEntries \<Rightarrow> ExecutionWrapper \<Rightarrow> Index \<Rightarrow> ApplyResult \<Rightarrow> Aft \<Rightarrow> (Aft, bool) exec"
where
  "record_entry r ds i apply_success a =
     (let globally_committable = (apply_success = PASS_SIGNATURE);
          a = (if globally_committable then start_ticking_if_necessary a else a);
          a = emit (LedgerPutEntry (ew_entry ds) globally_committable (ew_term ds) (ew_index ds)) a
      in case apply_success of
           PASS_SIGNATURE \<Rightarrow> bindv (apply_signature r ds i a) (\<lambda>a _. Done a True)
         | PASS \<Rightarrow> Done a True
         | PASS_SNAPSHOT_EVIDENCE \<Rightarrow> Done a True
         | PASS_ENCRYPTED_PAST_LEDGER_SECRET \<Rightarrow> Done a True
         | _ \<Rightarrow> Throw a (LogicError ''Unknown ApplyResult value''))"

text \<open>One entry on the follower; the value is \<open>False\<close> after an early return.\<close>

definition execute_entry ::
  "NodeId \<Rightarrow> AppendEntries \<Rightarrow> ExecutionWrapper \<times> Version \<Rightarrow> Aft \<Rightarrow> (Aft, bool) exec"
where
  "execute_entry from r = (\<lambda>(ds, i) a.
     let apply_success = ew_apply ds (trace a);
         a = emit (StoreExecute i) a
     in if apply_success = FAIL
        then bindv (send_append_entries_response from AE_FAIL None (emit (LedgerTruncate (dec64 i)) a))
               (\<lambda>a _. Done a False)
        else
          bindv (for_each call_hook (ew_hooks ds (trace a)) (a\<lparr>last_idx := i\<rparr>))
            (\<lambda>a _. record_entry r ds i apply_success a))"

definition finish_history :: "AppendEntries \<Rightarrow> Aft \<Rightarrow> (Aft, unit) exec" where
  "finish_history r a =
     (let lci = last_committable_index a in
      if ae_term_of_idx r = VIEW_UNKNOWN
      then with_history (vh_update 1 (ae_term r) (view_history a)) a
      else if ae_idx r > lci
      then with_history (vh_update (lci + 1) (ae_term_of_idx r) (view_history a)) a
      else ok a)"

definition execute_append_entries_finish :: "AppendEntries \<Rightarrow> NodeId \<Rightarrow> Aft \<Rightarrow> (Aft, unit) exec" where
  "execute_append_entries_finish r from a =
     seq (commit_if_possible (ae_leader_commit_idx r) a)
       (\<lambda>a. seq (finish_history r a) (send_append_entries_response from AE_OK None))"

fun execute_append_entries_sync ::
  "(ExecutionWrapper \<times> Version) list \<Rightarrow> NodeId \<Rightarrow> AppendEntries \<Rightarrow> Aft \<Rightarrow> (Aft, unit) exec"
where
  "execute_append_entries_sync [] from r a = execute_append_entries_finish r from a"
| "execute_append_entries_sync (e # es) from r a =
     bindv (execute_entry from r e a)
       (\<lambda>a go_on. if go_on then execute_append_entries_sync es from r a else ok a)"

definition new_follower_rollback :: "AppendEntries \<Rightarrow> Aft \<Rightarrow> (Aft, unit) exec" where
  "new_follower_rollback r a =
     (if is_new_follower a
      then seq (if last_idx a > ae_prev_idx r then rollback (ae_prev_idx r) a else ok a)
             (\<lambda>a. ok (a\<lparr>is_new_follower := False\<rparr>))
      else ok a)"

definition phase_ge_Completed :: "RetirementPhase option \<Rightarrow> bool" where
  "phase_ge_Completed ph = (case ph of None \<Rightarrow> False | Some p \<Rightarrow> phase_num p \<ge> phase_num Completed)"

definition past_retirement :: "Index \<Rightarrow> Aft \<Rightarrow> bool" where
  "past_retirement idx a \<longleftrightarrow>
     is_retired a \<and> phase_ge_Completed (retirement_phase a)
     \<and> (case retirement_committable_idx a of None \<Rightarrow> True | Some c \<Rightarrow> idx > c)"

text \<open>The part of \<open>recv_append_entries\<close> after the previous entry was found to match.\<close>

definition accept_append_entries ::
  "NodeId \<Rightarrow> AppendEntries \<Rightarrow> byte list \<Rightarrow> Aft \<Rightarrow> (Aft, unit) exec"
where
  "accept_append_entries from r data a =
     (let a = restart_election_timeout a;
          a = (if leader_id a \<noteq> Some from then a\<lparr>leader_id := Some from\<rparr> else a)
      in if consensus_type a = CFT \<and> ae_prev_idx r < commit_idx a then ok a
         else if ae_prev_idx r > last_idx a then ok a
         else seq (new_follower_rollback r a)
           (\<lambda>a. bindv (deserialise_entries from r [ae_prev_idx r + 1 ..< ae_idx r + 1] data [] a)
             (\<lambda>a entries. case entries of
                None \<Rightarrow> ok a
              | Some es \<Rightarrow> execute_append_entries_sync es from r a)))"

definition check_append_entries ::
  "NodeId \<Rightarrow> AppendEntries \<Rightarrow> byte list \<Rightarrow> Aft \<Rightarrow> (Aft, unit) exec"
where
  "check_append_entries from r data a =
     (let prev_term = get_term_internal (ae_prev_idx r) a in
      if prev_term \<noteq> ae_prev_term r
      then if prev_term = 0 then send_append_entries_response from AE_FAIL None a
           else send_append_entries_response from AE_FAIL
                  (Some \<lparr>tx_view = ae_prev_term r, tx_seqno = ae_prev_idx r\<rparr>) a
      else if past_retirement (ae_idx r) a then send_append_entries_response from AE_FAIL None a
      else accept_append_entries from r data a)"

definition recv_append_entries ::
  "NodeId \<Rightarrow> AppendEntries \<Rightarrow> byte list \<Rightarrow> Aft \<Rightarrow> (Aft, unit) exec"
where
  "recv_append_entries from r data a =
     (if current_view a = ae_term r \<and> leadership_state a = Some Candidate
      then seq (become_aware_of_new_term (ae_term r) a) (check_append_entries from r data)
      else if current_view a < ae_term r
      then seq (become_aware_of_new_term (ae_term r) a) (check_append_entries from r data)
      else if current_view a > ae_term r then send_append_entries_response from AE_FAIL None a
      else check_append_entries from r data a)"

section \<open>Acknowledgements\<close>

definition match_idx_of :: "NodeId \<Rightarrow> Aft \<Rightarrow> Index" where
  "match_idx_of k a = (case map_of (nodes a) k of None \<Rightarrow> 0 | Some n \<Rightarrow> match_idx n)"

definition set_match_idx :: "NodeId \<Rightarrow> Index \<Rightarrow> Aft \<Rightarrow> Aft" where
  "set_match_idx k i a = a\<lparr>nodes := al_update k (\<lambda>n. n\<lparr>match_idx := i\<rparr>) (nodes a)\<rparr>"

text \<open>A negative answer moves \<open>match_idx\<close> back and resends from there.\<close>

definition reset_match :: "NodeId \<Rightarrow> Index \<Rightarrow> Aft \<Rightarrow> Aft" where
  "reset_match from this_match a =
     (let m = (if match_idx_of from a = 0 then this_match else min (match_idx_of from a) this_match)
      in a\<lparr>nodes := al_update from (\<lambda>n. n\<lparr>match_idx := m, sent_idx := m\<rparr>) (nodes a)\<rparr>)"

definition update_match ::
  "NodeId \<Rightarrow> AppendEntriesResponse \<Rightarrow> Aft \<Rightarrow> (Aft, unit) exec"
where
  "update_match from r a =
     (case aer_success r of
        AE_FAIL \<Rightarrow>
          (case find_highest_possible_match
                  \<lparr>tx_view = aer_term r, tx_seqno = aer_last_log_idx r\<rparr> a of
             None \<Rightarrow> Diverge a
           | Some this_match \<Rightarrow> ok (reset_match from this_match a))
      | AE_REQUIRE_EVIDENCE \<Rightarrow>
          (let m = min (aer_last_log_idx r) (last_idx a)
           in ok (a\<lparr>nodes := al_update from (\<lambda>n. n\<lparr>match_idx := m, sent_idx := m\<rparr>) (nodes a)\<rparr>))
      | AE_OK \<Rightarrow>
          update_commit (set_match_idx from (min (aer_last_log_idx r) (last_idx a)) a))"

definition recv_append_entries_response ::
  "NodeId \<Rightarrow> AppendEntriesResponse \<Rightarrow> Aft \<Rightarrow> (Aft, unit) exec"
where
  "recv_append_entries_response from r a =
     (if leadership_state a \<noteq> Some Leader then ok a
      else if from \<notin> set (al_keys (nodes a)) then ok a
      else
        let a = a\<lparr>nodes := al_update from (\<lambda>n. n\<lparr>last_ack_timeout := 0\<rparr>) (nodes a)\<rparr> in
        if current_view a < aer_term r then become_aware_of_new_term (aer_term r) a
        else if current_view a \<noteq> aer_term r \<and> aer_success r = AE_OK then ok a
        else if current_view a = aer_term r \<and> aer_last_log_idx r < match_idx_of from a
                \<and> aer_success r = AE_OK then ok a
        else update_match from r a)"

section \<open>The clock\<close>

definition backup_ack_timeout_count :: "Aft \<Rightarrow> nat" where
  "backup_ack_timeout_count a =
     length (filter (\<lambda>(k, n). last_ack_timeout n \<ge> election_timeout a) (nodes a))"

definition age_acks :: "nat \<Rightarrow> Aft \<Rightarrow> Aft" where
  "age_acks elapsed a =
     a\<lparr>nodes := al_map (\<lambda>n. n\<lparr>last_ack_timeout := last_ack_timeout n + elapsed\<rparr>) (nodes a)\<rparr>"

definition check_quorum :: "nat \<Rightarrow> Aft \<Rightarrow> (Aft, unit) exec" where
  "check_quorum elapsed a =
     (let a = age_acks elapsed a
      in if backup_ack_timeout_count a \<ge> get_quorum (length (nodes a)) a then become_follower a
         else ok a)"

definition periodic :: "nat \<Rightarrow> Aft \<Rightarrow> (Aft, unit) exec" where
  "periodic elapsed a =
     (let a = a\<lparr>timeout_elapsed := timeout_elapsed a + elapsed\<rparr> in
      if leadership_state a = Some Leader
      then seq (if timeout_elapsed a \<ge> request_timeout a
                then send_append_entries_to_all (update_batch_size (a\<lparr>timeout_elapsed := 0\<rparr>))
                else ok a)
             (check_quorum elapsed)
      else if consensus_type a \<noteq> BFT \<and> can_endorse_primary a \<and> ticking a
              \<and> timeout_elapsed a \<ge> election_timeout a
      then become_candidate a
      else ok a)"

section \<open>Messages\<close>

text \<open>
  \<open>recv_authenticated<T>\<close> (node/node_to_node.h): overlay the header struct, then let the
  channel verify it, which also consumes the rest of the message.
\<close>

definition recv_authenticated :: "nat \<Rightarrow> NodeId \<Rightarrow> byte list \<Rightarrow> Aft \<Rightarrow> (byte list \<times> byte list) fallible" where
  "recv_authenticated sz from data a =
     (case overlay sz data of
        Inl e \<Rightarrow> Inl e
      | Inr (hdr, rest) \<Rightarrow>
          (case env_recv_authenticated (env a) (trace a) from hdr rest of
             None \<Rightarrow> Inl DroppedMessage
           | Some rest' \<Rightarrow> Inr (hdr, rest')))"

definition dispatch_message :: "nat \<Rightarrow> NodeId \<Rightarrow> byte list \<Rightarrow> Aft \<Rightarrow> (Aft, unit) exec" where
  "dispatch_message type from data a =
     (if type = raft_append_entries
      then (case recv_authenticated sizeof_AppendEntries from data a of
              Inl e \<Rightarrow> Throw a e
            | Inr (hdr, rest) \<Rightarrow> recv_append_entries from (AppendEntries_of hdr) rest a)
      else if type = raft_append_entries_response
      then (case recv_authenticated sizeof_AppendEntriesResponse from data a of
              Inl e \<Rightarrow> Throw a e
            | Inr (hdr, rest) \<Rightarrow>
                recv_append_entries_response from (AppendEntriesResponse_of hdr) a)
      else if type = raft_request_vote
      then (case recv_authenticated sizeof_RequestVote from data a of
              Inl e \<Rightarrow> Throw a e
            | Inr (hdr, rest) \<Rightarrow> recv_request_vote from (RequestVote_of hdr) a)
      else if type = raft_request_vote_response
      then (case recv_authenticated sizeof_RequestVoteResponse from data a of
              Inl e \<Rightarrow> Throw a e
            | Inr (hdr, rest) \<Rightarrow> recv_request_vote_response from (RequestVoteResponse_of hdr) a)
      else ok a)"

text \<open>
  A standard exception of a handler is caught and logged, as is a dropped message; the type of a message
  is read before.
\<close>

definition recv_message :: "NodeId \<Rightarrow> byte list \<Rightarrow> Aft \<Rightarrow> (Aft, unit) exec" where
  "recv_message from data a =
     (case peek_uint 8 data of
        Inl e \<Rightarrow> Throw a e
      | Inr type \<Rightarrow>
          (case dispatch_message type from data a of
             Throw a' e \<Rightarrow> if is_std_exception e then ok a' else Throw a' e
           | m \<Rightarrow> m))"

end
