(* ===== verification/Aft_Invariant.thy ===== *)
theory Aft_Invariant
  imports Aft_Node
begin

text \<open>
  The invariant of a node and the facts every handler keeps: the commit index and the view
  only grow, and nothing at or below the commit index is rolled back or truncated. The
  lemmas speak about the final state of a run, whether it returned, threw or diverged, since
  \<open>recv_message\<close> catches exceptions and the node goes on from where they left it.
\<close>

section \<open>The invariant\<close>

definition nodes_inv :: "Aft \<Rightarrow> bool" where
  "nodes_inv a \<longleftrightarrow> distinct (al_keys (nodes a)) \<and> my_node_id a \<notin> set (al_keys (nodes a))
     \<and> (\<forall>c\<in>set (configurations a).
          node_ids (cfg_nodes c) \<subseteq> insert (my_node_id a) (set (al_keys (nodes a))))"

definition committable_inv :: "Aft \<Rightarrow> bool" where
  "committable_inv a \<longleftrightarrow> sorted_wrt (<) (committable_indices a)
     \<and> (\<forall>i\<in>set (committable_indices a). commit_idx a < i \<and> i \<le> last_idx a)"

definition retirement_inv :: "Aft \<Rightarrow> bool" where
  "retirement_inv a \<longleftrightarrow>
     (retirement_phase a = Some Ordered \<or> retirement_phase a = Some Signed
        \<longrightarrow> retirement_idx a \<noteq> None)
     \<and> (retirement_phase a = Some Signed \<or> retirement_phase a = Some Completed
        \<longrightarrow> retirement_committable_idx a \<noteq> None)"

definition aft_inv :: "Aft \<Rightarrow> bool" where
  "aft_inv a \<longleftrightarrow> consensus_type a = CFT \<and> \<not> require_identity_for_reconfig a
     \<and> log_wf a \<and> commit_idx a \<le> last_idx a \<and> committable_inv a \<and> batch_inv a
     \<and> nodes_inv a \<and> retirement_inv a"

text \<open>What a step may do to its collaborators when \<open>c\<close> is committed.\<close>

fun respects_commit :: "Index \<Rightarrow> event \<Rightarrow> bool" where
  "respects_commit c (LedgerTruncate i) \<longleftrightarrow> c \<le> i"
| "respects_commit c (StoreRollback tx t) \<longleftrightarrow> c \<le> tx_seqno tx"
| "respects_commit c (StoreCompact i) \<longleftrightarrow> c < i"
| "respects_commit c (LedgerCommit i) \<longleftrightarrow> c < i"
| "respects_commit c e \<longleftrightarrow> True"

definition trace_extends :: "Index \<Rightarrow> event list \<Rightarrow> event list \<Rightarrow> bool" where
  "trace_extends c t t' \<longleftrightarrow> (\<exists>es. t' = t @ es \<and> (\<forall>e\<in>set es. respects_commit c e))"

definition evolves :: "Aft \<Rightarrow> Aft \<Rightarrow> bool" where
  "evolves a b \<longleftrightarrow> aft_inv b \<and> commit_idx a \<le> commit_idx b \<and> current_view a \<le> current_view b
     \<and> my_node_id b = my_node_id a \<and> env b = env a
     \<and> trace_extends (commit_idx a) (trace a) (trace b)"

lemma respects_commit_mono: "respects_commit c' e \<Longrightarrow> c \<le> c' \<Longrightarrow> respects_commit c e"
  by (cases e) auto

lemma trace_extends_refl: "trace_extends c t t"
  by (simp add: trace_extends_def)

lemma trace_extends_snoc: "respects_commit c e \<Longrightarrow> trace_extends c t t' \<Longrightarrow> trace_extends c t (t' @ [e])"
  by (force simp: trace_extends_def)

lemma trace_extends_trans:
  assumes "trace_extends c t t'" and "trace_extends c' t' t''" and "c \<le> c'"
  shows "trace_extends c t t''"
  using assms unfolding trace_extends_def
  by (force intro: respects_commit_mono)

lemma evolves_refl: "aft_inv a \<Longrightarrow> evolves a a"
  by (simp add: evolves_def trace_extends_refl)

lemma evolves_trans: "evolves a b \<Longrightarrow> evolves b c \<Longrightarrow> evolves a c"
  by (auto simp: evolves_def intro: trace_extends_trans order_trans)

lemma evolves_inv: "evolves a b \<Longrightarrow> aft_inv b"
  by (simp add: evolves_def)

text \<open>Sequencing: each part evolves from any well-formed state.\<close>

lemma evolves_seqI:
  assumes "evolves a (final m)" and "\<And>b. evolves a b \<Longrightarrow> evolves b (final (f b))"
  shows "evolves a (final (seq m f))"
  using assms(1) by (rule final_seqI) (blast intro: evolves_trans assms(2))

lemma evolves_bindvI:
  assumes "evolves a (final m)" and "\<And>b v. evolves a b \<Longrightarrow> evolves b (final (f b v))"
  shows "evolves a (final (bindv m f))"
  using assms(1) by (rule final_bindvI) (blast intro: evolves_trans assms(2))

text \<open>The same when the second part needs more of the state it starts from.\<close>

lemma evolves_seq_with:
  assumes "evolves a (final m)" and "Q (final m)"
    and "\<And>b. evolves a b \<Longrightarrow> Q b \<Longrightarrow> evolves b (final (f b))"
  shows "evolves a (final (seq m f))"
  using assms(1,2) evolves_trans [OF assms(1) assms(3) [OF assms(1,2)]] by (cases m) simp_all

lemma evolves_bindv_with:
  assumes "evolves a (final m)" and "Q (final m)"
    and "\<And>b v. evolves a b \<Longrightarrow> Q b \<Longrightarrow> evolves b (final (f b v))"
  shows "evolves a (final (bindv m f))"
  using assms(1,2) evolves_trans [OF assms(1) assms(3) [OF assms(1,2)]] by (cases m) simp_all

lemma evolves_for_eachI:
  assumes "aft_inv a" and "\<And>x b. x \<in> set xs \<Longrightarrow> evolves a b \<Longrightarrow> evolves b (final (f x b))"
  shows "evolves a (final (for_each f xs a))"
  using evolves_refl [OF assms(1)]
  by (rule final_for_eachI) (blast intro: evolves_trans assms(2))

section \<open>Updates the invariant does not see\<close>

lemma aft_inv_update_simps [simp]:
  "aft_inv (a\<lparr>leader_id := x1\<rparr>) = aft_inv a"
  "aft_inv (a\<lparr>voted_for := x2\<rparr>) = aft_inv a"
  "aft_inv (a\<lparr>votes_for_me := x3\<rparr>) = aft_inv a"
  "aft_inv (a\<lparr>leadership_state := x4\<rparr>) = aft_inv a"
  "aft_inv (a\<lparr>membership_state := x5\<rparr>) = aft_inv a"
  "aft_inv (a\<lparr>timeout_elapsed := x6\<rparr>) = aft_inv a"
  "aft_inv (a\<lparr>election_index := x7\<rparr>) = aft_inv a"
  "aft_inv (a\<lparr>is_new_follower := x8\<rparr>) = aft_inv a"
  "aft_inv (a\<lparr>should_sign := x9\<rparr>) = aft_inv a"
  "aft_inv (a\<lparr>ticking := x10\<rparr>) = aft_inv a"
  "aft_inv (a\<lparr>learner_nodes := x11\<rparr>) = aft_inv a"
  "aft_inv (a\<lparr>retired_nodes := x12\<rparr>) = aft_inv a"
  "aft_inv (a\<lparr>orc_sets := x13\<rparr>) = aft_inv a"
  "aft_inv (a\<lparr>entry_size_not_limited := x14\<rparr>) = aft_inv a"
  "aft_inv (a\<lparr>entry_count := x15\<rparr>) = aft_inv a"
  "aft_inv (a\<lparr>public_only := x16\<rparr>) = aft_inv a"
  "aft_inv (a\<lparr>trace := x17\<rparr>) = aft_inv a"
  "aft_inv (a\<lparr>current_view := x18\<rparr>) = aft_inv a"
  "aft_inv (a\<lparr>cft_watermark_idx := x19\<rparr>) = aft_inv a"
  "aft_inv (a\<lparr>requested_evidence_from := x20\<rparr>) = aft_inv a"
  "aft_inv (a\<lparr>reconfiguration_type := x21\<rparr>) = aft_inv a"
  "aft_inv (emit e a) = aft_inv a"
  by (simp_all add: aft_inv_def log_wf_def committable_inv_def batch_inv_def nodes_inv_def
      retirement_inv_def)

lemma aft_inv_nodes_values:
  "al_keys ns = al_keys (nodes a) \<Longrightarrow> aft_inv (a\<lparr>nodes := ns\<rparr>) = aft_inv a"
  by (simp add: aft_inv_def log_wf_def committable_inv_def batch_inv_def nodes_inv_def
      retirement_inv_def)

section \<open>Sending\<close>

lemma respects_commit_send: "is_send e \<Longrightarrow> respects_commit c e"
  by (cases e) simp_all

lemma evolves_same_but_sends:
  assumes "aft_inv a" and "same_but_sends a b"
  shows "evolves a b"
proof -
  from assms(2) obtain ns es where b: "b = a\<lparr>nodes := ns, trace := trace a @ es\<rparr>"
    and ns: "al_keys ns = al_keys (nodes a)" and es: "\<forall>e\<in>set es. is_send e"
    unfolding same_but_sends_def by blast
  have "aft_inv (a\<lparr>nodes := ns\<rparr>)" using assms(1) ns by (simp add: aft_inv_nodes_values)
  moreover have "trace_extends (commit_idx a) (trace a) (trace a @ es)"
    using es by (auto simp: trace_extends_def respects_commit_send)
  ultimately show ?thesis unfolding b evolves_def by simp
qed

lemma evolves_send_entries: "aft_inv a \<Longrightarrow> evolves a (final (send_append_entries k i a))"
  by (simp add: evolves_same_but_sends same_but_sends_entries)

lemma evolves_send_to_all: "aft_inv a \<Longrightarrow> evolves a (final (send_append_entries_to_all a))"
  by (simp add: evolves_same_but_sends same_but_sends_to_all)

lemma evolves_send_authenticated: "aft_inv a \<Longrightarrow> evolves a (send_authenticated k m a)"
  by (simp add: evolves_same_but_sends same_but_sends_authenticated)

lemma evolves_send_request_vote: "aft_inv a \<Longrightarrow> evolves a (send_request_vote k a)"
  by (simp add: evolves_same_but_sends same_but_sends_request_vote)

lemma evolves_send_request_vote_response: "aft_inv a \<Longrightarrow> evolves a (send_request_vote_response k g a)"
  by (simp add: evolves_same_but_sends same_but_sends_request_vote_response)

text \<open>Updates that neither the invariant nor the relation sees.\<close>

definition inert :: "Aft \<Rightarrow> Aft \<Rightarrow> bool" where
  "inert a b \<longleftrightarrow> (aft_inv a \<longrightarrow> aft_inv b) \<and> commit_idx b = commit_idx a
     \<and> current_view b = current_view a \<and> my_node_id b = my_node_id a \<and> env b = env a
     \<and> trace b = trace a"

lemma evolves_inert: "aft_inv a \<Longrightarrow> inert a b \<Longrightarrow> evolves a b"
  by (simp add: inert_def evolves_def trace_extends_refl)

lemma evolves_update_first: "inert a b \<Longrightarrow> evolves b c \<Longrightarrow> evolves a c"
  by (simp add: inert_def evolves_def)

lemma evolves_response:
  assumes "aft_inv a"
  shows "evolves a (final (send_append_entries_response k ans rej a))"
proof -
  define b where "b = (if ans = AE_REQUIRE_EVIDENCE then a\<lparr>requested_evidence_from := Some k\<rparr> else a)"
  have ab: "inert a b" by (simp add: inert_def b_def)
  then have b: "aft_inv b" using assms by (simp add: inert_def)
  have "evolves b (final (send_append_entries_response k ans rej a))"
    unfolding send_append_entries_response_def Let_def b_def [symmetric]
    using b by (auto intro: evolves_send_authenticated evolves_refl split: option.split)
  with ab show ?thesis by (rule evolves_update_first)
qed

section \<open>Node states\<close>

fun is_comm :: "event \<Rightarrow> bool" where
  "is_comm (Send k m b) = True"
| "is_comm (AssociateAddress k h p) = True"
| "is_comm e = False"

definition same_but_nodes :: "Aft \<Rightarrow> Aft \<Rightarrow> bool" where
  "same_but_nodes a b \<longleftrightarrow>
     (\<exists>ns es. b = a\<lparr>nodes := ns, trace := trace a @ es\<rparr> \<and> (\<forall>e\<in>set es. is_comm e))"

lemma same_but_nodesI:
  "b = a\<lparr>nodes := ns, trace := trace a @ es\<rparr> \<Longrightarrow> \<forall>e\<in>set es. is_comm e \<Longrightarrow> same_but_nodes a b"
  by (auto simp: same_but_nodes_def)

lemma same_but_nodes_refl: "same_but_nodes a a"
  by (rule same_but_nodesI [where ns = "nodes a" and es = "[]"]) simp_all

lemma same_but_nodes_trans:
  assumes "same_but_nodes a b" and "same_but_nodes b c"
  shows "same_but_nodes a c"
proof -
  from assms obtain ns es ns' es' where
    "b = a\<lparr>nodes := ns, trace := trace a @ es\<rparr>" "c = b\<lparr>nodes := ns', trace := trace b @ es'\<rparr>"
    "\<forall>e\<in>set es. is_comm e" "\<forall>e\<in>set es'. is_comm e"
    by (auto simp: same_but_nodes_def)
  then show ?thesis by (intro same_but_nodesI [where ns = ns' and es = "es @ es'"]) auto
qed

lemma is_comm_send: "is_send e \<Longrightarrow> is_comm e"
  by (cases e) simp_all

lemma same_but_nodes_sends: "same_but_sends a b \<Longrightarrow> same_but_nodes a b"
  by (auto simp: same_but_sends_def intro!: same_but_nodesI is_comm_send)

lemma same_but_nodesD:
  assumes "same_but_nodes a0 a"
  shows "my_node_id a = my_node_id a0" "current_view a = current_view a0"
    "last_idx a = last_idx a0" "commit_idx a = commit_idx a0" "view_history a = view_history a0"
    "leadership_state a = leadership_state a0" "membership_state a = membership_state a0"
    "retirement_phase a = retirement_phase a0" "consensus_type a = consensus_type a0"
    "configurations a = configurations a0" "retirement_idx a = retirement_idx a0"
    "retirement_committable_idx a = retirement_committable_idx a0"
    "committable_indices a = committable_indices a0" "entries_batch_size a = entries_batch_size a0"
    "batch_window_sum a = batch_window_sum a0" "env a = env a0" "voted_for a = voted_for a0"
    "leader_id a = leader_id a0" "votes_for_me a = votes_for_me a0"
    "is_new_follower a = is_new_follower a0" "election_index a = election_index a0"
    "require_identity_for_reconfig a = require_identity_for_reconfig a0"
    "reconfiguration_type a = reconfiguration_type a0"
    "cft_watermark_idx a = cft_watermark_idx a0"
  using assms by (auto simp: same_but_nodes_def)

lemma set_al_keys_fold_emplace:
  "set (al_keys (fold (\<lambda>(k, info) active. smap_emplace k info active) xs active))
   = set (al_keys xs) \<union> set (al_keys active)"
  by (induction xs arbitrary: active) (auto simp: set_keys_smap_emplace)

lemma set_al_keys_active_nodes:
  "set (al_keys (active_nodes confs)) = (\<Union>c\<in>set confs. node_ids (cfg_nodes c))"
proof -
  have "set (al_keys (fold (\<lambda>conf active. fold (\<lambda>(k, info) active. smap_emplace k info active)
      (cfg_nodes conf) active) confs acc)) = (\<Union>c\<in>set confs. node_ids (cfg_nodes c)) \<union> set (al_keys acc)"
    for acc
    by (induction confs arbitrary: acc) (auto simp: set_al_keys_fold_emplace)
  then show ?thesis by (simp add: active_nodes_def al_keys_def)
qed

text \<open>Node states are added without an exception, for exactly the missing nodes.\<close>

definition nodes_wf :: "Aft \<Rightarrow> bool" where
  "nodes_wf a \<longleftrightarrow> log_wf a \<and> distinct (al_keys (nodes a)) \<and> my_node_id a \<notin> set (al_keys (nodes a))"

lemma add_node_state_fresh:
  assumes "k \<noteq> my_node_id a" and "k \<notin> set (al_keys (nodes a))"
  obtains b where "same_but_nodes a b"
    and "nodes b = al_emplace k \<lparr>node_info = info, sent_idx = last_idx a + 1, match_idx = 0,
      last_ack_timeout = 0\<rparr> (nodes a)"
    and "add_node_state (k, info) a =
      (if leadership_state a = Some Leader then send_append_entries k (last_idx a + 1) b else ok b)"
proof
  define ns where "ns = al_emplace k \<lparr>node_info = info, sent_idx = last_idx a + 1, match_idx = 0,
      last_ack_timeout = 0\<rparr> (nodes a)"
  define b where "b = (if env_have_channel (env a) (trace a) k then a
      else emit (AssociateAddress k (hostname info) (port info)) a)\<lparr>nodes := ns\<rparr>"
  show "same_but_nodes a b"
    by (rule same_but_nodesI [where ns = ns and es = "if env_have_channel (env a) (trace a) k then []
        else [AssociateAddress k (hostname info) (port info)]"]) (simp_all add: b_def emit_def)
  show "nodes b = al_emplace k \<lparr>node_info = info, sent_idx = last_idx a + 1, match_idx = 0,
      last_ack_timeout = 0\<rparr> (nodes a)"
    by (simp add: b_def ns_def)
  show "add_node_state (k, info) a =
      (if leadership_state a = Some Leader then send_append_entries k (last_idx a + 1) b else ok b)"
    using assms by (simp add: add_node_state_def Let_def b_def ns_def)
qed

lemma add_node_state_known:
  "k = my_node_id a \<or> k \<in> set (al_keys (nodes a)) \<Longrightarrow> add_node_state (k, info) a = ok a"
  by (auto simp: add_node_state_def)

lemma same_but_nodes_add: "same_but_nodes a (final (add_node_state (k, info) a))"
proof (cases "k = my_node_id a \<or> k \<in> set (al_keys (nodes a))")
  case True
  then show ?thesis by (simp add: add_node_state_known same_but_nodes_refl)
next
  case False
  then obtain b where ab: "same_but_nodes a b" and m: "add_node_state (k, info) a =
      (if leadership_state a = Some Leader then send_append_entries k (last_idx a + 1) b else ok b)"
    using add_node_state_fresh [of k a info] by blast
  have "same_but_nodes b (final (send_append_entries k (last_idx a + 1) b))"
    by (rule same_but_nodes_sends [OF same_but_sends_entries])
  with ab show ?thesis by (auto simp: m intro: same_but_nodes_trans)
qed

lemma add_node_state_spec:
  assumes "nodes_wf a"
  shows "returns (add_node_state (k, info) a) \<and> nodes_wf (final (add_node_state (k, info) a))
    \<and> set (al_keys (nodes (final (add_node_state (k, info) a))))
      = set (al_keys (nodes a)) \<union> ({k} - {my_node_id a})"
proof (cases "k = my_node_id a \<or> k \<in> set (al_keys (nodes a))")
  case True
  with assms show ?thesis by (auto simp: add_node_state_known)
next
  case False
  then obtain b where ab: "same_but_nodes a b"
    and ns: "nodes b = al_emplace k \<lparr>node_info = info, sent_idx = last_idx a + 1, match_idx = 0,
      last_ack_timeout = 0\<rparr> (nodes a)"
    and m: "add_node_state (k, info) a =
      (if leadership_state a = Some Leader then send_append_entries k (last_idx a + 1) b else ok b)"
    using add_node_state_fresh [of k a info] by blast
  have keys: "set (al_keys (nodes b)) = insert k (set (al_keys (nodes a)))" "distinct (al_keys (nodes b))"
    using assms by (simp_all add: ns set_keys_emplace distinct_keys_emplace nodes_wf_def)
  have wf: "nodes_wf b" using assms False keys ab by (auto simp: nodes_wf_def log_wf_def same_but_nodesD)
  let ?f = "final (send_append_entries k (last_idx a + 1) b)"
  have s: "same_but_sends b ?f" by (rule same_but_sends_entries)
  have "returns (send_append_entries k (last_idx a + 1) b)"
    using wf keys(1) by (intro send_append_entries_returns) (simp_all add: nodes_wf_def)
  moreover have "nodes_wf ?f" using wf s
    by (simp add: nodes_wf_def log_wf_same_but_sends same_but_sendsD)
  moreover have "al_keys (nodes ?f) = al_keys (nodes b)" using s by (simp add: same_but_sendsD)
  ultimately show ?thesis using wf keys False by (auto simp: m)
qed

lemma add_node_states_spec:
  assumes "nodes_wf a"
  shows "returns (for_each add_node_state xs a) \<and> nodes_wf (final (for_each add_node_state xs a))
    \<and> set (al_keys (nodes (final (for_each add_node_state xs a))))
        = set (al_keys (nodes a)) \<union> (set (al_keys xs) - {my_node_id a})"
  using assms
proof (induction xs arbitrary: a)
  case Nil
  then show ?case by simp
next
  case (Cons x xs)
  obtain k info where x: "x = (k, info)" by (cases x)
  let ?b = "final (add_node_state (k, info) a)"
  note b = add_node_state_spec [OF Cons.prems, of k info]
  have step: "for_each add_node_state (x # xs) a = for_each add_node_state xs ?b"
    using b by (simp add: x seq_returns)
  have id: "my_node_id ?b = my_node_id a" by (rule same_but_nodesD [OF same_but_nodes_add])
  have "nodes_wf ?b" using b by blast
  note IH = Cons.IH [OF this]
  show ?case unfolding step using b IH id by (auto simp: x)
qed

text \<open>Whatever happens, only the node states and the trace change.\<close>

lemma same_but_nodes_create: "same_but_nodes a (final (create_and_remove_node_state a))"
  unfolding create_and_remove_node_state_def Let_def
proof (rule final_for_eachI)
  show "same_but_nodes a (a\<lparr>nodes := filter (\<lambda>(k, n). k \<in> set (al_keys (active_nodes (configurations a))))
      (nodes a)\<rparr>)"
    by (rule same_but_nodesI [where es = "[]"
          and ns = "filter (\<lambda>(k, n). k \<in> set (al_keys (active_nodes (configurations a)))) (nodes a)"]) simp_all
next
  fix x s assume "same_but_nodes a s"
  then show "same_but_nodes a (final (add_node_state x s))"
    using same_but_nodes_add [of s "fst x" "snd x"] by (auto intro: same_but_nodes_trans)
qed

lemmas create_frame [simp] = same_but_nodesD [OF same_but_nodes_create]

lemma create_and_remove_node_state_spec:
  assumes "nodes_wf a"
  defines "m \<equiv> create_and_remove_node_state a"
  shows "returns m" and "nodes_wf (final m)"
    and "set (al_keys (nodes (final m)))
      = (\<Union>c\<in>set (configurations a). node_ids (cfg_nodes c)) - {my_node_id a}"
proof -
  let ?act = "active_nodes (configurations a)"
  define ns where "ns = filter (\<lambda>(k, n). k \<in> set (al_keys ?act)) (nodes a)"
  let ?b = "a\<lparr>nodes := ns\<rparr>"
  have keys: "al_keys ns = filter (\<lambda>k. k \<in> set (al_keys ?act)) (al_keys (nodes a))"
    by (simp add: ns_def al_keys_filter)
  have b: "nodes_wf ?b" using assms(1) by (simp add: nodes_wf_def keys log_wf_def)
  have m: "m = for_each add_node_state ?act ?b"
    by (simp add: m_def create_and_remove_node_state_def Let_def ns_def)
  note spec = add_node_states_spec [OF b, of ?act]
  show "returns m" "nodes_wf (final m)" using spec by (simp_all add: m)
  show "set (al_keys (nodes (final m)))
      = (\<Union>c\<in>set (configurations a). node_ids (cfg_nodes c)) - {my_node_id a}"
    using spec assms(1) by (auto simp: m keys set_al_keys_active_nodes nodes_wf_def)
qed

text \<open>It re-establishes the invariant after the configurations have changed.\<close>

lemma evolves_create_and_remove:
  assumes "aft_inv (a\<lparr>configurations := cs\<rparr>)"
  shows "evolves a (final (create_and_remove_node_state a))"
proof -
  let ?m = "create_and_remove_node_state a"
  have "nodes_wf a"
    using assms by (simp add: nodes_wf_def aft_inv_def nodes_inv_def log_wf_def)
  note spec = create_and_remove_node_state_spec [OF this]
  from same_but_nodes_create [of a] obtain ns es where eq: "final ?m = a\<lparr>nodes := ns, trace := trace a @ es\<rparr>"
    and es: "\<forall>e\<in>set es. is_comm e" by (auto simp: same_but_nodes_def)
  have "nodes_inv (final ?m)"
    using spec(2,3) unfolding nodes_inv_def nodes_wf_def by (auto simp: eq)
  then have "aft_inv (final ?m)"
    using assms by (auto simp: eq aft_inv_def log_wf_def committable_inv_def batch_inv_def retirement_inv_def)
  moreover have "respects_commit c e" if "is_comm e" for c e using that by (cases e) simp_all
  ultimately show ?thesis using es by (auto simp: eq evolves_def trace_extends_def)
qed

end
