(* ===== verification/Aft_Invariant_Commit.thy ===== *)
theory Aft_Invariant_Commit
  imports Aft_Invariant
begin

text \<open>
  Rollback, commit and reconfiguration keep the node invariant, never lower the commit index
  and never touch what is committed.
\<close>

lemmas aft_inv_defs =
  aft_inv_def log_wf_def committable_inv_def batch_inv_def nodes_inv_def retirement_inv_def

section \<open>Rollback\<close>

lemma set_pop_back_while: "set (pop_back_while p xs) \<subseteq> set xs"
  unfolding pop_back_while_def by (auto dest: set_dropWhileD)

lemma pop_back_while_last: "pop_back_while p xs = [] \<or> \<not> p (last (pop_back_while p xs))"
  using hd_dropWhile [of p "rev xs"] by (auto simp: pop_back_while_def last_rev)

lemma pop_back_while_prefix: "\<exists>ys. xs = pop_back_while p xs @ ys \<and> (\<forall>y\<in>set ys. p y)"
proof -
  have "xs = rev (dropWhile p (rev xs)) @ rev (takeWhile p (rev xs))"
    by (metis rev_append rev_rev_ident takeWhile_dropWhile_id)
  then show ?thesis unfolding pop_back_while_def
    by (intro exI [of _ "rev (takeWhile p (rev xs))"]) (auto dest: set_takeWhileD)
qed

lemma pop_back_while_sorted:
  fixes xs :: "nat list"
  assumes "sorted_wrt (<) xs"
  shows "pop_back_while (\<lambda>i. i > n) xs = filter (\<lambda>i. i \<le> n) xs"
  using assms
proof (induction xs rule: rev_induct)
  case Nil
  then show ?case by (simp add: pop_back_while_def)
next
  case (snoc x xs)
  then show ?case
    by (auto simp: pop_back_while_def sorted_wrt_append intro!: filter_True [symmetric])
qed

lemma inert_rollback_retirement:
  assumes "aft_inv a"
  shows "inert a (final (rollback_retirement idx a))"
proof -
  have r: "retirement_inv a" using assms by (simp add: aft_inv_def)
  have "inert a (a\<lparr>retirement_committable_idx := None, retirement_phase := Some Ordered\<rparr>)"
    if "retirement_phase a = Some Signed"
    using that by (simp add: inert_def aft_inv_defs)
  moreover have "inert a (a\<lparr>retirement_idx := None, retirement_phase := None, membership_state := m\<rparr>)" for m
    by (simp add: inert_def aft_inv_defs)
  moreover have "inert a (a\<lparr>retirement_committable_idx := None, retirement_idx := None,
      retirement_phase := None, membership_state := m\<rparr>)" for m
    by (simp add: inert_def aft_inv_defs)
  moreover have "inert a a" by (simp add: inert_def)
  ultimately show ?thesis
    by (auto simp: rollback_retirement_def split: option.split)
qed

lemma aft_inv_fewer_configurations:
  assumes "aft_inv a" and "set cs \<subseteq> set (configurations a)"
  shows "aft_inv (a\<lparr>configurations := cs\<rparr>)"
proof -
  have "nodes_inv (a\<lparr>configurations := cs\<rparr>)"
    using assms unfolding aft_inv_def nodes_inv_def by simp blast
  with assms(1) show ?thesis
    by (simp add: aft_inv_def log_wf_def committable_inv_def batch_inv_def retirement_inv_def)
qed

lemma evolves_rollback_configurations:
  assumes "aft_inv a"
  shows "evolves a (final (rollback_configurations idx a))"
proof -
  define cs where "cs = pop_back_while (\<lambda>c. cfg_idx c > idx) (configurations a)"
  define b where "b = (if reconfiguration_type a = TWO_TRANSACTION
      then a\<lparr>configurations := cs, learner_nodes := erase_above idx (learner_nodes a),
             retired_nodes := erase_above idx (retired_nodes a)\<rparr>
      else a\<lparr>configurations := cs\<rparr>)"
  have m: "rollback_configurations idx a =
      (if cs \<noteq> configurations a then create_and_remove_node_state b else ok b)"
    by (simp add: rollback_configurations_def Let_def b_def cs_def)
  have sub: "set cs \<subseteq> set (configurations a)" by (simp add: cs_def set_pop_back_while)
  have b: "aft_inv b" "inert a b"
    using aft_inv_fewer_configurations [OF assms sub] by (simp_all add: b_def inert_def)
  have "aft_inv (b\<lparr>configurations := configurations b\<rparr>)" using b(1) by simp
  then have "evolves b (final (create_and_remove_node_state b))"
    by (rule evolves_create_and_remove)
  then show ?thesis
    using evolves_update_first [OF b(2)] evolves_inert [OF assms b(2)] by (simp add: m)
qed

lemma evolves_truncate_log:
  assumes "aft_inv a" and "commit_idx a \<le> idx"
  shows "evolves a (truncate_log idx a)"
proof -
  let ?c = "truncate_log idx a"
  have srt: "sorted_wrt (<) (committable_indices a)" using assms(1) by (simp add: aft_inv_defs)
  have v: "v \<le> max 1 idx" if "v \<in> set (vh_rollback idx (view_history a))" for v
    using set_vh_rollback_le [OF that] by simp
  have "log_wf ?c"
    using assms(1) v by (simp add: aft_inv_def log_wf_def truncate_log_def vh_inv_rollback Let_def)
  moreover have "committable_inv ?c"
    using assms(1) srt
    by (simp add: aft_inv_def committable_inv_def truncate_log_def Let_def pop_back_while_sorted
        sorted_wrt_filter)
  ultimately have "aft_inv ?c"
    using assms
    by (simp add: aft_inv_def truncate_log_def Let_def batch_inv_def nodes_inv_def retirement_inv_def)
  then show ?thesis
    using assms(2) by (simp add: evolves_def truncate_log_def Let_def trace_extends_def)
qed

lemma evolves_rollback:
  assumes "aft_inv a"
  shows "evolves a (final (rollback idx a))"
proof (cases "idx < commit_idx a")
  case True
  with assms show ?thesis by (simp add: rollback_def aft_inv_def evolves_refl)
next
  case False
  let ?c = "truncate_log idx a"
  have ac: "evolves a ?c" using assms False by (simp add: evolves_truncate_log)
  have "evolves ?c (final (seq (rollback_retirement idx ?c) (rollback_configurations idx)))"
  proof (rule evolves_seqI)
    show "evolves ?c (final (rollback_retirement idx ?c))"
      using evolves_inv [OF ac] by (intro evolves_inert inert_rollback_retirement)
  next
    fix d assume "evolves ?c d"
    then show "evolves d (final (rollback_configurations idx d))"
      by (intro evolves_rollback_configurations) (rule evolves_inv)
  qed
  with ac False show ?thesis by (auto simp: rollback_def intro: evolves_trans)
qed

text \<open>What a rollback does: it returns, and drops exactly what lies after \<open>idx\<close>.\<close>

lemma rollback_retirement_frame [simp]:
  "last_idx (final (rollback_retirement idx a)) = last_idx a"
  "commit_idx (final (rollback_retirement idx a)) = commit_idx a"
  "current_view (final (rollback_retirement idx a)) = current_view a"
  "view_history (final (rollback_retirement idx a)) = view_history a"
  "committable_indices (final (rollback_retirement idx a)) = committable_indices a"
  "voted_for (final (rollback_retirement idx a)) = voted_for a"
  "votes_for_me (final (rollback_retirement idx a)) = votes_for_me a"
  "leader_id (final (rollback_retirement idx a)) = leader_id a"
  "leadership_state (final (rollback_retirement idx a)) = leadership_state a"
  "configurations (final (rollback_retirement idx a)) = configurations a"
  "is_new_follower (final (rollback_retirement idx a)) = is_new_follower a"
  "trace (final (rollback_retirement idx a)) = trace a"
  "nodes (final (rollback_retirement idx a)) = nodes a"
  by (simp_all add: rollback_retirement_def split: option.split)

lemma rollback_configurations_frame [simp]:
  "last_idx (final (rollback_configurations idx a)) = last_idx a"
  "commit_idx (final (rollback_configurations idx a)) = commit_idx a"
  "current_view (final (rollback_configurations idx a)) = current_view a"
  "view_history (final (rollback_configurations idx a)) = view_history a"
  "committable_indices (final (rollback_configurations idx a)) = committable_indices a"
  "voted_for (final (rollback_configurations idx a)) = voted_for a"
  "votes_for_me (final (rollback_configurations idx a)) = votes_for_me a"
  "leader_id (final (rollback_configurations idx a)) = leader_id a"
  "leadership_state (final (rollback_configurations idx a)) = leadership_state a"
  "configurations (final (rollback_configurations idx a))
    = pop_back_while (\<lambda>c. cfg_idx c > idx) (configurations a)"
  "is_new_follower (final (rollback_configurations idx a)) = is_new_follower a"
  "membership_state (final (rollback_configurations idx a)) = membership_state a"
  by (simp_all add: rollback_configurations_def Let_def)

lemma rollback_retirement_returns:
  "retirement_inv a \<Longrightarrow> returns (rollback_retirement idx a)"
  by (auto simp: rollback_retirement_def retirement_inv_def split: option.split)

lemma rollback_configurations_returns: "nodes_wf a \<Longrightarrow> returns (rollback_configurations idx a)"
  by (simp add: rollback_configurations_def Let_def create_and_remove_node_state_spec nodes_wf_def
      log_wf_def)

lemma nodes_wf_inv: "aft_inv a \<Longrightarrow> nodes_wf a"
  by (simp add: nodes_wf_def aft_inv_def nodes_inv_def)

lemma rollback_returns:
  assumes "aft_inv a"
  shows "returns (rollback idx a)"
proof (cases "idx < commit_idx a")
  case True
  with assms show ?thesis by (simp add: rollback_def aft_inv_def)
next
  case False
  let ?c = "truncate_log idx a"
  have c: "aft_inv ?c" using assms False by (simp add: evolves_inv [OF evolves_truncate_log])
  then have "aft_inv (final (rollback_retirement idx ?c))"
    using inert_rollback_retirement [OF c] by (simp add: inert_def)
  with c False show ?thesis
    by (simp add: rollback_def returns_seq rollback_configurations_returns nodes_wf_inv)
      (simp add: aft_inv_def rollback_retirement_returns)
qed

lemma truncate_log_simps [simp]:
  "last_idx (truncate_log idx a) = idx"
  "view_history (truncate_log idx a) = vh_rollback idx (view_history a)"
  "committable_indices (truncate_log idx a) = pop_back_while (\<lambda>i. i > idx) (committable_indices a)"
  "commit_idx (truncate_log idx a) = commit_idx a"
  "current_view (truncate_log idx a) = current_view a"
  "voted_for (truncate_log idx a) = voted_for a"
  "votes_for_me (truncate_log idx a) = votes_for_me a"
  "leader_id (truncate_log idx a) = leader_id a"
  "leadership_state (truncate_log idx a) = leadership_state a"
  "is_new_follower (truncate_log idx a) = is_new_follower a"
  "configurations (truncate_log idx a) = configurations a"
  by (simp_all add: truncate_log_def Let_def)

lemma rollback_drops:
  assumes "aft_inv a" and "commit_idx a \<le> idx"
  shows "last_idx (final (rollback idx a)) = idx"
    and "view_history (final (rollback idx a)) = vh_rollback idx (view_history a)"
    and "committable_indices (final (rollback idx a)) = filter (\<lambda>i. i \<le> idx) (committable_indices a)"
    and "configurations (final (rollback idx a))
      = pop_back_while (\<lambda>c. cfg_idx c > idx) (configurations a)"
proof -
  have "aft_inv (truncate_log idx a)" using assms by (simp add: evolves_inv [OF evolves_truncate_log])
  then have "returns (rollback_retirement idx (truncate_log idx a))"
    by (simp add: rollback_retirement_returns aft_inv_def)
  then have m: "final (rollback idx a)
      = final (rollback_configurations idx (final (rollback_retirement idx (truncate_log idx a))))"
    using assms by (simp add: rollback_def final_seq_returns)
  show "last_idx (final (rollback idx a)) = idx"
    "view_history (final (rollback idx a)) = vh_rollback idx (view_history a)"
    "configurations (final (rollback idx a))
      = pop_back_while (\<lambda>c. cfg_idx c > idx) (configurations a)"
    by (simp_all add: m)
  show "committable_indices (final (rollback idx a)) = filter (\<lambda>i. i \<le> idx) (committable_indices a)"
    using assms(1) by (simp add: m pop_back_while_sorted aft_inv_def committable_inv_def)
qed

lemma rollback_frame:
  "commit_idx (final (rollback idx a)) = commit_idx a"
  "current_view (final (rollback idx a)) = current_view a"
  "voted_for (final (rollback idx a)) = voted_for a"
  "votes_for_me (final (rollback idx a)) = votes_for_me a"
  "leader_id (final (rollback idx a)) = leader_id a"
  "leadership_state (final (rollback idx a)) = leadership_state a"
  "is_new_follower (final (rollback idx a)) = is_new_follower a"
  by (simp_all add: rollback_def exec_frame)

lemma last_committable_index_bounds:
  assumes "aft_inv a"
  shows "commit_idx a \<le> last_committable_index a" and "last_committable_index a \<le> last_idx a"
proof -
  have "commit_idx a \<le> last_committable_index a \<and> last_committable_index a \<le> last_idx a"
  proof (cases "committable_indices a = []")
    case True
    with assms show ?thesis by (simp add: last_committable_index_def aft_inv_def)
  next
    case False
    then have "last (committable_indices a) \<in> set (committable_indices a)" by simp
    with assms have "commit_idx a < last (committable_indices a)"
      and "last (committable_indices a) \<le> last_idx a"
      by (simp_all add: aft_inv_def committable_inv_def)
    with False show ?thesis by (simp add: last_committable_index_def)
  qed
  then show "commit_idx a \<le> last_committable_index a" "last_committable_index a \<le> last_idx a"
    by simp_all
qed

section \<open>Commit\<close>

lemma inert_become_retired_Completed:
  "retirement_committable_idx a \<noteq> None \<Longrightarrow> inert a (become_retired idx Completed a)"
  by (simp add: inert_def become_retired_def aft_inv_defs)

lemma inert_become_retired_Ordered: "inert a (become_retired idx Ordered a)"
  by (simp add: inert_def become_retired_def aft_inv_defs)

lemma inert_become_retired_Signed:
  "retirement_phase a = Some Ordered \<Longrightarrow> inert a (become_retired idx Signed a)"
  by (simp add: inert_def become_retired_def aft_inv_defs)

lemma inert_refl: "inert a a"
  by (simp add: inert_def)

lemma inert_trans: "inert a b \<Longrightarrow> inert b c \<Longrightarrow> inert a c"
  by (simp add: inert_def)

lemma inert_observe_own_removal: "inert a (observe_own_removal idx conf nxt a)"
  by (simp add: inert_def observe_own_removal_def become_retiring_def become_retired_def aft_inv_defs)

lemma evolves_emit: "aft_inv a \<Longrightarrow> respects_commit (commit_idx a) e \<Longrightarrow> evolves a (emit e a)"
  by (simp add: evolves_def trace_extends_def)

lemma evolves_cleanup: "aft_inv a \<Longrightarrow> evolves a (cleanup_if_primary a)"
  by (simp add: cleanup_if_primary_def evolves_refl evolves_emit)

lemma evolves_await_switch: "aft_inv a \<Longrightarrow> evolves a (await_switch nxt a)"
  by (simp add: await_switch_def evolves_refl evolves_emit)

lemma evolves_switch:
  assumes "aft_inv a"
  shows "evolves a (switch_configuration conf nxt a)"
proof -
  define b where "b = (if is_learner a \<and> my_node_id a \<in> node_ids (cfg_nodes nxt)
      then a\<lparr>leadership_state := Some Follower, membership_state := Active\<rparr> else a)"
  define c where "c = b\<lparr>learner_nodes := (\<lambda>k. if k \<in> node_ids (cfg_nodes nxt) then None else learner_nodes b k),
      retired_nodes := (\<lambda>k. if k \<in> node_ids (cfg_nodes conf) \<and> k \<notin> node_ids (cfg_nodes nxt)
                            then None else retired_nodes b k)\<rparr>"
  define d where "d = cleanup_if_primary c"
  have m: "switch_configuration conf nxt a = d\<lparr>configurations := tl (configurations d)\<rparr>"
    unfolding switch_configuration_def Let_def d_def c_def b_def ..
  have ac: "inert a c" by (simp add: inert_def c_def b_def)
  then have "aft_inv c" using assms by (simp add: inert_def)
  then have cd: "evolves c d" by (simp add: d_def evolves_cleanup)
  have "set (tl (configurations d)) \<subseteq> set (configurations d)"
    by (cases "configurations d") auto
  with evolves_inv [OF cd] have "aft_inv (d\<lparr>configurations := tl (configurations d)\<rparr>)"
    by (rule aft_inv_fewer_configurations)
  with cd have "evolves c (d\<lparr>configurations := tl (configurations d)\<rparr>)"
    by (simp add: evolves_def)
  with ac show ?thesis unfolding m by (rule evolves_update_first)
qed

lemma identity_ready_inv: "aft_inv a \<Longrightarrow> identity_ready idx nxt a = Some True"
  by (simp add: identity_ready_def aft_inv_def)

text \<open>The loop over the configurations returns, and every configuration it keeps was there.\<close>

lemma commit_configurations_evolves:
  "aft_inv a \<Longrightarrow> evolves a (final (commit_configurations idx changed a))
     \<and> returns (commit_configurations idx changed a)"
proof (induction idx changed a rule: commit_configurations.induct)
  case (1 idx changed a)
  show ?case
  proof (cases "\<exists>conf nxt rest. configurations a = conf # nxt # rest \<and> \<not> idx < cfg_idx nxt")
    case False
    then have "commit_configurations idx changed a = Done a changed"
      by (subst commit_configurations.simps) (auto split: list.split)
    with 1(3) show ?thesis by (simp add: evolves_refl)
  next
    case True
    then obtain conf nxt rest where cs: "configurations a = conf # nxt # rest"
      and idx: "\<not> idx < cfg_idx nxt" by blast
    let ?o = "observe_own_removal idx conf nxt a"
    let ?p = "cleanup_if_primary (a\<lparr>configurations := nxt # rest\<rparr>)"
    let ?s = "switch_configuration conf nxt ?o"
    have p: "evolves a ?p"
    proof -
      have "aft_inv (a\<lparr>configurations := nxt # rest\<rparr>)"
        using 1(3) cs by (intro aft_inv_fewer_configurations) auto
      from evolves_cleanup [OF this] show ?thesis by (simp add: evolves_def)
    qed
    have ao: "evolves a ?o" using 1(3) by (simp add: evolves_inert inert_observe_own_removal)
    have s: "evolves a ?s" "evolves a (await_switch nxt ?o)"
      using ao evolves_switch [OF evolves_inv [OF ao]] evolves_await_switch [OF evolves_inv [OF ao]]
      by (blast intro: evolves_trans)+
    have step: "commit_configurations idx changed a =
       (if reconfiguration_type a = ONE_TRANSACTION then commit_configurations idx True ?p
        else if ready_to_switch conf nxt ?o then commit_configurations idx changed ?s
        else Done (await_switch nxt ?o) changed)"
      by (subst commit_configurations.simps) (simp add: cs idx identity_ready_inv 1(3))
    show ?thesis
      unfolding step
      using 1(1) [OF cs refl idx identity_ready_inv [OF 1(3)] refl _ evolves_inv [OF p]]
        1(2) [OF cs refl idx identity_ready_inv [OF 1(3)] refl _ _ evolves_inv [OF s(1)]] p s
      by (auto intro: evolves_trans)
  qed
qed

lemma evolves_advance_commit:
  assumes "aft_inv a" and "\<And>i. i \<in> set (committable_indices a) \<Longrightarrow> idx < i"
    and "idx \<le> last_idx a" and "commit_idx a < idx"
  shows "evolves a (advance_commit idx a)"
proof -
  define b where "b = a\<lparr>commit_idx := idx\<rparr>"
  define c where "c = (if is_retired b \<and> retirement_phase b = Some Signed
      \<and> (case retirement_committable_idx b of None \<Rightarrow> False | Some c \<Rightarrow> idx \<ge> c)
      then become_retired idx Completed b else b)"
  have m: "advance_commit idx a = emit (LedgerCommit idx) (emit (StoreCompact idx) c)"
    unfolding advance_commit_def c_def b_def Let_def ..
  have "aft_inv b" using assms
    by (simp add: aft_inv_def log_wf_def committable_inv_def batch_inv_def nodes_inv_def
        retirement_inv_def b_def)
  moreover have "inert b c"
    by (auto simp: c_def inert_refl split: option.split intro!: inert_become_retired_Completed)
  ultimately have "aft_inv c" "commit_idx c = idx" "trace c = trace a" "my_node_id c = my_node_id a"
    "current_view c = current_view a" "env c = env a"
    by (simp_all add: inert_def b_def)
  then show ?thesis
    using assms(4) by (simp add: evolves_def m trace_extends_def)
qed

lemma evolves_finish_commit:
  assumes "aft_inv a"
  shows "evolves a (final (finish_commit idx a changed))"
proof -
  define f where "f = (if env_resharing_tracker (env a) \<noteq> None then emit (CompactResharing idx) a else a)"
  have ef: "evolves a f" using assms by (simp add: f_def evolves_refl evolves_emit)
  have "aft_inv (f\<lparr>configurations := configurations f\<rparr>)" using evolves_inv [OF ef] by simp
  from evolves_trans [OF ef evolves_create_and_remove [OF this]] ef
  show ?thesis unfolding finish_commit_def Let_def f_def [symmetric] by simp
qed

lemma evolves_commit:
  assumes "aft_inv a" and "\<And>i. i \<in> set (committable_indices a) \<Longrightarrow> idx < i"
  shows "evolves a (final (commit idx a))"
proof (cases "idx \<le> last_idx a \<and> commit_idx a < idx")
  case False
  with assms(1) show ?thesis by (auto simp: commit_def evolves_refl)
next
  case True
  with assms have ad: "evolves a (advance_commit idx a)" by (simp add: evolves_advance_commit)
  have "evolves (advance_commit idx a) (final (bindv (commit_configurations idx False
      (advance_commit idx a)) (finish_commit idx)))"
  proof (rule evolves_bindvI)
    show "evolves (advance_commit idx a) (final (commit_configurations idx False (advance_commit idx a)))"
      using commit_configurations_evolves [OF evolves_inv [OF ad]] by blast
  next
    fix e changed assume "evolves (advance_commit idx a) e"
    then show "evolves e (final (finish_commit idx e changed))"
      by (intro evolves_finish_commit) (rule evolves_inv)
  qed
  with True evolves_trans [OF ad] show ?thesis by (simp add: commit_def not_le)
qed

text \<open>Popping the committable indices up to \<open>idx\<close> prepares the commit of the last of them.\<close>

lemma pop_committable:
  fixes idx :: Index
  assumes "aft_inv a"
  defines "b \<equiv> a\<lparr>committable_indices := dropWhile (\<lambda>i. i \<le> idx) (committable_indices a)\<rparr>"
  shows "aft_inv b"
    and "takeWhile (\<lambda>i. i \<le> idx) (committable_indices a) \<noteq> [] \<Longrightarrow> i \<in> set (committable_indices b) \<Longrightarrow>
      last (takeWhile (\<lambda>i. i \<le> idx) (committable_indices a)) < i"
proof -
  let ?cs = "committable_indices a"
  have srt: "sorted_wrt (<) ?cs" using assms(1) by (simp add: aft_inv_defs)
  have sub: "set (dropWhile (\<lambda>i. i \<le> idx) ?cs) \<subseteq> set ?cs" by (auto dest: set_dropWhileD)
  show "aft_inv b"
    using assms(1) sub srt
    by (auto simp: aft_inv_def log_wf_def committable_inv_def batch_inv_def nodes_inv_def
        retirement_inv_def b_def intro: sorted_wrt_dropWhile)
  have app: "sorted_wrt (<) (takeWhile (\<lambda>i. i \<le> idx) ?cs @ dropWhile (\<lambda>i. i \<le> idx) ?cs)"
    using srt by simp
  assume ne: "takeWhile (\<lambda>i. i \<le> idx) ?cs \<noteq> []" and "i \<in> set (committable_indices b)"
  then show "last (takeWhile (\<lambda>i. i \<le> idx) ?cs) < i"
    using app last_in_set [OF ne] unfolding sorted_wrt_append b_def by simp
qed

lemma evolves_commit_if_possible:
  assumes "aft_inv a"
  shows "evolves a (final (commit_if_possible idx a))"
proof -
  define b where "b = a\<lparr>committable_indices := dropWhile (\<lambda>i. i \<le> idx) (committable_indices a)\<rparr>"
  note b = pop_committable [OF assms, of idx, folded b_def]
  have ab: "evolves a b" using b(1) by (simp add: evolves_def b_def trace_extends_refl)
  have "evolves b (final (commit (last (takeWhile (\<lambda>i. i \<le> idx) (committable_indices a))) b))"
    if "takeWhile (\<lambda>i. i \<le> idx) (committable_indices a) \<noteq> []"
    using b(2) [OF that] by (rule evolves_commit [OF b(1)])
  with ab assms show ?thesis
    by (auto simp: commit_if_possible_def Let_def b_def evolves_refl intro: evolves_trans)
qed

lemma evolves_update_commit:
  assumes "aft_inv a"
  shows "evolves a (final (update_commit a))"
proof -
  have "evolves a (final (commit_if_possible w (a\<lparr>cft_watermark_idx := w\<rparr>)))" for w
    using evolves_commit_if_possible [of "a\<lparr>cft_watermark_idx := w\<rparr>" w] assms
    by (simp add: evolves_def)
  moreover have "evolves a (a\<lparr>cft_watermark_idx := w\<rparr>)" for w
    using assms by (simp add: evolves_def trace_extends_refl)
  ultimately show ?thesis
    using assms by (simp add: update_commit_def Let_def get_commit_watermark_idx_def evolves_refl
        evolves_commit_if_possible split: option.split)
qed

section \<open>Reconfiguration\<close>

lemma inert_observe_promotions: "inert a (observe_promotions new nids a)"
proof (induction nids arbitrary: a)
  case Nil
  then show ?case by (simp add: inert_refl)
next
  case (Cons nid nids)
  define b where "b = (if nid \<in> set (al_keys (nodes a)) \<and> learner_nodes a nid \<noteq> None \<and> nid \<notin> new
      then a\<lparr>learner_nodes := (learner_nodes a)(nid := None)\<rparr> else a)"
  define c where "c = (if is_learner b \<and> nid = my_node_id b
      then b\<lparr>leadership_state := Some Follower, membership_state := Active\<rparr> else b)"
  have "observe_promotions new (nid # nids) a = observe_promotions new nids c"
    unfolding observe_promotions.simps Let_def c_def b_def ..
  moreover have "inert a c" by (simp add: inert_def c_def b_def)
  ultimately show ?case using Cons.IH [of c] by (simp add: inert_trans)
qed

lemma inert_observe_configuration:
  "inert a (observe_configuration_1tx idx conf a)"
  "inert a (observe_configuration_2tx idx conf learners retired a)"
proof -
  show "inert a (observe_configuration_1tx idx conf a)"
    by (simp add: observe_configuration_1tx_def inert_refl inert_become_retired_Ordered)
  define b where "b = (if configurations a \<noteq> []
      \<and> my_node_id a \<notin> node_ids (cfg_nodes (last (configurations a))) \<and> my_node_id a \<notin> node_ids conf
      \<and> (is_retiring a \<or> (is_retired a \<and> retirement_phase a = Some Committed))
      then become_retired idx Ordered a else a)"
  define c where "c = b\<lparr>learner_nodes := note_nodes learners idx (learner_nodes b),
      retired_nodes := note_nodes retired idx (retired_nodes b)\<rparr>"
  define d where "d = (if configurations c \<noteq> [] then observe_promotions learners (al_keys conf) c else c)"
  have "observe_configuration_2tx idx conf learners retired a =
      (if orc_sets d idx = None then d\<lparr>orc_sets := (orc_sets d)(idx \<mapsto> {})\<rparr> else d)"
    unfolding observe_configuration_2tx_def Let_def d_def c_def b_def ..
  moreover have "inert a b" by (simp add: b_def inert_refl inert_become_retired_Ordered)
  moreover have "inert b c" by (simp add: c_def inert_def)
  moreover have "inert c d" by (simp add: d_def inert_refl inert_observe_promotions)
  moreover have "inert d (d\<lparr>orc_sets := x\<rparr>)" for x by (simp add: inert_def)
  ultimately show "inert a (observe_configuration_2tx idx conf learners retired a)"
    by (auto intro: inert_trans)
qed

lemma evolves_add_configuration:
  assumes "aft_inv a"
  shows "evolves a (final (add_configuration idx conf learners retired a))"
proof -
  define b where "b = (if reconfiguration_type a = ONE_TRANSACTION
      then observe_configuration_1tx idx conf a
      else observe_configuration_2tx idx conf learners retired a)"
  have ab: "inert a b" by (simp add: b_def inert_observe_configuration)
  then have b: "aft_inv b" using assms by (simp add: inert_def)
  define nc where "nc = \<lparr>cfg_idx = idx, cfg_nodes = conf, cfg_bft_offset = 0, cfg_rid = idx\<rparr>"
  define c where "c = b\<lparr>configurations := configurations b @ [nc]\<rparr>"
  define d where "d = (if reconfiguration_type c = TWO_TRANSACTION \<and> env_resharing_tracker (env c) \<noteq> None
      then let c = emit (TrackConfiguration nc) c in if is_primary c then emit (Reshare nc) c else c
      else c)"
  have m: "add_configuration idx conf learners retired a =
      (if conf \<noteq> cfg_nodes (configurations_back b) then create_and_remove_node_state d else ok b)"
    unfolding add_configuration_def Let_def d_def c_def nc_def b_def ..
  have "aft_inv (d\<lparr>configurations := configurations b\<rparr>)"
    using b by (simp add: d_def c_def Let_def aft_inv_defs)
  then have "evolves d (final (create_and_remove_node_state d))"
    by (rule evolves_create_and_remove)
  then have "evolves b (final (create_and_remove_node_state d))"
    by (auto simp: evolves_def d_def c_def Let_def trace_extends_def split: if_splits)
  with ab b show ?thesis
    unfolding m using evolves_update_first [OF ab] evolves_inert [OF assms ab] by simp
qed

lemma evolves_add_resharing_result:
  "aft_inv a \<Longrightarrow> evolves a (final (add_resharing_result i rid res a))"
  by (simp add: add_resharing_result_def evolves_refl evolves_emit)

lemma evolves_call_hook: "aft_inv a \<Longrightarrow> evolves a (final (call_hook h a))"
proof (cases h)
  case (ConfigurationChangeHook v delta learners retired)
  moreover assume "aft_inv a"
  ultimately show ?thesis by (simp add: Let_def evolves_refl evolves_add_configuration)
next
  case (ResharingsHook v results)
  moreover assume a: "aft_inv a"
  have "evolves a (final (for_each (\<lambda>(rid, res). add_resharing_result v rid res) results a))"
    using a by (rule evolves_for_eachI)
      (auto intro: evolves_add_resharing_result dest: evolves_inv)
  ultimately show ?thesis by simp
qed

lemma evolves_call_hooks: "aft_inv a \<Longrightarrow> evolves a (final (for_each call_hook hs a))"
  by (rule evolves_for_eachI) (auto intro: evolves_call_hook dest: evolves_inv)

text \<open>Hooks leave the log and the vote alone.\<close>

definition same_log :: "Aft \<Rightarrow> Aft \<Rightarrow> bool" where
  "same_log a b \<longleftrightarrow> last_idx b = last_idx a \<and> view_history b = view_history a
     \<and> committable_indices b = committable_indices a \<and> commit_idx b = commit_idx a
     \<and> current_view b = current_view a \<and> voted_for b = voted_for a
     \<and> is_new_follower b = is_new_follower a \<and> cft_watermark_idx b = cft_watermark_idx a"

lemma same_log_refl: "same_log a a"
  by (simp add: same_log_def)

lemma same_log_trans: "same_log a b \<Longrightarrow> same_log b c \<Longrightarrow> same_log a c"
  by (simp add: same_log_def)

lemma same_log_nodes: "same_but_nodes a b \<Longrightarrow> same_log a b"
  by (simp add: same_log_def same_but_nodesD)

lemma same_log_become_retired: "same_log a (become_retired i ph a)"
  by (cases ph) (simp_all add: same_log_def become_retired_def)

lemma same_log_observe_promotions: "same_log a (observe_promotions new nids a)"
  by (induction nids arbitrary: a) (auto simp: Let_def same_log_def)

lemma same_log_observe:
  "same_log a (observe_configuration_1tx idx conf a)"
  "same_log a (observe_configuration_2tx idx conf learners retired a)"
  using same_log_become_retired [of a idx Ordered] same_log_observe_promotions
  by (simp_all add: observe_configuration_1tx_def observe_configuration_2tx_def Let_def same_log_def)

lemma same_log_add_configuration:
  "same_log a (final (add_configuration idx conf learners retired a))"
proof -
  define b where "b = (if reconfiguration_type a = ONE_TRANSACTION
      then observe_configuration_1tx idx conf a
      else observe_configuration_2tx idx conf learners retired a)"
  have "same_log a b" by (simp add: b_def same_log_observe)
  then show ?thesis
    unfolding add_configuration_def b_def [symmetric] Let_def by (simp add: same_log_def)
qed

lemma same_log_call_hook: "same_log a (final (call_hook h a))"
proof (cases h)
  case (ConfigurationChangeHook v delta learners retired)
  then show ?thesis by (simp add: Let_def same_log_refl same_log_add_configuration)
next
  case (ResharingsHook v results)
  have "same_log a (final (for_each (\<lambda>(rid, res). add_resharing_result v rid res) results a))"
    by (rule final_for_eachI)
      (auto simp: same_log_refl add_resharing_result_def same_log_def split: if_splits)
  with ResharingsHook show ?thesis by simp
qed

lemma same_log_call_hooks: "same_log a (final (for_each call_hook hs a))"
proof (rule final_for_eachI)
  fix h b assume "same_log a b"
  from this same_log_call_hook show "same_log a (final (call_hook h b))" by (rule same_log_trans)
qed (rule same_log_refl)

text \<open>A commit moves the commit index and nothing else of the log.\<close>

definition same_tip :: "Aft \<Rightarrow> Aft \<Rightarrow> bool" where
  "same_tip a b \<longleftrightarrow> last_idx b = last_idx a \<and> view_history b = view_history a
     \<and> current_view b = current_view a \<and> voted_for b = voted_for a
     \<and> is_new_follower b = is_new_follower a"

lemma same_tip_commit_configurations: "same_tip a (final (commit_configurations idx changed a))"
proof (induction idx changed a rule: commit_configurations.induct)
  case (1 idx changed a)
  have o: "same_tip a (observe_own_removal idx conf nxt a)" for conf nxt
    by (simp add: same_tip_def observe_own_removal_def become_retiring_def become_retired_def)
  have s: "same_tip b (switch_configuration conf nxt b)" for b conf nxt
    by (simp add: same_tip_def switch_configuration_def Let_def cleanup_if_primary_def)
  show ?case
    using 1 o s
    by (subst commit_configurations.simps)
      (auto simp: same_tip_def await_switch_def cleanup_if_primary_def split: list.split option.split bool.split)
qed

lemma same_tip_advance_commit: "same_tip a (advance_commit idx a)"
  by (simp add: advance_commit_def same_tip_def become_retired_def Let_def)

lemma same_tip_finish_commit: "same_tip a (final (finish_commit idx a changed))"
  by (simp add: finish_commit_def same_tip_def Let_def)

lemma same_tip_trans: "same_tip a b \<Longrightarrow> same_tip b c \<Longrightarrow> same_tip a c"
  by (simp add: same_tip_def)

lemma same_tip_commit: "same_tip a (final (commit idx a))"
proof (cases "idx \<le> last_idx a \<and> commit_idx a < idx")
  case False
  then show ?thesis by (auto simp: commit_def same_tip_def)
next
  case True
  have "same_tip a (final (bindv (commit_configurations idx False (advance_commit idx a)) (finish_commit idx)))"
  proof (rule final_bindvI)
    show "same_tip a (final (commit_configurations idx False (advance_commit idx a)))"
      using same_tip_advance_commit same_tip_commit_configurations by (rule same_tip_trans)
  next
    fix b changed assume "same_tip a b"
    then show "same_tip a (final (finish_commit idx b changed))"
      using same_tip_finish_commit by (rule same_tip_trans)
  qed
  with True show ?thesis by (simp add: commit_def not_le)
qed

lemma same_tip_commit_if_possible: "same_tip a (final (commit_if_possible idx a))"
  using same_tip_commit [of "a\<lparr>committable_indices := dropWhile (\<lambda>i. i \<le> idx) (committable_indices a)\<rparr>"]
  by (simp add: commit_if_possible_def Let_def same_tip_def)

end
