(* ===== verification/Aft_Invariant_Node.thy ===== *)
theory Aft_Invariant_Node
  imports Aft_Invariant_Commit
begin

text \<open>
  Elections, replication, the clock and message handling keep the node invariant; with it, no
  handler runs forever.
\<close>

section \<open>Roles\<close>

lemma inert_reset_last_ack_timeouts: "inert a (reset_last_ack_timeouts a)"
  by (simp add: inert_def reset_last_ack_timeouts_def aft_inv_nodes_values al_keys_map)

lemma inert_clear_orc_sets: "inert a (clear_orc_sets a)"
  by (simp add: inert_def clear_orc_sets_def)

lemma evolves_restart_election_timeout: "aft_inv a \<Longrightarrow> evolves a (restart_election_timeout a)"
  by (simp add: restart_election_timeout_def Let_def evolves_def trace_extends_def)

lemma evolves_become_follower:
  assumes "aft_inv a"
  shows "evolves a (final (become_follower a))"
proof -
  define b where "b = restart_election_timeout (a\<lparr>leader_id := None\<rparr>)"
  define c where "c = reset_last_ack_timeouts (clear_orc_sets b)"
  let ?rest = "\<lambda>a. if can_endorse_primary a \<and> membership_state a \<noteq> RetirementInitiated
      then ok (a\<lparr>leadership_state := Some Follower\<rparr>) else ok a"
  have m: "become_follower a = seq (rollback (last_committable_index c) c) ?rest"
    by (simp add: become_follower_def Let_def b_def c_def)
  have "evolves (a\<lparr>leader_id := None\<rparr>) b"
    using assms by (simp add: b_def evolves_restart_election_timeout)
  then have ab: "evolves a b" by (simp add: evolves_def)
  have "inert b c"
    unfolding c_def by (rule inert_trans [OF inert_clear_orc_sets inert_reset_last_ack_timeouts])
  with evolves_inv [OF ab] have bc: "evolves b c" by (rule evolves_inert)
  have "evolves c (final (seq (rollback (last_committable_index c) c) ?rest))"
  proof (rule evolves_seqI)
    show "evolves c (final (rollback (last_committable_index c) c))"
      using evolves_inv [OF bc] by (rule evolves_rollback)
  next
    fix d assume "evolves c d"
    then have "aft_inv d" by (rule evolves_inv)
    then show "evolves d (final (?rest d))" by (simp add: evolves_def trace_extends_refl)
  qed
  from evolves_trans [OF evolves_trans [OF ab bc] this] show ?thesis unfolding m .
qed

lemma evolves_become_aware:
  assumes "aft_inv a" and "current_view a \<le> t"
  shows "evolves a (final (become_aware_of_new_term t a))"
proof -
  let ?b = "a\<lparr>current_view := t, voted_for := None, votes_for_me := {}\<rparr>"
  have ab: "evolves a ?b" using assms by (simp add: evolves_def trace_extends_refl)
  have "evolves ?b (final (seq (become_follower ?b) (\<lambda>a. ok (a\<lparr>is_new_follower := True\<rparr>))))"
  proof (rule evolves_seqI)
    show "evolves ?b (final (become_follower ?b))"
      using evolves_inv [OF ab] by (rule evolves_become_follower)
  next
    fix d assume "evolves ?b d"
    then have "aft_inv d" by (rule evolves_inv)
    then show "evolves d (final (ok (d\<lparr>is_new_follower := True\<rparr>)))"
      by (simp add: evolves_def trace_extends_refl)
  qed
  with ab show ?thesis unfolding become_aware_of_new_term_def by (rule evolves_trans)
qed

lemma evolves_announce_leadership:
  assumes "aft_inv a"
  shows "evolves a (final (announce_leadership n k a))"
proof -
  let ?b = "a\<lparr>nodes := al_update k (\<lambda>x. x\<lparr>match_idx := 0, sent_idx := n - 1\<rparr>) (nodes a)\<rparr>"
  have "inert a ?b" by (simp add: inert_def aft_inv_nodes_values)
  moreover have "aft_inv ?b" using assms by (simp add: aft_inv_nodes_values)
  ultimately show ?thesis
    unfolding announce_leadership_def by (blast intro: evolves_update_first evolves_send_entries)
qed

lemma evolves_become_leader:
  assumes "aft_inv a"
  shows "evolves a (final (become_leader a))"
proof (cases "is_retired a")
  case True
  with assms show ?thesis by (simp add: become_leader_def evolves_refl)
next
  case False
  define b where "b = a\<lparr>election_index := last_committable_index a, committable_indices := []\<rparr>"
  define rest where "rest = (\<lambda>a. let a = a\<lparr>leadership_state := Some Leader, leader_id := Some (my_node_id a),
         should_sign := True, timeout_elapsed := 0\<rparr>; a = reset_last_ack_timeouts a
       in if nodes a = [] then commit (last_idx a) a
          else for_each (announce_leadership (last_idx a + 1)) (al_keys (nodes a)) a)"
  have m: "become_leader a = seq (if commit_idx b > 0 then rollback (election_index b) b
      else ok (emit (StoreInitialiseTerm (current_view b)) b)) rest"
    using False unfolding become_leader_def Let_def b_def rest_def by simp
  have b: "aft_inv b" "evolves a b"
    using assms by (simp_all add: b_def evolves_def trace_extends_refl aft_inv_defs)
  let ?first = "if commit_idx b > 0 then rollback (election_index b) b
      else ok (emit (StoreInitialiseTerm (current_view b)) b)"
  have first: "evolves b (final ?first)"
    using b(1) by (simp add: evolves_rollback evolves_emit)
  have "commit_idx b \<le> election_index b"
    using last_committable_index_bounds(1) [OF assms] by (simp add: b_def)
  then have none: "committable_indices (final ?first) = []"
    using rollback_drops(3) [OF b(1)] by (simp add: b_def)
  have rest: "evolves c (final (rest c))" if c: "aft_inv c" and "committable_indices c = []" for c
  proof -
    define d where "d = c\<lparr>leadership_state := Some Leader, leader_id := Some (my_node_id c),
         should_sign := True, timeout_elapsed := 0\<rparr>"
    define e where "e = reset_last_ack_timeouts d"
    have "inert c d" by (simp add: inert_def d_def)
    then have ce: "inert c e" unfolding e_def by (rule inert_trans [OF _ inert_reset_last_ack_timeouts])
    then have e: "aft_inv e" using c by (simp add: inert_def)
    have "committable_indices e = []" by (simp add: e_def d_def reset_last_ack_timeouts_def that(2))
    then have "evolves e (final (commit (last_idx e) e))"
      using e by (intro evolves_commit) simp_all
    moreover have "evolves e (final (for_each (announce_leadership (last_idx e + 1)) (al_keys (nodes e)) e))"
      using e by (rule evolves_for_eachI) (auto intro: evolves_announce_leadership dest: evolves_inv)
    ultimately show ?thesis
      unfolding rest_def Let_def e_def [symmetric] d_def [symmetric]
      by (simp add: evolves_update_first [OF ce])
  qed
  have "evolves b (final (seq ?first rest))"
    using first none
  proof (rule evolves_seq_with)
    fix c assume "evolves b c" and "committable_indices c = []"
    then show "evolves c (final (rest c))" by (intro rest) (simp_all add: evolves_def)
  qed
  with b(2) show ?thesis unfolding m by (rule evolves_trans)
qed

lemma evolves_add_vote_for_me:
  assumes "aft_inv a"
  shows "evolves a (final (add_vote_for_me from a))"
proof -
  let ?b = "a\<lparr>votes_for_me := insert from (votes_for_me a)\<rparr>"
  have ab: "inert a ?b" by (simp add: inert_def)
  have "evolves a (final (become_leader ?b))"
    using assms by (intro evolves_update_first [OF ab] evolves_become_leader) simp
  with assms evolves_inert [OF assms ab] show ?thesis
    by (simp add: add_vote_for_me_def Let_def evolves_refl)
qed

lemma evolves_become_candidate:
  assumes "aft_inv a"
  shows "evolves a (final (become_candidate a))"
proof -
  define b where "b = clear_orc_sets (a\<lparr>leadership_state := Some Candidate, leader_id := None\<rparr>)"
  define c where "c = b\<lparr>voted_for := Some (my_node_id b), votes_for_me := {},
      current_view := current_view b + 1\<rparr>"
  define d where "d = reset_last_ack_timeouts (restart_election_timeout c)"
  let ?rest = "\<lambda>a. if consensus_type a \<noteq> BFT
      then for_each (\<lambda>k a. ok (send_request_vote k a)) (al_keys (nodes a)) a else ok a"
  have m: "become_candidate a = seq (add_vote_for_me (my_node_id d) d) ?rest"
    unfolding become_candidate_def Let_def d_def c_def b_def ..
  have "inert a b"
    using inert_clear_orc_sets [of "a\<lparr>leadership_state := Some Candidate, leader_id := None\<rparr>"]
    by (simp add: inert_def b_def)
  then have ac: "evolves a c" using assms by (simp add: inert_def evolves_def c_def trace_extends_refl)
  have "evolves c (restart_election_timeout c)"
    using evolves_inv [OF ac] by (rule evolves_restart_election_timeout)
  then have cd: "evolves c d"
    unfolding d_def using evolves_inert [OF evolves_inv inert_reset_last_ack_timeouts]
    by (blast intro: evolves_trans)
  have "evolves d (final (seq (add_vote_for_me (my_node_id d) d) ?rest))"
  proof (rule evolves_seqI)
    show "evolves d (final (add_vote_for_me (my_node_id d) d))"
      using evolves_inv [OF cd] by (rule evolves_add_vote_for_me)
  next
    fix e assume "evolves d e"
    then have e: "aft_inv e" by (rule evolves_inv)
    have "evolves e (final (for_each (\<lambda>k a. ok (send_request_vote k a)) (al_keys (nodes e)) e))"
      using e by (rule evolves_for_eachI) (auto intro: evolves_send_request_vote dest: evolves_inv)
    with e show "evolves e (final (?rest e))" by (simp add: evolves_refl)
  qed
  from evolves_trans [OF evolves_trans [OF ac cd] this] show ?thesis unfolding m .
qed

lemma evolves_answer_request_vote:
  assumes "aft_inv a"
  shows "evolves a (answer_request_vote from r a)"
proof -
  define b where "b = (restart_election_timeout a)\<lparr>leader_id := None, voted_for := Some from\<rparr>"
  have ab: "evolves a b"
    using evolves_restart_election_timeout [OF assms] by (simp add: b_def evolves_def)
  then have "evolves a (send_request_vote_response from True b)"
    using evolves_send_request_vote_response [OF evolves_inv [OF ab]] by (blast intro: evolves_trans)
  with assms show ?thesis
    by (simp add: answer_request_vote_def evolves_send_request_vote_response flip: b_def)
qed

lemma evolves_recv_request_vote:
  assumes "aft_inv a"
  shows "evolves a (final (recv_request_vote from r a))"
proof (cases "current_view a > rv_term r")
  case True
  with assms show ?thesis by (simp add: recv_request_vote_def evolves_send_request_vote_response)
next
  case False
  have "evolves a (final (seq (if current_view a < rv_term r
      then become_aware_of_new_term (rv_term r) a else ok a) (\<lambda>a. ok (answer_request_vote from r a))))"
    by (rule evolves_seqI)
      (auto simp: assms evolves_become_aware evolves_refl intro: evolves_answer_request_vote
        dest: evolves_inv)
  with False show ?thesis by (simp add: recv_request_vote_def)
qed

lemma evolves_recv_request_vote_response:
  "aft_inv a \<Longrightarrow> evolves a (final (recv_request_vote_response from r a))"
  by (simp add: recv_request_vote_response_def evolves_refl evolves_become_aware evolves_add_vote_for_me)

section \<open>The log grows\<close>

lemma evolves_with_history_update:
  assumes "aft_inv a" and "0 < idx" and "idx \<le> max 1 (last_idx a)"
  shows "evolves a (final (with_history (vh_update idx t (view_history a)) a))"
proof -
  define vh where "vh = final (vh_update idx t (view_history a))"
  have m: "final (with_history (vh_update idx t (view_history a)) a) = a\<lparr>view_history := vh\<rparr>"
    by (cases "vh_update idx t (view_history a)") (simp_all add: with_history_def vh_def)
  have "set vh \<subseteq> insert idx (set (view_history a))" by (simp add: vh_def set_vh_update_subset)
  moreover have "vh_inv vh" using assms by (simp add: vh_def aft_inv_def log_wf_def vh_inv_update)
  ultimately have "log_wf (a\<lparr>view_history := vh\<rparr>)"
    using assms(1,3) by (auto simp: aft_inv_def log_wf_def)
  then have "aft_inv (a\<lparr>view_history := vh\<rparr>)"
    using assms(1) by (simp add: aft_inv_def committable_inv_def batch_inv_def nodes_inv_def retirement_inv_def)
  then show ?thesis by (simp add: m evolves_def trace_extends_refl)
qed

lemma aft_inv_longer_log:
  assumes "aft_inv a" and "last_idx a \<le> i"
  shows "aft_inv (a\<lparr>last_idx := i\<rparr>)"
  using assms unfolding aft_inv_def log_wf_def committable_inv_def batch_inv_def nodes_inv_def
    retirement_inv_def by (simp add: le_max_iff_disj) fastforce

lemma aft_inv_mark_committable:
  assumes "aft_inv a" and "last_idx a \<le> i" and "commit_idx a < i"
    and "\<forall>j\<in>set (committable_indices a). j < i"
  shows "aft_inv ((mark_committable i a)\<lparr>last_idx := i\<rparr>)"
proof -
  define b where "b = (if membership_state a = Retired \<and> retirement_phase a = Some Ordered
      then become_retired i Signed a else a)"
  have m: "mark_committable i a = b\<lparr>committable_indices := committable_indices b @ [i]\<rparr>"
    by (simp add: mark_committable_def b_def Let_def)
  have "inert a b" by (simp add: b_def inert_refl inert_become_retired_Signed)
  moreover have "same_log a b" by (simp add: b_def same_log_refl same_log_become_retired)
  ultimately have "aft_inv (b\<lparr>last_idx := i\<rparr>)" and "committable_indices b = committable_indices a"
    and "commit_idx b = commit_idx a"
    using assms(1,2) by (simp_all add: inert_def same_log_def aft_inv_longer_log)
  then show ?thesis using assms(3,4)
    by (simp add: m aft_inv_def log_wf_def committable_inv_def batch_inv_def nodes_inv_def
        retirement_inv_def sorted_wrt_append)
qed

lemma mark_committable_simps [simp]:
  "last_idx (mark_committable i a) = last_idx a"
  "commit_idx (mark_committable i a) = commit_idx a"
  "current_view (mark_committable i a) = current_view a"
  "view_history (mark_committable i a) = view_history a"
  "committable_indices (mark_committable i a) = committable_indices a @ [i]"
  "my_node_id (mark_committable i a) = my_node_id a"
  "env (mark_committable i a) = env a" "trace (mark_committable i a) = trace a"
  "voted_for (mark_committable i a) = voted_for a"
  "leadership_state (mark_committable i a) = leadership_state a"
  "nodes (mark_committable i a) = nodes a"
  "configurations (mark_committable i a) = configurations a"
  by (simp_all add: mark_committable_def Let_def become_retired_def)

lemma inert_start_ticking: "inert a (start_ticking_if_necessary a)"
  by (simp add: inert_def start_ticking_if_necessary_def start_ticking_def)

lemma start_ticking_simps [simp]:
  "last_idx (start_ticking_if_necessary a) = last_idx a"
  "commit_idx (start_ticking_if_necessary a) = commit_idx a"
  "current_view (start_ticking_if_necessary a) = current_view a"
  "view_history (start_ticking_if_necessary a) = view_history a"
  "committable_indices (start_ticking_if_necessary a) = committable_indices a"
  "leadership_state (start_ticking_if_necessary a) = leadership_state a"
  "voted_for (start_ticking_if_necessary a) = voted_for a"
  "my_node_id (start_ticking_if_necessary a) = my_node_id a"
  "env (start_ticking_if_necessary a) = env a" "trace (start_ticking_if_necessary a) = trace a"
  "nodes (start_ticking_if_necessary a) = nodes a"
  "configurations (start_ticking_if_necessary a) = configurations a"
  by (simp_all add: start_ticking_if_necessary_def start_ticking_def)

lemma aft_inv_start_ticking:
  "aft_inv ((start_ticking_if_necessary a)\<lparr>last_idx := i\<rparr>) = aft_inv (a\<lparr>last_idx := i\<rparr>)"
  by (simp add: start_ticking_if_necessary_def start_ticking_def aft_inv_defs)

section \<open>Replication\<close>

lemma inert_update_batch_size: "inert a (update_batch_size a)"
proof -
  have "aft_inv (update_batch_size a)" if "aft_inv a"
  proof -
    have b: "batch_inv (update_batch_size a)" using that by (simp add: aft_inv_def batch_inv_update)
    obtain x y where eq: "update_batch_size a = a\<lparr>batch_window_sum := x, entries_batch_size := y\<rparr>"
      by (simp add: update_batch_size_def Let_def)
    from that b show ?thesis
      unfolding eq by (simp add: aft_inv_def log_wf_def committable_inv_def nodes_inv_def retirement_inv_def)
  qed
  then show ?thesis by (simp add: inert_def update_batch_size_def Let_def)
qed

lemma evolves_flush_if_full:
  assumes "aft_inv a"
  shows "evolves a (final (flush_if_full a))"
proof -
  let ?b = "(update_batch_size a)\<lparr>entry_count := 0, entry_size_not_limited := 0\<rparr>"
  have ab: "inert a ?b" using inert_update_batch_size [of a] by (simp add: inert_def)
  then have "aft_inv ?b" using assms by (simp add: inert_def)
  from evolves_update_first [OF ab evolves_send_to_all [OF this]] assms
  show ?thesis by (simp add: flush_if_full_def evolves_refl)
qed

lemma evolves_append_entry:
  assumes "aft_inv a" and "be_index e = last_idx a + 1"
  shows "evolves a (final (append_entry e a))"
proof -
  let ?i = "be_index e"
  define c where "c = (if be_globally_committable e
      then start_ticking_if_necessary (mark_committable ?i a) else a)\<lparr>last_idx := ?i\<rparr>"
  define d where "d = emit (LedgerPutEntry (be_data e) (be_globally_committable e) (current_view c) ?i) c"
  define f where "f = d\<lparr>entry_size_not_limited := entry_size_not_limited d + length (be_data e),
            entry_count := entry_count d + 1\<rparr>"
  have "\<forall>j\<in>set (committable_indices a). j < ?i" "commit_idx a < ?i"
    using assms by (auto simp: aft_inv_def committable_inv_def le_imp_less_Suc)
  with assms have "aft_inv ((mark_committable ?i a)\<lparr>last_idx := ?i\<rparr>)" "aft_inv (a\<lparr>last_idx := ?i\<rparr>)"
    by (simp_all add: aft_inv_mark_committable aft_inv_longer_log)
  then have c: "aft_inv c" by (simp add: c_def aft_inv_start_ticking)
  have cf: "commit_idx c = commit_idx a" "current_view c = current_view a" "trace c = trace a"
    "my_node_id c = my_node_id a" "env c = env a" "last_idx c = ?i"
    by (simp_all add: c_def)
  have bf: "evolves a f" using c cf by (simp add: evolves_def f_def d_def trace_extends_def)
  have "evolves f (final (with_history (vh_update ?i (current_view f) (view_history f)) f))"
    using evolves_inv [OF bf] cf assms(2)
    by (intro evolves_with_history_update) (simp_all add: f_def d_def)
  from evolves_trans [OF bf this] show ?thesis
    unfolding append_entry_def Let_def c_def [symmetric] d_def [symmetric] f_def [symmetric] .
qed

lemma evolves_replicate_entry:
  assumes "aft_inv a" and "be_index e = last_idx a + 1"
  shows "evolves a (final (replicate_entry e a))"
  unfolding replicate_entry_def
  using evolves_call_hooks [OF assms(1)] same_log_call_hooks
proof (rule evolves_seq_with)
  fix b assume ab: "evolves a b" and lg: "same_log a b"
  have "evolves b (final (append_entry e b))"
    using evolves_inv [OF ab] lg assms(2) by (simp add: evolves_append_entry same_log_def)
  then show "evolves b (final (seq (append_entry e b) flush_if_full))"
  proof (rule evolves_seqI)
    fix g assume "evolves b g"
    then show "evolves g (final (flush_if_full g))" by (intro evolves_flush_if_full) (rule evolves_inv)
  qed
qed

lemma evolves_replicate_entries:
  "aft_inv a \<Longrightarrow> evolves a (final (replicate_entries es a))"
proof (induction es arbitrary: a)
  case Nil
  then show ?case by (simp add: evolves_refl)
next
  case (Cons e es)
  have "evolves a (final (bindv (replicate_entry e a) (\<lambda>a _. replicate_entries es a)))"
    if "be_index e = last_idx a + 1"
    using evolves_replicate_entry [OF Cons.prems that]
  proof (rule evolves_bindvI)
    fix b assume "evolves a b"
    then show "evolves b (final (replicate_entries es b))" by (intro Cons.IH) (rule evolves_inv)
  qed
  with Cons.prems show ?case by (simp add: evolves_refl)
qed

lemma evolves_Done_after: "evolves a (final m) \<Longrightarrow> evolves a (final (bindv m (\<lambda>a _. Done a v)))"
  by (cases m) simp_all

lemma evolves_replicate_batch:
  assumes "aft_inv a"
  shows "evolves a (final (replicate_batch es t a))"
proof -
  let ?rest = "\<lambda>a ok_so_far. if \<not> ok_so_far then Done a False
      else if nodes a = [] then bindv (update_commit a) (\<lambda>a _. Done a True) else Done a True"
  have "evolves a (final (bindv (replicate_entries es a) ?rest))"
    using evolves_replicate_entries [OF assms]
  proof (rule evolves_bindvI)
    fix b v assume "evolves a b"
    then have b: "aft_inv b" by (rule evolves_inv)
    then show "evolves b (final (?rest b v))"
      by (simp add: evolves_refl evolves_Done_after evolves_update_commit)
  qed
  with assms show ?thesis
    by (simp add: replicate_batch_def evolves_refl evolves_Done_after evolves_rollback)
qed

section \<open>Append entries\<close>

lemma last_idx_response [simp]:
  "last_idx (final (send_append_entries_response k ans rej a)) = last_idx a"
  by (simp add: send_append_entries_response_def Let_def send_authenticated_def split: option.split)

text \<open>Deserialising does not touch the log, and what it returns are the entries after it.\<close>

lemma deserialise_entries_spec:
  assumes "aft_inv a" and "map snd acc = [last_idx a + 1 ..< max (last_idx a + 1) i]"
  shows "evolves a (final (deserialise_entries from r [i ..< n] data acc a))
    \<and> (\<forall>b es. deserialise_entries from r [i ..< n] data acc a = Done b (Some es) \<longrightarrow>
         last_idx b = last_idx a \<and> map snd es = [last_idx a + 1 ..< max (last_idx a + 1) (max i n)])"
  using assms
proof (induction "n - i" arbitrary: i data acc a)
  case 0
  then show ?case by (simp add: evolves_refl max_def)
next
  case (Suc d)
  then have "i < n" by simp
  then have ix: "[i ..< n] = i # [Suc i ..< n]" by (simp add: upt_conv_Cons)
  have mx: "max (Suc i) n = max i n" using \<open>i < n\<close> by simp
  show ?case
  proof (cases "i \<le> last_idx a")
    case True
    with Suc.prems(2) have acc: "map snd acc = [last_idx a + 1 ..< max (last_idx a + 1) (Suc i)]"
      by simp
    have "d = n - Suc i" using Suc.hyps(2) by simp
    note IH = Suc.hyps(1) [OF this Suc.prems(1) acc]
    show ?thesis
    proof (cases "skip_entry data")
      case (Inl e)
      with True Suc.prems(1) show ?thesis by (simp add: ix evolves_refl)
    next
      case (Inr rest)
      with True IH [of rest] show ?thesis unfolding mx by (simp add: ix)
    qed
  next
    case False
    show ?thesis
    proof (cases "get_entry data")
      case (Inl e)
      have "evolves a (final (send_append_entries_response from AE_FAIL None a))"
        using Suc.prems(1) by (rule evolves_response)
      with Inl False show ?thesis
        using evolves_refl [OF Suc.prems(1)]
        by (cases "send_append_entries_response from AE_FAIL None a") (simp_all add: ix)
    next
      case (Inr p)
      obtain entry rest where p: "p = (entry, rest)" by (cases p)
      define ex where "ex = \<lparr>tx_view = ae_term_of_idx r, tx_seqno = i\<rparr>"
      define b where "b = emit (StoreApply entry ex) a"
      have ab: "evolves a b" using Suc.prems(1) by (simp add: b_def evolves_emit)
      have b: "last_idx b = last_idx a" by (simp add: b_def)
      have step: "deserialise_entries from r [i ..< n] data acc a =
          (case env_deserialize (env a) (trace a) entry (consensus_type a) (public_only a) ex of
             None \<Rightarrow> bindv (send_append_entries_response from AE_FAIL None b) (\<lambda>a _. Done a None)
           | Some w \<Rightarrow> deserialise_entries from r [Suc i ..< n] rest (acc @ [(w, i)]) b)"
        using False unfolding b_def ex_def by (simp add: ix Inr p Let_def)
      show ?thesis
      proof (cases "env_deserialize (env a) (trace a) entry (consensus_type a) (public_only a) ex")
        case None
        have "evolves a (final (send_append_entries_response from AE_FAIL None b))"
          using evolves_trans [OF ab evolves_response [OF evolves_inv [OF ab]]] .
        then show ?thesis
          unfolding step None by (cases "send_append_entries_response from AE_FAIL None b") simp_all
      next
        case (Some w)
        have acc: "map snd (acc @ [(w, i)]) = [last_idx b + 1 ..< max (last_idx b + 1) (Suc i)]"
          using Suc.prems(2) False by (simp add: b max_def)
        have "d = n - Suc i" using Suc.hyps(2) by simp
        from Suc.hyps(1) [OF this evolves_inv [OF ab] acc, of rest] ab show ?thesis
          unfolding step Some by (auto simp: b mx intro: evolves_trans)
      qed
    qed
  qed
qed

lemma last_idx_with_history [simp]: "last_idx (final (with_history m a)) = last_idx a"
  by (cases m) (simp_all add: with_history_def)

lemma evolves_signature_history:
  "aft_inv a \<Longrightarrow> ae_prev_idx r < last_idx a \<Longrightarrow> evolves a (final (signature_history r ds a))"
  by (simp add: signature_history_def evolves_with_history_update)

lemma evolves_finish_history:
  "aft_inv a \<Longrightarrow> ae_idx r \<le> last_idx a \<Longrightarrow> evolves a (final (finish_history r a))"
  by (simp add: finish_history_def Let_def evolves_with_history_update evolves_refl)

lemma evolves_mark_committable:
  assumes "aft_inv a" and "\<forall>j\<in>set (committable_indices a). j < last_idx a"
    and "commit_idx a < last_idx a"
  shows "evolves a (mark_committable (last_idx a) a)"
proof -
  define b where "b = mark_committable (last_idx a) a"
  have "last_idx b = last_idx a" by (simp add: b_def)
  then have "b\<lparr>last_idx := last_idx a\<rparr> = b" by (metis State.surjective State.update_convs(3))
  with aft_inv_mark_committable [OF assms(1) le_refl assms(3,2)] have "aft_inv b"
    unfolding b_def by simp
  then show ?thesis by (simp add: evolves_def b_def trace_extends_refl)
qed

lemma evolves_apply_signature:
  assumes "aft_inv a" and "\<forall>j\<in>set (committable_indices a). j < last_idx a"
    and "commit_idx a < last_idx a" and "ae_prev_idx r < last_idx a"
  shows "evolves a (final (apply_signature r ds (last_idx a) a))"
    and "last_idx (final (apply_signature r ds (last_idx a) a)) = last_idx a"
proof -
  define b where "b = mark_committable (last_idx a) a"
  have ab: "evolves a b" using assms(1-3) by (simp add: b_def evolves_mark_committable)
  have "evolves b (final (seq (signature_history r ds b) (commit_if_possible (ae_leader_commit_idx r))))"
  proof (rule evolves_seqI)
    show "evolves b (final (signature_history r ds b))"
      using evolves_inv [OF ab] assms(4) by (intro evolves_signature_history) (simp_all add: b_def)
  next
    fix c assume "evolves b c"
    then show "evolves c (final (commit_if_possible (ae_leader_commit_idx r) c))"
      by (intro evolves_commit_if_possible) (rule evolves_inv)
  qed
  with ab show "evolves a (final (apply_signature r ds (last_idx a) a))"
    unfolding apply_signature_def Let_def b_def [symmetric] by (auto intro: evolves_trans)
  have "last_idx (final (commit_if_possible i c)) = last_idx c" for i c
    using same_tip_commit_if_possible [of c i] by (simp add: same_tip_def)
  then show "last_idx (final (apply_signature r ds (last_idx a) a)) = last_idx a"
    by (simp add: apply_signature_def Let_def final_seq_frame signature_history_def)
qed

text \<open>One entry: it is the next one of the log, and after it the log ends there.\<close>

lemma record_entry_evolves:
  assumes "aft_inv a" and "\<forall>j\<in>set (committable_indices a). j < last_idx a"
    and "commit_idx a < last_idx a" and "ae_prev_idx r < last_idx a"
  shows "evolves a (final (record_entry r ds (last_idx a) res a))"
    and "last_idx (final (record_entry r ds (last_idx a) res a)) = last_idx a"
proof -
  define f where "f = emit (LedgerPutEntry (ew_entry ds) (res = PASS_SIGNATURE) (ew_term ds) (ew_index ds))
      (if res = PASS_SIGNATURE then start_ticking_if_necessary a else a)"
  have rf: "record_entry r ds (last_idx a) res a = (case res of
         PASS_SIGNATURE \<Rightarrow> bindv (apply_signature r ds (last_idx a) f) (\<lambda>a _. Done a True)
       | PASS \<Rightarrow> Done f True
       | PASS_SNAPSHOT_EVIDENCE \<Rightarrow> Done f True
       | PASS_ENCRYPTED_PAST_LEDGER_SECRET \<Rightarrow> Done f True
       | _ \<Rightarrow> Throw f (LogicError ''Unknown ApplyResult value''))"
    unfolding record_entry_def Let_def f_def ..
  have af: "evolves a f"
    using assms(1) inert_start_ticking [of a]
    by (simp add: f_def evolves_def inert_def trace_extends_def)
  have f: "last_idx f = last_idx a" "committable_indices f = committable_indices a"
    "commit_idx f = commit_idx a" by (simp_all add: f_def)
  note sg = evolves_apply_signature [OF evolves_inv [OF af], of r ds, unfolded f, OF assms(2-4)]
  have "evolves a (final (apply_signature r ds (last_idx a) f))" using af sg(1) by (rule evolves_trans)
  with af show "evolves a (final (record_entry r ds (last_idx a) res a))"
    unfolding rf by (auto simp: evolves_Done_after split: ApplyResult.split)
  have "last_idx (final (bindv (apply_signature r ds (last_idx a) f) (\<lambda>a _. Done a True))) = last_idx a"
    using sg(2) by (cases "apply_signature r ds (last_idx a) f") simp_all
  then show "last_idx (final (record_entry r ds (last_idx a) res a)) = last_idx a"
    unfolding rf by (simp add: f split: ApplyResult.split)
qed

lemma execute_entry_evolves:
  assumes "aft_inv a" and "i = last_idx a + 1" and "ae_prev_idx r \<le> last_idx a"
  shows "evolves a (final (execute_entry from r (ds, i) a))"
    and "execute_entry from r (ds, i) a = Done b True \<Longrightarrow> last_idx b = i"
proof -
  let ?res = "ew_apply ds (trace a)"
  define c where "c = emit (StoreExecute i) a"
  let ?d = "c\<lparr>last_idx := i\<rparr>"
  let ?fail = "bindv (send_append_entries_response from AE_FAIL None
      (emit (LedgerTruncate (dec64 i)) c)) (\<lambda>a _. Done a False)"
  let ?hooks = "for_each call_hook (ew_hooks ds (trace c)) ?d"
  have m: "execute_entry from r (ds, i) a =
      (if ?res = FAIL then ?fail else bindv ?hooks (\<lambda>a _. record_entry r ds i ?res a))"
    unfolding execute_entry_def Let_def c_def by simp
  have ac: "evolves a c" using assms(1) by (simp add: c_def evolves_emit)
  have c: "aft_inv c" "last_idx c = last_idx a" "commit_idx c = commit_idx a"
    "committable_indices c = committable_indices a"
    using assms(1) by (simp_all add: c_def)
  have tr: "evolves c (emit (LedgerTruncate (dec64 i)) c)"
    using c assms(1,2) by (intro evolves_emit) (simp_all add: aft_inv_def)
  have fl: "evolves a (final ?fail)"
    by (rule evolves_Done_after)
      (rule evolves_trans [OF evolves_trans [OF ac tr] evolves_response [OF evolves_inv [OF tr]]])
  have d: "aft_inv ?d" using c(1,2) assms(2) by (simp add: aft_inv_longer_log)
  have ad: "evolves a ?d" using ac d by (simp add: evolves_def)
  have rec: "evolves e (final (record_entry r ds i res e)) \<and> last_idx (final (record_entry r ds i res e)) = i"
    if ev: "evolves ?d e" and lg: "same_log ?d e" for e res
  proof -
    have e: "last_idx e = i" "committable_indices e = committable_indices a" "commit_idx e = commit_idx a"
      using lg c by (simp_all add: same_log_def)
    then have "\<forall>j\<in>set (committable_indices e). j < last_idx e" "commit_idx e < last_idx e"
      using assms(1,2) by (auto simp: aft_inv_def committable_inv_def le_imp_less_Suc)
    from record_entry_evolves [OF evolves_inv [OF ev] this, of r ds res] assms(2,3)
    show ?thesis by (simp add: e)
  qed
  have hooks: "evolves ?d (final ?hooks)" "same_log ?d (final ?hooks)"
    using d by (simp_all add: evolves_call_hooks same_log_call_hooks)
  have "evolves ?d (final (bindv ?hooks (\<lambda>a _. record_entry r ds i ?res a)))"
    using hooks by (rule evolves_bindv_with) (simp add: rec)
  with fl show "evolves a (final (execute_entry from r (ds, i) a))"
    unfolding m using evolves_trans [OF ad] by simp
  assume "execute_entry from r (ds, i) a = Done b True"
  then show "last_idx b = i"
    using rec [OF hooks, of ?res] unfolding m
    by (cases ?hooks; cases "send_append_entries_response from AE_FAIL None (emit (LedgerTruncate (dec64 i)) c)")
      (auto split: if_splits)
qed

lemma evolves_execute_finish:
  assumes "aft_inv a" and "ae_idx r \<le> last_idx a"
  shows "evolves a (final (execute_append_entries_finish r from a))"
  unfolding execute_append_entries_finish_def
  using evolves_commit_if_possible [OF assms(1)] same_tip_commit_if_possible
proof (rule evolves_seq_with)
  fix b assume ev: "evolves a b" and tip: "same_tip a b"
  have "evolves b (final (finish_history r b))"
    using evolves_inv [OF ev] tip assms(2) by (simp add: evolves_finish_history same_tip_def)
  then show "evolves b (final (seq (finish_history r b) (send_append_entries_response from AE_OK None)))"
  proof (rule evolves_seqI)
    fix c assume "evolves b c"
    then show "evolves c (final (send_append_entries_response from AE_OK None c))"
      by (intro evolves_response) (rule evolves_inv)
  qed
qed

lemma evolves_execute_sync:
  assumes "aft_inv a" and "map snd es = [last_idx a + 1 ..< n]" and "ae_prev_idx r \<le> last_idx a"
    and "ae_idx r \<le> last_idx a + length es"
  shows "evolves a (final (execute_append_entries_sync es from r a))"
  using assms
proof (induction es arbitrary: a)
  case Nil
  then show ?case by (simp add: evolves_execute_finish)
next
  case (Cons e es)
  obtain ds i where e: "e = (ds, i)" by (cases e)
  have lt: "last_idx a + 1 < n" using Cons.prems(2) by (cases "last_idx a + 1 < n") simp_all
  then have i: "i = last_idx a + 1" and es: "map snd es = [last_idx a + 2 ..< n]"
    using Cons.prems(2) by (simp_all add: e upt_conv_Cons)
  note ex = execute_entry_evolves [OF Cons.prems(1) i Cons.prems(3), of "from" ds]
  show ?case
  proof (cases "execute_entry from r e a")
    case (Done b v)
    have "evolves b (final (execute_append_entries_sync es from r b))" if v
    proof (rule Cons.IH)
      have "last_idx b = last_idx a + 1" using ex(2) Done that i by (simp add: e)
      then show "map snd es = [last_idx b + 1 ..< n]" "ae_prev_idx r \<le> last_idx b"
        "ae_idx r \<le> last_idx b + length es"
        using es Cons.prems(3,4) by simp_all
      show "aft_inv b" using ex(1) Done by (simp add: e evolves_inv)
    qed
    with ex(1) Done show ?thesis by (auto simp: e intro: evolves_trans)
  next
    case (Throw b x)
    with ex(1) show ?thesis by (simp add: e)
  next
    case (Diverge b)
    with ex(1) show ?thesis by (simp add: e)
  qed
qed

lemma new_follower_rollback_evolves:
  assumes "aft_inv a" and "ae_prev_idx r \<le> last_idx a" and "commit_idx a \<le> ae_prev_idx r"
  shows "evolves a (final (new_follower_rollback r a))"
    and "ae_prev_idx r \<le> last_idx (final (new_follower_rollback r a))"
proof -
  have last: "ae_prev_idx r \<le> last_idx (final (rollback (ae_prev_idx r) a))"
    using rollback_drops(1) [OF assms(1,3)] by simp
  have ret: "returns (rollback (ae_prev_idx r) a)" using assms(1) by (rule rollback_returns)
  have rb: "evolves a ((final (rollback (ae_prev_idx r) a))\<lparr>is_new_follower := False\<rparr>)"
    using evolves_rollback [OF assms(1), of "ae_prev_idx r"] by (simp add: evolves_def)
  moreover have "evolves a (a\<lparr>is_new_follower := False\<rparr>)"
    using assms(1) by (simp add: evolves_def trace_extends_refl)
  ultimately show "evolves a (final (new_follower_rollback r a))"
    using assms(1) ret by (simp add: new_follower_rollback_def final_seq_returns evolves_refl)
  show "ae_prev_idx r \<le> last_idx (final (new_follower_rollback r a))"
    using assms(2) last ret by (simp add: new_follower_rollback_def final_seq_returns)
qed

lemma evolves_deserialise_execute:
  assumes "aft_inv a" and prev: "ae_prev_idx r \<le> last_idx a"
  shows "evolves a (final (bindv
    (deserialise_entries from r [ae_prev_idx r + 1 ..< ae_idx r + 1] data [] a)
    (\<lambda>a entries. case entries of None \<Rightarrow> ok a | Some es \<Rightarrow> execute_append_entries_sync es from r a)))"
proof -
  let ?n = "max (last_idx a + 1) (max (ae_prev_idx r + 1) (ae_idx r + 1))"
  have "map snd ([] :: (ExecutionWrapper \<times> Version) list)
      = [last_idx a + 1 ..< max (last_idx a + 1) (ae_prev_idx r + 1)]"
    using prev by simp
  note ds = deserialise_entries_spec [OF assms(1) this, of "from" r "ae_idx r + 1" data]
  show ?thesis
  proof (cases "deserialise_entries from r [ae_prev_idx r + 1 ..< ae_idx r + 1] data [] a")
    case (Done e v)
    have ae: "evolves a e" using ds unfolding Done final.simps by blast
    have "evolves e (final (execute_append_entries_sync es from r e))" if v: "v = Some es" for es
    proof (rule evolves_execute_sync [OF evolves_inv [OF ae]])
      have es: "map snd es = [last_idx a + 1 ..< ?n]" and e: "last_idx e = last_idx a"
        using ds Done v by blast+
      then have "length es = ?n - (last_idx a + 1)" by (metis length_map length_upt)
      with es e prev show "map snd es = [last_idx e + 1 ..< ?n]"
        "ae_prev_idx r \<le> last_idx e" "ae_idx r \<le> last_idx e + length es" by auto
    qed
    with ae show ?thesis unfolding Done by (cases v) (auto intro: evolves_trans)
  next
    case (Throw e x)
    with ds show ?thesis unfolding Throw by simp
  next
    case (Diverge e)
    with ds show ?thesis unfolding Diverge by simp
  qed
qed

lemma evolves_accept_append_entries:
  assumes "aft_inv a"
  shows "evolves a (final (accept_append_entries from r data a))"
proof -
  define b where "b = restart_election_timeout a"
  define c where "c = (if leader_id b \<noteq> Some from then b\<lparr>leader_id := Some from\<rparr> else b)"
  have "evolves a b" using assms by (simp add: b_def evolves_restart_election_timeout)
  then have ac: "evolves a c" by (simp add: c_def evolves_def)
  note c = evolves_inv [OF ac]
  let ?rest = "\<lambda>a. bindv (deserialise_entries from r [ae_prev_idx r + 1 ..< ae_idx r + 1] data [] a)
      (\<lambda>a entries. case entries of None \<Rightarrow> ok a | Some es \<Rightarrow> execute_append_entries_sync es from r a)"
  have "evolves c (final (seq (new_follower_rollback r c) ?rest))"
    if "ae_prev_idx r \<le> last_idx c" "commit_idx c \<le> ae_prev_idx r"
    using new_follower_rollback_evolves [OF c that]
    by (rule evolves_seq_with) (rule evolves_deserialise_execute, rule evolves_inv)
  with c have "evolves c (final (accept_append_entries from r data a))"
    unfolding accept_append_entries_def Let_def b_def [symmetric] c_def [symmetric]
    by (auto simp del: upt_Suc simp: evolves_refl aft_inv_def)
  with ac show ?thesis by (rule evolves_trans)
qed

lemma evolves_recv_append_entries:
  assumes "aft_inv a"
  shows "evolves a (final (recv_append_entries from r data a))"
proof -
  have check: "evolves b (final (check_append_entries from r data b))" if "aft_inv b" for b
    using that by (simp add: check_append_entries_def Let_def evolves_response evolves_accept_append_entries)
  have "evolves a (final (seq (become_aware_of_new_term (ae_term r) a) (check_append_entries from r data)))"
    if "current_view a \<le> ae_term r"
    using evolves_become_aware [OF assms that]
  proof (rule evolves_seqI)
    fix b assume "evolves a b"
    then show "evolves b (final (check_append_entries from r data b))" by (intro check) (rule evolves_inv)
  qed
  with assms check show ?thesis by (simp add: recv_append_entries_def evolves_response)
qed

section \<open>Acknowledgements and the clock\<close>

lemma evolves_recv_append_entries_response:
  assumes "aft_inv a"
  shows "evolves a (final (recv_append_entries_response from r a))"
proof -
  define b where "b = a\<lparr>nodes := al_update from (\<lambda>n. n\<lparr>last_ack_timeout := 0\<rparr>) (nodes a)\<rparr>"
  have node: "inert c (c\<lparr>nodes := al_update from f (nodes c)\<rparr>)" for c f
    by (simp add: inert_def aft_inv_nodes_values)
  have ab: "inert a b" by (simp add: b_def node)
  then have b: "aft_inv b" using assms by (simp add: inert_def)
  have "evolves b (final (update_commit (set_match_idx from i b)))" for i
    using b node [of b] unfolding set_match_idx_def
    by (blast intro: evolves_update_first evolves_update_commit inert_def [THEN iffD1, THEN conjunct1, THEN mp])
  then have "evolves b (final (update_match from r b))"
    using evolves_inert [OF b node] b
    by (simp add: update_match_def reset_match_def Let_def evolves_refl
        split: AppendEntriesResponseType.split option.split)
  then have "evolves b (final (if current_view b < aer_term r then become_aware_of_new_term (aer_term r) b
        else if current_view b \<noteq> aer_term r \<and> aer_success r = AE_OK then ok b
        else if current_view b = aer_term r \<and> aer_last_log_idx r < match_idx_of from b
                \<and> aer_success r = AE_OK then ok b
        else update_match from r b))"
    using b by (simp add: evolves_refl evolves_become_aware)
  from evolves_update_first [OF ab this] assms show ?thesis
    unfolding recv_append_entries_response_def Let_def b_def [symmetric] by (simp add: evolves_refl)
qed

lemma inert_age_acks: "inert a (age_acks t a)"
  by (simp add: inert_def age_acks_def aft_inv_nodes_values)

lemma evolves_check_quorum:
  assumes "aft_inv a"
  shows "evolves a (final (check_quorum t a))"
proof -
  have b: "aft_inv (age_acks t a)" using assms inert_age_acks [of a t] by (simp add: inert_def)
  then have "evolves (age_acks t a) (final (check_quorum t a))"
    by (simp add: check_quorum_def Let_def evolves_refl evolves_become_follower)
  with inert_age_acks show ?thesis by (rule evolves_update_first)
qed

lemma evolves_periodic:
  assumes "aft_inv a"
  shows "evolves a (final (periodic t a))"
proof -
  define b where "b = a\<lparr>timeout_elapsed := timeout_elapsed a + t\<rparr>"
  have ab: "inert a b" by (simp add: inert_def b_def)
  then have b: "aft_inv b" using assms by (simp add: inert_def)
  let ?send = "if timeout_elapsed b \<ge> request_timeout b
      then send_append_entries_to_all (update_batch_size (b\<lparr>timeout_elapsed := 0\<rparr>)) else ok b"
  have "inert b (update_batch_size (b\<lparr>timeout_elapsed := 0\<rparr>))"
    using inert_update_batch_size [of "b\<lparr>timeout_elapsed := 0\<rparr>"] by (simp add: inert_def)
  moreover from this have "aft_inv (update_batch_size (b\<lparr>timeout_elapsed := 0\<rparr>))"
    using b by (simp add: inert_def)
  ultimately have "evolves b (final ?send)"
    using b by (auto simp: evolves_refl intro: evolves_update_first evolves_send_to_all)
  then have "evolves b (final (seq ?send (check_quorum t)))"
  proof (rule evolves_seqI)
    fix c assume "evolves b c"
    then show "evolves c (final (check_quorum t c))" by (intro evolves_check_quorum) (rule evolves_inv)
  qed
  with b have "evolves b (final (periodic t a))"
    unfolding periodic_def Let_def b_def [symmetric] by (simp add: evolves_refl evolves_become_candidate)
  with ab show ?thesis by (rule evolves_update_first)
qed

section \<open>Messages\<close>

lemma evolves_dispatch_message:
  "aft_inv a \<Longrightarrow> evolves a (final (dispatch_message t from data a))"
  by (auto simp: dispatch_message_def evolves_refl evolves_recv_append_entries
      evolves_recv_append_entries_response evolves_recv_request_vote
      evolves_recv_request_vote_response split: sum.split)

lemma final_catch: "final (case m of Throw a e \<Rightarrow> if is_std_exception e then ok a else Throw a e | Done a v \<Rightarrow> Done a v | Diverge a \<Rightarrow> Diverge a) = final m"
  for m :: "(Aft, unit) exec"
  by (cases m) simp_all

lemma evolves_recv_message: "aft_inv a \<Longrightarrow> evolves a (final (recv_message from data a))"
  by (cases "peek_uint 8 data")
    (simp_all add: recv_message_def evolves_refl final_catch evolves_dispatch_message)

end
