(* ===== verification/Aft_Step.thy ===== *)
theory Aft_Step
  imports Aft_Invariant_Node
begin

text \<open>
  A node as a state machine: every entry point of \<open>aft::Aft\<close> is an input, a step runs its
  handler to the end, and reachability is by rule induction. The start-up calls that install a
  whole log (\<open>init_as_backup\<close>, the recovering \<open>force_become_primary\<close>) establish the
  invariant instead of preserving it.
\<close>

section \<open>Inputs\<close>

datatype Input =
    RecvMessage NodeId "byte list"
  | Tick nat
  | Replicate "BatchEntry list" Term
  | AddConfiguration Index Nodes "NodeId set" "NodeId set"
  | Orc ReconfigurationId NodeId
  | GetSignableTxid
  | ForceBecomePrimary
  | EnableAllDomains
  | UpdateParameters ReconfigurationType

fun handle :: "Input \<Rightarrow> Aft \<Rightarrow> Aft" where
  "handle (RecvMessage from data) a = final (recv_message from data a)"
| "handle (Tick elapsed) a = final (periodic elapsed a)"
| "handle (Replicate entries term) a = final (replicate_batch entries term a)"
| "handle (AddConfiguration idx conf learners retired) a =
     final (add_configuration idx conf learners retired a)"
| "handle (Orc rid node_id) a = final (orc rid node_id a)"
| "handle GetSignableTxid a = fst (get_signable_txid a)"
| "handle ForceBecomePrimary a = final (force_become_primary a)"
| "handle EnableAllDomains a = enable_all_domains a"
| "handle (UpdateParameters params) a = update_parameters params a"

inductive aft_steps :: "Aft \<Rightarrow> Input list \<Rightarrow> Aft \<Rightarrow> bool" where
  steps_refl: "aft_steps a [] a"
| steps_step: "aft_steps a ins b \<Longrightarrow> aft_steps a (ins @ [i]) (handle i b)"

inductive_cases aft_steps_NilE: "aft_steps a [] b"
inductive_simps aft_steps_Nil [simp]: "aft_steps a [] b"

lemma aft_steps_fold: "aft_steps a ins b \<longleftrightarrow> b = fold handle ins a"
proof
  assume "aft_steps a ins b"
  then show "b = fold handle ins a" by induction simp_all
next
  have "aft_steps a ins (fold handle ins a)"
    by (induction ins rule: rev_induct) (auto intro: aft_steps.intros)
  then show "b = fold handle ins a \<Longrightarrow> aft_steps a ins b" by simp
qed

section \<open>The invariant along a run\<close>

lemma evolves_orc: "aft_inv a \<Longrightarrow> evolves a (final (orc rid k a))"
  by (simp add: orc_def Let_def evolves_def trace_extends_refl split: option.split)

lemma evolves_force_become_primary:
  assumes "aft_inv a"
  shows "evolves a (final (force_become_primary a))"
proof -
  let ?b = "a\<lparr>current_view := current_view a + starting_view_change\<rparr>"
  have ab: "evolves a ?b" using assms by (simp add: evolves_def trace_extends_refl)
  have "evolves a (final (become_leader ?b))"
    using ab evolves_become_leader [OF evolves_inv [OF ab]] by (rule evolves_trans)
  with assms show ?thesis by (simp add: force_become_primary_def evolves_refl)
qed

lemma inert_small_updates:
  "inert a (fst (get_signable_txid a))" "inert a (enable_all_domains a)"
  "inert a (update_parameters params a)"
  by (simp_all add: inert_def get_signable_txid_def enable_all_domains_def update_parameters_def)

lemma evolves_handle: "aft_inv a \<Longrightarrow> evolves a (handle i a)"
  by (cases i) (simp_all add: evolves_recv_message evolves_periodic evolves_replicate_batch
      evolves_add_configuration evolves_orc evolves_force_become_primary evolves_inert
      inert_small_updates)

lemma evolves_aft_steps:
  assumes "aft_steps a ins b" and "aft_inv a"
  shows "evolves a b"
  using assms
proof induction
  case (steps_refl a)
  then show ?case by (rule evolves_refl)
next
  case (steps_step a ins b i)
  then have ab: "evolves a b" by simp
  from ab evolves_handle [OF evolves_inv [OF ab]] show ?case by (rule evolves_trans)
qed

section \<open>Start-up\<close>

definition fresh_state :: "State \<Rightarrow> bool" where
  "fresh_state st \<longleftrightarrow> last_idx st = 0 \<and> commit_idx st = 0 \<and> view_history st = []"

lemma aft_inv_make_aft:
  assumes "fresh_state st" and "set_type settings = CFT"
    and "make_aft settings st e po ms rt = Done a u"
  shows "aft_inv a"
  using assms
  by (auto simp: make_aft_def Let_def fresh_state_def aft_inv_defs State.defs Aft.defs)

lemma aft_inv_with_log:
  assumes "aft_inv a" and "vh_inv vh" and "\<forall>v\<in>set vh. v \<le> max 1 index" and "committable_indices a = []"
  shows "aft_inv (a\<lparr>last_idx := index, commit_idx := index, view_history := vh\<rparr>)"
  using assms by (simp add: aft_inv_defs)

end
