(* ===== verification/Aft_Termination.thy ===== *)
theory Aft_Termination
  imports Aft_Step
begin

text \<open>
  No handler of a well-formed node runs forever: the two loops of the code whose end depends
  on the log (sending a range of entries, searching a matching index) end, so that
  \<open>Diverge\<close> is never an outcome.
\<close>

definition terminates :: "('s, 'v) exec \<Rightarrow> bool" where
  "terminates m \<longleftrightarrow> (\<forall>s. m \<noteq> Diverge s)"

named_theorems terminates_intros

lemma terminates_simps [simp]: "terminates (Done s v)" "terminates (Throw s e)" "\<not> terminates (Diverge s)"
  by (simp_all add: terminates_def)

lemma terminates_returns: "returns m \<Longrightarrow> terminates m"
  by (cases m) simp_all

lemma terminates_seqI:
  assumes "terminates m" and "evolves a (final m)" and "\<And>b. evolves a b \<Longrightarrow> terminates (f b)"
  shows "terminates (seq m f)"
  using assms by (cases m) simp_all

lemma terminates_bindvI:
  assumes "terminates m" and "evolves a (final m)" and "\<And>b v. evolves a b \<Longrightarrow> terminates (f b v)"
  shows "terminates (bindv m f)"
  using assms by (cases m) simp_all

lemma terminates_for_eachI:
  assumes "aft_inv a" and "\<And>x b. aft_inv b \<Longrightarrow> terminates (f x b)"
    and "\<And>x b. aft_inv b \<Longrightarrow> evolves b (final (f x b))"
  shows "terminates (for_each f xs a)"
  using assms(1)
proof (induction xs arbitrary: a)
  case (Cons x xs)
  then show ?case
    using assms(2,3) by (auto intro!: terminates_seqI [of _ a] dest: evolves_inv)
qed simp

section \<open>Sending and node states\<close>

lemma aft_inv_log_wf: "aft_inv a \<Longrightarrow> log_wf a"
  by (simp add: aft_inv_def)

lemma terminates_response [terminates_intros]:
  assumes "aft_inv a"
  shows "terminates (send_append_entries_response k ans rej a)"
proof -
  have "\<exists>n. find_highest_possible_match tx a = Some n" for tx
    using find_highest_possible_match_spec [of a tx] assms by (auto simp: aft_inv_def log_wf_def)
  then obtain g where "\<And>tx. find_highest_possible_match tx a = Some (g tx)" by metis
  then show ?thesis
    by (auto simp: send_append_entries_response_def Let_def split: option.split)
qed

lemma terminates_create: "nodes_wf a \<Longrightarrow> terminates (create_and_remove_node_state a)"
  by (simp add: terminates_returns create_and_remove_node_state_spec)

lemma terminates_rollback [terminates_intros]: "aft_inv a \<Longrightarrow> terminates (rollback idx a)"
  by (simp add: terminates_returns rollback_returns)

section \<open>Commit and reconfiguration\<close>

lemma returns_bindv: "returns (bindv m f) \<longleftrightarrow> (\<exists>b v. m = Done b v \<and> returns (f b v))"
  by (cases m) simp_all

lemma finish_commit_returns: "aft_inv a \<Longrightarrow> returns (finish_commit idx a changed)"
  by (auto simp: finish_commit_def Let_def intro!: create_and_remove_node_state_spec nodes_wf_inv)

lemma commit_returns:
  assumes "aft_inv a" and "\<And>i. i \<in> set (committable_indices a) \<Longrightarrow> idx < i" and "idx \<le> last_idx a"
  shows "returns (commit idx a)"
proof (cases "commit_idx a < idx")
  case False
  with assms(3) show ?thesis by (auto simp: commit_def)
next
  case True
  with assms have "aft_inv (advance_commit idx a)"
    by (simp add: evolves_inv [OF evolves_advance_commit])
  note c = commit_configurations_evolves [OF this, of idx False]
  from c obtain b v where bv: "commit_configurations idx False (advance_commit idx a) = Done b v"
    by (cases "commit_configurations idx False (advance_commit idx a)") auto
  with c have "aft_inv b" by (auto dest: evolves_inv)
  with bv True assms(3) show ?thesis by (simp add: commit_def not_le finish_commit_returns)
qed

lemma terminates_commit:
  assumes "aft_inv a" and "\<And>i. i \<in> set (committable_indices a) \<Longrightarrow> idx < i"
  shows "terminates (commit idx a)"
proof (cases "idx \<le> last_idx a")
  case True
  with assms show ?thesis by (simp add: terminates_returns commit_returns)
qed (simp add: commit_def)

lemma commit_if_possible_returns:
  assumes "aft_inv a"
  shows "returns (commit_if_possible idx a)"
proof -
  let ?p = "takeWhile (\<lambda>i. i \<le> idx) (committable_indices a)"
  note b = pop_committable [OF assms, of idx]
  have "returns (commit (last ?p)
      (a\<lparr>committable_indices := dropWhile (\<lambda>i. i \<le> idx) (committable_indices a)\<rparr>))"
    if "?p \<noteq> []"
  proof -
    have "last ?p \<in> set (committable_indices a)" using that by (meson last_in_set set_takeWhileD)
    then have "last ?p \<le> last_idx a" using assms by (simp add: aft_inv_def committable_inv_def)
    then show ?thesis using b(2) [OF that] by (intro commit_returns [OF b(1)]) simp_all
  qed
  then show ?thesis by (simp add: commit_if_possible_def Let_def)
qed

lemma terminates_commit_if_possible: "aft_inv a \<Longrightarrow> terminates (commit_if_possible idx a)"
  by (simp add: terminates_returns commit_if_possible_returns)

lemma terminates_update_commit: "aft_inv a \<Longrightarrow> terminates (update_commit a)"
  by (auto simp: update_commit_def Let_def intro!: terminates_commit_if_possible split: option.split)

lemma terminates_add_configuration:
  assumes "aft_inv a"
  shows "terminates (add_configuration idx conf learners retired a)"
proof -
  define b where "b = (if reconfiguration_type a = ONE_TRANSACTION
      then observe_configuration_1tx idx conf a
      else observe_configuration_2tx idx conf learners retired a)"
  have "inert a b" by (simp add: b_def inert_observe_configuration)
  then have "nodes_wf b" using assms by (simp add: inert_def nodes_wf_inv)
  then show ?thesis
    unfolding add_configuration_def b_def [symmetric] Let_def
    by (auto intro!: terminates_create simp: nodes_wf_def log_wf_def)
qed

lemma terminates_call_hooks:
  assumes "aft_inv a"
  shows "terminates (for_each call_hook hs a)"
  using assms
proof (rule terminates_for_eachI)
  fix h :: Hook and b assume b: "aft_inv b"
  show "terminates (call_hook h b)"
  proof (cases h)
    case (ConfigurationChangeHook v delta learners retired)
    with b show ?thesis by (simp add: Let_def terminates_add_configuration)
  next
    case (ResharingsHook v results)
    have "terminates (for_each (\<lambda>(rid, res). add_resharing_result v rid res) results b)"
      using b by (rule terminates_for_eachI)
        (auto simp: add_resharing_result_def intro: evolves_add_resharing_result)
    with ResharingsHook show ?thesis by simp
  qed
  show "evolves b (final (call_hook h b))" using b by (rule evolves_call_hook)
qed

section \<open>Elections\<close>

lemma terminates_become_follower:
  assumes "aft_inv a"
  shows "terminates (become_follower a)"
proof -
  define c where "c = reset_last_ack_timeouts (clear_orc_sets (restart_election_timeout (a\<lparr>leader_id := None\<rparr>)))"
  have "evolves (a\<lparr>leader_id := None\<rparr>) (restart_election_timeout (a\<lparr>leader_id := None\<rparr>))"
    using assms by (simp add: evolves_restart_election_timeout)
  then have "aft_inv c"
    using inert_trans [OF inert_clear_orc_sets inert_reset_last_ack_timeouts]
    by (simp add: c_def inert_def evolves_def)
  then have "terminates (seq (rollback (last_committable_index c) c)
      (\<lambda>a. if can_endorse_primary a \<and> membership_state a \<noteq> RetirementInitiated
           then ok (a\<lparr>leadership_state := Some Follower\<rparr>) else ok a))"
    by (intro terminates_seqI) (auto intro: terminates_rollback evolves_rollback)
  then show ?thesis by (simp add: become_follower_def Let_def c_def)
qed

lemma terminates_become_aware:
  assumes "aft_inv a"
  shows "terminates (become_aware_of_new_term t a)"
proof -
  have "aft_inv (a\<lparr>current_view := t, voted_for := None, votes_for_me := {}\<rparr>)" using assms by simp
  from terminates_become_follower [OF this] show ?thesis
    unfolding become_aware_of_new_term_def
    by (cases "become_follower (a\<lparr>current_view := t, voted_for := None, votes_for_me := {}\<rparr>)") simp_all
qed

lemma announce_leadership_returns:
  assumes "log_wf a"
  shows "returns (for_each (announce_leadership n) (al_keys (nodes a)) a)"
proof -
  have "returns (for_each (announce_leadership n) (al_keys (nodes a)) a)
    \<and> (\<lambda>b. log_wf b \<and> al_keys (nodes b) = al_keys (nodes a))
        (final (for_each (announce_leadership n) (al_keys (nodes a)) a))"
  proof (rule returns_for_eachI)
    fix k b assume k: "k \<in> set (al_keys (nodes a))" and b: "log_wf b \<and> al_keys (nodes b) = al_keys (nodes a)"
    let ?c = "b\<lparr>nodes := al_update k (\<lambda>x. x\<lparr>match_idx := 0, sent_idx := n - 1\<rparr>) (nodes b)\<rparr>"
    have c: "log_wf ?c" "al_keys (nodes ?c) = al_keys (nodes a)"
      using b by (simp_all add: log_wf_def)
    have "returns (send_append_entries k n ?c)"
      using c k by (intro send_append_entries_returns) simp_all
    then show "returns (announce_leadership n k b) \<and> log_wf (final (announce_leadership n k b))
        \<and> al_keys (nodes (final (announce_leadership n k b))) = al_keys (nodes a)"
      unfolding announce_leadership_def
      using c same_but_sends_entries [of ?c k n] by (simp add: log_wf_same_but_sends same_but_sendsD)
  qed (simp add: assms)
  then show ?thesis by simp
qed

lemma terminates_become_leader:
  assumes "aft_inv a"
  shows "terminates (become_leader a)"
proof -
  define b where "b = a\<lparr>election_index := last_committable_index a, committable_indices := []\<rparr>"
  let ?first = "if commit_idx b > 0 then rollback (election_index b) b
      else ok (emit (StoreInitialiseTerm (current_view b)) b)"
  have b: "aft_inv b" using assms by (simp add: b_def aft_inv_defs)
  have "commit_idx b \<le> election_index b"
    using last_committable_index_bounds(1) [OF assms] by (simp add: b_def)
  then have none: "committable_indices (final ?first) = []"
    using rollback_drops(3) [OF b] by (simp add: b_def)
  have inv: "aft_inv (final ?first)"
    using b evolves_inv [OF evolves_rollback [OF b]] by simp
  have ret: "returns ?first" using b by (simp add: rollback_returns)
  define d where "d = final ?first"
  define c where "c = reset_last_ack_timeouts (d\<lparr>leadership_state := Some Leader,
      leader_id := Some (my_node_id d), should_sign := True, timeout_elapsed := 0\<rparr>)"
  have "inert d c"
    using inert_reset_last_ack_timeouts [of "d\<lparr>leadership_state := Some Leader,
      leader_id := Some (my_node_id d), should_sign := True, timeout_elapsed := 0\<rparr>"]
    by (simp add: c_def inert_def)
  then have c: "aft_inv c" "committable_indices c = []"
    using inv none by (simp_all add: inert_def flip: d_def)
      (simp add: c_def reset_last_ack_timeouts_def)
  have "terminates (commit (last_idx c) c)" using c by (intro terminates_commit) simp_all
  moreover have "terminates (for_each (announce_leadership (last_idx c + 1)) (al_keys (nodes c)) c)"
    using c by (simp add: terminates_returns announce_leadership_returns aft_inv_log_wf)
  ultimately show ?thesis
    unfolding become_leader_def Let_def b_def [symmetric] seq_returns [OF ret] d_def [symmetric] c_def [symmetric] by simp
qed

lemma terminates_add_vote_for_me: "aft_inv a \<Longrightarrow> terminates (add_vote_for_me k a)"
  by (simp add: add_vote_for_me_def Let_def terminates_become_leader)

lemma terminates_send_request_votes: "terminates (for_each (\<lambda>k a. ok (send_request_vote k a)) ks a)"
  by (induction ks arbitrary: a) simp_all

lemma terminates_become_candidate:
  assumes "aft_inv a"
  shows "terminates (become_candidate a)"
proof -
  define b where "b = clear_orc_sets (a\<lparr>leadership_state := Some Candidate, leader_id := None\<rparr>)"
  define c where "c = b\<lparr>voted_for := Some (my_node_id b), votes_for_me := {},
      current_view := current_view b + 1\<rparr>"
  define d where "d = reset_last_ack_timeouts (restart_election_timeout c)"
  have "aft_inv c"
    using assms inert_clear_orc_sets [of "a\<lparr>leadership_state := Some Candidate, leader_id := None\<rparr>"]
    by (simp add: c_def b_def inert_def)
  then have "aft_inv (restart_election_timeout c)"
    by (rule evolves_inv [OF evolves_restart_election_timeout])
  then have "aft_inv d" using inert_reset_last_ack_timeouts by (simp add: d_def inert_def)
  then have "terminates (add_vote_for_me (my_node_id d) d)" by (rule terminates_add_vote_for_me)
  then show ?thesis
    unfolding become_candidate_def Let_def b_def [symmetric] c_def [symmetric] d_def [symmetric]
    by (cases "add_vote_for_me (my_node_id d) d") (simp_all add: terminates_send_request_votes)
qed

lemma terminates_recv_request_vote: "aft_inv a \<Longrightarrow> terminates (recv_request_vote k r a)"
  using terminates_become_aware [of a "rv_term r"]
  by (cases "become_aware_of_new_term (rv_term r) a") (simp_all add: recv_request_vote_def)

lemma terminates_recv_request_vote_response: "aft_inv a \<Longrightarrow> terminates (recv_request_vote_response k r a)"
  by (simp add: recv_request_vote_response_def terminates_become_aware terminates_add_vote_for_me)

section \<open>Replication\<close>

lemma terminates_with_history_update:
  "terminates (with_history (vh_update idx t vh) a)"
  by (simp add: with_history_def vh_update_def)

lemma terminates_flush_if_full:
  assumes "aft_inv a"
  shows "terminates (flush_if_full a)"
proof -
  have "aft_inv ((update_batch_size a)\<lparr>entry_count := 0, entry_size_not_limited := 0\<rparr>)"
    using assms inert_update_batch_size [of a] by (simp add: inert_def)
  then show ?thesis
    by (simp add: flush_if_full_def terminates_returns send_append_entries_to_all_returns aft_inv_log_wf)
qed

lemma terminates_append_entry: "terminates (append_entry e a)"
  by (simp add: append_entry_def Let_def terminates_with_history_update)

lemma terminates_replicate_entry:
  assumes "aft_inv a" and "be_index e = last_idx a + 1"
  shows "terminates (replicate_entry e a)"
proof (cases "for_each call_hook (be_hooks e) a")
  case (Done b v)
  have "evolves a b" "same_log a b"
    using evolves_call_hooks [OF assms(1), of "be_hooks e"] same_log_call_hooks [of a "be_hooks e"] Done
    by simp_all
  then have "evolves b (final (append_entry e b))"
    using assms(2) by (intro evolves_append_entry) (simp_all add: evolves_def same_log_def)
  with terminates_append_entry have "terminates (seq (append_entry e b) flush_if_full)"
    by (rule terminates_seqI) (auto intro: terminates_flush_if_full dest: evolves_inv)
  with Done show ?thesis by (simp add: replicate_entry_def)
next
  case (Throw b x)
  then show ?thesis by (simp add: replicate_entry_def)
next
  case (Diverge b)
  with terminates_call_hooks [OF assms(1), of "be_hooks e"] show ?thesis by simp
qed

lemma terminates_replicate_entries: "aft_inv a \<Longrightarrow> terminates (replicate_entries es a)"
proof (induction es arbitrary: a)
  case (Cons e es)
  have "terminates (bindv (replicate_entry e a) (\<lambda>a _. replicate_entries es a))"
    if "be_index e = last_idx a + 1"
    using terminates_replicate_entry [OF Cons.prems that] evolves_replicate_entry [OF Cons.prems that]
    by (rule terminates_bindvI) (auto intro: Cons.IH dest: evolves_inv)
  then show ?case by simp
qed simp

lemma terminates_Done_after: "terminates m \<Longrightarrow> terminates (bindv m (\<lambda>a _. Done a v))"
  by (cases m) simp_all

lemma terminates_replicate_batch:
  assumes "aft_inv a"
  shows "terminates (replicate_batch es t a)"
proof -
  have "terminates (bindv (replicate_entries es a) (\<lambda>a ok_so_far. if \<not> ok_so_far then Done a False
      else if nodes a = [] then bindv (update_commit a) (\<lambda>a _. Done a True) else Done a True))"
    using terminates_replicate_entries [OF assms] evolves_replicate_entries [OF assms]
    by (rule terminates_bindvI)
      (auto intro!: terminates_Done_after terminates_update_commit dest: evolves_inv)
  with assms show ?thesis
    by (simp add: replicate_batch_def terminates_Done_after terminates_rollback)
qed

section \<open>Append entries\<close>

lemma terminates_deserialise_entries:
  "aft_inv a \<Longrightarrow> terminates (deserialise_entries k r js data acc a)"
  by (induction js arbitrary: data acc a)
    (auto simp: Let_def intro!: terminates_Done_after terminates_response split: sum.split option.split)

lemma terminates_histories:
  "terminates (signature_history r ds a)" "terminates (finish_history r a)"
  by (simp_all add: signature_history_def finish_history_def Let_def terminates_with_history_update)

lemma terminates_record_entry:
  assumes "aft_inv a" and "\<forall>j\<in>set (committable_indices a). j < last_idx a"
    and "commit_idx a < last_idx a" and "ae_prev_idx r < last_idx a"
  shows "terminates (record_entry r ds (last_idx a) res a)"
proof -
  define f where "f = emit (LedgerPutEntry (ew_entry ds) (res = PASS_SIGNATURE) (ew_term ds) (ew_index ds))
      (if res = PASS_SIGNATURE then start_ticking_if_necessary a else a)"
  have f: "aft_inv f" "last_idx f = last_idx a" "committable_indices f = committable_indices a"
    "commit_idx f = commit_idx a"
    using assms(1) inert_start_ticking [of a] by (simp_all add: f_def inert_def)
  define b where "b = mark_committable (last_idx a) f"
  have "aft_inv b"
    using evolves_mark_committable [of f] assms(2,3) f by (simp add: b_def evolves_inv)
  moreover have "ae_prev_idx r < last_idx b" using assms(4) f(2) by (simp add: b_def)
  ultimately have "terminates (seq (signature_history r ds b) (commit_if_possible (ae_leader_commit_idx r)))"
    by (intro terminates_seqI [OF terminates_histories(1) evolves_signature_history])
      (auto intro: terminates_commit_if_possible evolves_inv)
  then have "terminates (apply_signature r ds (last_idx a) f)"
    unfolding apply_signature_def Let_def b_def [symmetric] by simp
  then show ?thesis
    unfolding record_entry_def Let_def f_def [symmetric]
    by (auto intro: terminates_Done_after split: ApplyResult.split)
qed

lemma terminates_execute_entry:
  assumes "aft_inv a" and "i = last_idx a + 1" and "ae_prev_idx r \<le> last_idx a"
  shows "terminates (execute_entry k r (ds, i) a)"
proof -
  define c where "c = emit (StoreExecute i) a"
  let ?d = "c\<lparr>last_idx := i\<rparr>"
  let ?hooks = "for_each call_hook (ew_hooks ds (trace c)) ?d"
  let ?res = "ew_apply ds (trace a)"
  have d: "aft_inv ?d" using assms by (simp add: c_def aft_inv_longer_log)
  have "terminates (record_entry r ds i ?res e)" if ev: "evolves ?d e" and lg: "same_log ?d e" for e
  proof -
    have e: "last_idx e = i" "committable_indices e = committable_indices a" "commit_idx e = commit_idx a"
      using lg by (simp_all add: same_log_def c_def)
    then have "\<forall>j\<in>set (committable_indices e). j < last_idx e" "commit_idx e < last_idx e"
      using assms(1,2) by (auto simp: aft_inv_def committable_inv_def le_imp_less_Suc)
    from terminates_record_entry [OF evolves_inv [OF ev] this, of r ds ?res] assms(2,3)
    show ?thesis by (simp add: e)
  qed
  with d have "terminates (bindv ?hooks (\<lambda>a _. record_entry r ds i ?res a))"
    using terminates_call_hooks [OF d] evolves_call_hooks [OF d] same_log_call_hooks [of ?d]
    by (cases ?hooks) (metis bindv.simps final.simps terminates_simps)+
  moreover have "terminates (send_append_entries_response k AE_FAIL None (emit (LedgerTruncate (dec64 i)) c))"
    using assms(1) by (intro terminates_response) (simp add: c_def)
  ultimately show ?thesis
    unfolding execute_entry_def Let_def c_def by (simp add: terminates_Done_after)
qed

lemma terminates_execute_finish:
  assumes "aft_inv a" and "ae_idx r \<le> last_idx a"
  shows "terminates (execute_append_entries_finish r k a)"
proof (cases "commit_if_possible (ae_leader_commit_idx r) a")
  case (Done b v)
  have "evolves a b" "same_tip a b"
    using evolves_commit_if_possible [OF assms(1), of "ae_leader_commit_idx r"]
      same_tip_commit_if_possible [of a "ae_leader_commit_idx r"] Done by simp_all
  then have "evolves b (final (finish_history r b))"
    using assms(2) by (intro evolves_finish_history) (simp_all add: evolves_def same_tip_def)
  with terminates_histories(2)
  have "terminates (seq (finish_history r b) (send_append_entries_response k AE_OK None))"
    by (rule terminates_seqI) (auto intro: terminates_response dest: evolves_inv)
  with Done show ?thesis by (simp add: execute_append_entries_finish_def)
next
  case (Throw b x)
  then show ?thesis by (simp add: execute_append_entries_finish_def)
next
  case (Diverge b)
  with terminates_commit_if_possible [OF assms(1), of "ae_leader_commit_idx r"] show ?thesis by simp
qed

lemma terminates_execute_sync:
  assumes "aft_inv a" and "map snd es = [last_idx a + 1 ..< n]" and "ae_prev_idx r \<le> last_idx a"
    and "ae_idx r \<le> last_idx a + length es"
  shows "terminates (execute_append_entries_sync es k r a)"
  using assms
proof (induction es arbitrary: a)
  case Nil
  then show ?case by (simp add: terminates_execute_finish)
next
  case (Cons e es)
  obtain ds i where e: "e = (ds, i)" by (cases e)
  have lt: "last_idx a + 1 < n" using Cons.prems(2) by (cases "last_idx a + 1 < n") simp_all
  then have i: "i = last_idx a + 1" and es: "map snd es = [last_idx a + 2 ..< n]"
    using Cons.prems(2) by (simp_all add: e upt_conv_Cons)
  note ex = execute_entry_evolves [OF Cons.prems(1) i Cons.prems(3), of k ds]
  note tm = terminates_execute_entry [OF Cons.prems(1) i Cons.prems(3), of k ds]
  have "terminates (execute_append_entries_sync es k r b)" if "execute_entry k r e a = Done b True" for b
  proof (rule Cons.IH)
    have "last_idx b = last_idx a + 1" using ex(2) that i by (simp add: e)
    then show "map snd es = [last_idx b + 1 ..< n]" "ae_prev_idx r \<le> last_idx b"
      "ae_idx r \<le> last_idx b + length es"
      using es Cons.prems(3,4) by simp_all
    show "aft_inv b" using ex(1) that by (simp add: e evolves_inv)
  qed
  with tm show ?case by (cases "execute_entry k r e a") (auto simp: e)
qed

lemma terminates_deserialise_execute:
  assumes "aft_inv a" and prev: "ae_prev_idx r \<le> last_idx a"
  shows "terminates (bindv
    (deserialise_entries k r [ae_prev_idx r + 1 ..< ae_idx r + 1] data [] a)
    (\<lambda>a entries. case entries of None \<Rightarrow> ok a | Some es \<Rightarrow> execute_append_entries_sync es k r a))"
proof (cases "deserialise_entries k r [ae_prev_idx r + 1 ..< ae_idx r + 1] data [] a")
  case (Done e v)
  let ?n = "max (last_idx a + 1) (max (ae_prev_idx r + 1) (ae_idx r + 1))"
  have "map snd ([] :: (ExecutionWrapper \<times> Version) list)
      = [last_idx a + 1 ..< max (last_idx a + 1) (ae_prev_idx r + 1)]"
    using prev by simp
  note ds = deserialise_entries_spec [OF assms(1) this, of k r "ae_idx r + 1" data]
  have ae: "evolves a e" using ds unfolding Done final.simps by blast
  have "terminates (execute_append_entries_sync es k r e)" if v: "v = Some es" for es
  proof (rule terminates_execute_sync [OF evolves_inv [OF ae]])
    have es: "map snd es = [last_idx a + 1 ..< ?n]" and e: "last_idx e = last_idx a"
      using ds Done v by blast+
    then have "length es = ?n - (last_idx a + 1)" by (metis length_map length_upt)
    with es e prev show "map snd es = [last_idx e + 1 ..< ?n]"
      "ae_prev_idx r \<le> last_idx e" "ae_idx r \<le> last_idx e + length es" by auto
  qed
  then show ?thesis unfolding Done by (cases v) auto
next
  case (Throw e x)
  then show ?thesis unfolding Throw by simp
next
  case (Diverge e)
  with terminates_deserialise_entries [OF assms(1)] show ?thesis by (metis terminates_simps(3))
qed

lemma terminates_accept_append_entries:
  assumes "aft_inv a"
  shows "terminates (accept_append_entries k r data a)"
proof -
  define b where "b = restart_election_timeout a"
  define c where "c = (if leader_id b \<noteq> Some k then b\<lparr>leader_id := Some k\<rparr> else b)"
  have "aft_inv b" using evolves_inv [OF evolves_restart_election_timeout [OF assms]] by (simp add: b_def)
  then have c: "aft_inv c" by (simp add: c_def)
  have "terminates (seq (new_follower_rollback r c) (\<lambda>a. bindv
    (deserialise_entries k r [ae_prev_idx r + 1 ..< ae_idx r + 1] data [] a)
    (\<lambda>a entries. case entries of None \<Rightarrow> ok a | Some es \<Rightarrow> execute_append_entries_sync es k r a)))"
    if "ae_prev_idx r \<le> last_idx c" "commit_idx c \<le> ae_prev_idx r"
  proof -
    note nf = new_follower_rollback_evolves [OF c that]
    have "returns (new_follower_rollback r c)"
      using rollback_returns [OF c] by (simp add: new_follower_rollback_def returns_seq)
    from terminates_deserialise_execute [OF evolves_inv [OF nf(1)] nf(2)]
    show ?thesis unfolding seq_returns [OF \<open>returns _\<close>] .
  qed
  with c show ?thesis
    unfolding accept_append_entries_def Let_def b_def [symmetric] c_def [symmetric]
    by (auto simp del: upt_Suc simp: aft_inv_def)
qed

lemma terminates_recv_append_entries:
  assumes "aft_inv a"
  shows "terminates (recv_append_entries k r data a)"
proof -
  have check: "terminates (check_append_entries k r data b)" if "aft_inv b" for b
    using that by (simp add: check_append_entries_def Let_def terminates_response terminates_accept_append_entries)
  have "terminates (seq (become_aware_of_new_term (ae_term r) a) (check_append_entries k r data))"
    if "current_view a \<le> ae_term r"
    using terminates_become_aware [OF assms] evolves_become_aware [OF assms that]
    by (rule terminates_seqI) (auto intro: check dest: evolves_inv)
  with assms check show ?thesis by (simp add: recv_append_entries_def terminates_response)
qed

section \<open>Acknowledgements, clock and dispatch\<close>

lemma terminates_recv_append_entries_response:
  assumes "aft_inv a"
  shows "terminates (recv_append_entries_response k r a)"
proof -
  have node: "aft_inv (c\<lparr>nodes := al_update k f (nodes c)\<rparr>) = aft_inv c" for c f
    by (simp add: aft_inv_nodes_values)
  have "terminates (update_match k r b)" if b: "aft_inv b" for b
  proof -
    obtain n where "find_highest_possible_match \<lparr>tx_view = aer_term r, tx_seqno = aer_last_log_idx r\<rparr> b = Some n"
      using find_highest_possible_match_spec [of b "\<lparr>tx_view = aer_term r, tx_seqno = aer_last_log_idx r\<rparr>"] b
      by (auto simp: aft_inv_def log_wf_def)
    with b show ?thesis
      by (simp add: update_match_def Let_def set_match_idx_def node terminates_update_commit
          split: AppendEntriesResponseType.split)
  qed
  with assms show ?thesis
    by (simp add: recv_append_entries_response_def Let_def terminates_become_aware node)
qed

lemma terminates_periodic:
  assumes "aft_inv a"
  shows "terminates (periodic t a)"
proof -
  define b where "b = a\<lparr>timeout_elapsed := timeout_elapsed a + t\<rparr>"
  have b: "aft_inv b" using assms by (simp add: b_def)
  have cq: "terminates (check_quorum t c)" if "aft_inv c" for c
    using that inert_age_acks [of c t]
    by (simp add: check_quorum_def Let_def terminates_become_follower inert_def)
  have u: "aft_inv (update_batch_size (b\<lparr>timeout_elapsed := 0\<rparr>))"
    using b inert_update_batch_size [of "b\<lparr>timeout_elapsed := 0\<rparr>"] by (simp add: inert_def)
  then have "terminates (seq (send_append_entries_to_all (update_batch_size (b\<lparr>timeout_elapsed := 0\<rparr>)))
      (check_quorum t))"
    by (intro terminates_seqI [OF terminates_returns evolves_send_to_all])
      (auto intro: send_append_entries_to_all_returns aft_inv_log_wf cq dest: evolves_inv)
  with b cq show ?thesis
    unfolding periodic_def Let_def b_def [symmetric] by (simp add: terminates_become_candidate)
qed

lemma terminates_recv_message:
  assumes "aft_inv a"
  shows "terminates (recv_message k data a)"
proof -
  have "terminates (dispatch_message t k data a)" for t
    using assms
    by (auto simp: dispatch_message_def terminates_recv_append_entries
        terminates_recv_append_entries_response terminates_recv_request_vote
        terminates_recv_request_vote_response split: sum.split)
  then show ?thesis by (auto simp: recv_message_def split: sum.split exec.split) (metis terminates_simps(3))
qed

end
