(* ===== verification/Aft_Quorum.thy ===== *)
theory Aft_Quorum
  imports Aft_Invariant_Node
begin

text \<open>
  The three counts of \<open>aft::Aft\<close>: the commit watermark of \<open>update_commit\<close>, the votes
  of \<open>add_vote_for_me\<close> and the acknowledgements of CheckQuorum, each against what it is
  meant to be, a majority. The locale states what any two majorities of one set of nodes have
  in common.
\<close>

section \<open>Majorities\<close>

definition majority :: "NodeId set \<Rightarrow> NodeId set \<Rightarrow> bool" where
  "majority ns q \<longleftrightarrow> q \<subseteq> ns \<and> 2 * card q > card ns"

locale quorum_system =
  fixes quorum :: "'p set \<Rightarrow> 'p set \<Rightarrow> bool"
  assumes quorum_subset: "quorum ns q \<Longrightarrow> q \<subseteq> ns"
    and quorum_inter: "finite ns \<Longrightarrow> quorum ns q \<Longrightarrow> quorum ns q' \<Longrightarrow> q \<inter> q' \<noteq> {}"
begin

text \<open>What every member of a quorum has, some member of every other quorum has too.\<close>

lemma quorums_share:
  assumes "finite ns" and "quorum ns q" and "quorum ns q'" and "\<forall>p\<in>q. P p"
  shows "\<exists>p\<in>q'. P p"
  using assms quorum_inter [OF assms(1-3)] by blast

text \<open>If no member chooses two values, two quorums cannot choose different ones.\<close>

lemma quorum_unique_choice:
  assumes "finite ns" and "quorum ns q" and "quorum ns q'"
    and "\<forall>p\<in>q. R p v" and "\<forall>p\<in>q'. R p v'" and "\<And>p x y. R p x \<Longrightarrow> R p y \<Longrightarrow> x = y"
  shows "v = v'"
  using assms(4-6) quorum_inter [OF assms(1-3)] by blast

end

lemma majority_inter:
  assumes "finite ns" and "majority ns q" and "majority ns q'"
  shows "q \<inter> q' \<noteq> {}"
proof
  assume "q \<inter> q' = {}"
  have fin: "finite q" "finite q'" using assms by (auto simp: majority_def intro: finite_subset)
  have "card (q \<union> q') \<le> card ns"
    using assms by (intro card_mono) (auto simp: majority_def)
  with \<open>q \<inter> q' = {}\<close> fin have "card q + card q' \<le> card ns" by (simp add: card_Un_disjoint)
  with assms(2,3) show False by (simp add: majority_def)
qed

interpretation raft_quorum: quorum_system majority
  by unfold_locales (simp add: majority_def, rule majority_inter)

section \<open>The commit watermark\<close>

definition replicated_upto :: "Aft \<Rightarrow> NodeId \<Rightarrow> Index" where
  "replicated_upto a k = (if k = my_node_id a then last_idx a else match_idx_of k a)"

definition majority_has :: "Aft \<Rightarrow> Configuration \<Rightarrow> Index \<Rightarrow> bool" where
  "majority_has a c i \<longleftrightarrow>
     2 * length (filter (\<lambda>k. i \<le> replicated_upto a k) (al_keys (cfg_nodes c))) > length (cfg_nodes c)"

lemma length_filter_ge_sorted:
  fixes xs :: "nat list"
  assumes "sorted xs" and "i < length xs"
  shows "length xs - i \<le> length (filter (\<lambda>x. xs ! i \<le> x) xs)"
    and "xs ! i < j \<Longrightarrow> length (filter (\<lambda>x. j \<le> x) xs) \<le> length xs - Suc i"
proof -
  have "\<forall>x\<in>set (drop i xs). xs ! i \<le> x"
    using assms by (auto simp: in_set_conv_nth sorted_nth_mono)
  then have "filter (\<lambda>x. xs ! i \<le> x) (drop i xs) = drop i xs" by simp
  moreover have "filter (\<lambda>x. xs ! i \<le> x) xs
      = filter (\<lambda>x. xs ! i \<le> x) (take i xs) @ filter (\<lambda>x. xs ! i \<le> x) (drop i xs)"
    by (metis append_take_drop_id filter_append)
  ultimately show "length xs - i \<le> length (filter (\<lambda>x. xs ! i \<le> x) xs)" by simp
  assume "xs ! i < j"
  then have "\<forall>x\<in>set (take (Suc i) xs). \<not> j \<le> x"
    using assms by (auto simp: in_set_conv_nth less_Suc_eq_le) (meson le_trans not_less sorted_nth_mono)
  then have "filter (\<lambda>x. j \<le> x) (take (Suc i) xs) = []" by simp
  moreover have "filter (\<lambda>x. j \<le> x) xs
      = filter (\<lambda>x. j \<le> x) (take (Suc i) xs) @ filter (\<lambda>x. j \<le> x) (drop (Suc i) xs)"
    by (metis append_take_drop_id filter_append)
  ultimately show "length (filter (\<lambda>x. j \<le> x) xs) \<le> length xs - Suc i"
    by (metis append_Nil length_drop length_filter_le)
qed

lemma length_filter_mono: "(\<And>x. P x \<Longrightarrow> Q x) \<Longrightarrow> length (filter P xs) \<le> length (filter Q xs)"
  by (induction xs) auto

lemma median_is_majority_index:
  fixes xs :: "nat list"
  assumes "xs \<noteq> []"
  shows "j \<le> sort xs ! ((length xs - 1) div 2) \<longleftrightarrow> 2 * length (filter (\<lambda>x. j \<le> x) xs) > length xs"
proof -
  let ?s = "sort xs" and ?i = "(length xs - 1) div 2"
  have i: "?i < length ?s" using assms by (cases xs) auto
  have len: "length (filter (\<lambda>x. j \<le> x) xs) = length (filter (\<lambda>x. j \<le> x) ?s)"
    by (metis filter_sort length_sort)
  note ge = length_filter_ge_sorted [OF sorted_sort i]
  show ?thesis
  proof (cases "j \<le> ?s ! ?i")
    case True
    have "length (filter (\<lambda>x. ?s ! ?i \<le> x) ?s) \<le> length (filter (\<lambda>x. j \<le> x) ?s)"
      using True by (intro length_filter_mono) simp
    with ge(1) have "length xs - ?i \<le> length (filter (\<lambda>x. j \<le> x) ?s)" by simp
    with True assms show ?thesis unfolding len by (cases xs) auto
  next
    case False
    with ge(2) have "length (filter (\<lambda>x. j \<le> x) ?s) \<le> length xs - Suc ?i" by simp
    with False show ?thesis unfolding len by auto
  qed
qed

lemma match_indices_Some: "match_indices a ks = Some m \<Longrightarrow> m = map (replicated_upto a) ks"
  by (induction ks arbitrary: m)
    (auto simp: replicated_upto_def match_idx_of_def split: if_splits option.splits)

lemma confirmed_index_majority:
  assumes "confirmed_index a c = Some w"
  shows "j \<le> w \<longleftrightarrow> majority_has a c j"
proof -
  let ?ks = "al_keys (cfg_nodes c)"
  from assms obtain m where m: "match_indices a ?ks = Some m" "m \<noteq> []"
    and w: "w = sort m ! ((length m - 1) div 2)"
    by (auto simp: confirmed_index_def split: option.splits if_splits)
  have eq: "m = map (replicated_upto a) ?ks" using m(1) by (rule match_indices_Some)
  have "length (filter (\<lambda>x. j \<le> x) m) = length (filter (\<lambda>k. j \<le> replicated_upto a k) ?ks)"
    by (simp add: eq filter_map comp_def)
  with median_is_majority_index [OF m(2), of j] show ?thesis
    by (simp add: w majority_has_def) (simp add: eq length_al_keys)
qed

lemma new_commit_cft_idx_majority:
  "new_commit_cft_idx a cs acc = Some w \<Longrightarrow>
    j \<le> w \<longleftrightarrow> j \<le> acc \<and> (\<forall>c\<in>set cs. majority_has a c j)"
proof (induction cs arbitrary: acc)
  case (Cons c cs)
  then obtain v where v: "confirmed_index a c = Some v"
    and w: "new_commit_cft_idx a cs (if v < acc then v else acc) = Some w"
    by (auto split: option.splits)
  from Cons.IH [OF w] confirmed_index_majority [OF v, of j] show ?case by auto
qed simp

lemma same_commit_configurations: "commit_idx (final (commit_configurations idx changed a)) = commit_idx a"
proof (induction idx changed a rule: commit_configurations.induct)
  case (1 idx changed a)
  have o: "commit_idx (observe_own_removal idx conf nxt a) = commit_idx a" for conf nxt
    by (simp add: observe_own_removal_def become_retiring_def become_retired_def)
  have s: "commit_idx (switch_configuration conf nxt b) = commit_idx b" for b conf nxt
    by (simp add: switch_configuration_def Let_def cleanup_if_primary_def)
  show ?case
    using 1 o s
    by (subst commit_configurations.simps)
      (auto simp: await_switch_def cleanup_if_primary_def split: list.split option.split bool.split)
qed

lemma commit_idx_commit:
  "commit_idx (final (commit idx a)) =
     (if commit_idx a < idx \<and> idx \<le> last_idx a then idx else commit_idx a)"
proof -
  have "commit_idx (final (finish_commit idx b changed)) = commit_idx b" for b changed
    by (simp add: finish_commit_def Let_def)
  then have "commit_idx (final (bindv (commit_configurations idx False (advance_commit idx a))
      (finish_commit idx))) = commit_idx (advance_commit idx a)"
    by (simp add: final_bindv_frame same_commit_configurations)
  then show ?thesis by (auto simp: commit_def advance_commit_def Let_def become_retired_def)
qed

text \<open>
  What \<open>commit_if_possible\<close> commits: the highest committable index up to \<open>idx\<close>.
\<close>

lemma commit_idx_commit_if_possible:
  assumes "aft_inv a" and "idx > commit_idx a" and "get_term_internal idx a \<le> current_view a"
  shows "commit_idx (final (commit_if_possible idx a)) =
    Max (insert (commit_idx a) {i \<in> set (committable_indices a). i \<le> idx})"
proof -
  let ?cs = "committable_indices a" and ?p = "\<lambda>i. i \<le> idx"
  have srt: "sorted_wrt (<) ?cs" and rng: "\<And>i. i \<in> set ?cs \<Longrightarrow> commit_idx a < i \<and> i \<le> last_idx a"
    using assms(1) by (auto simp: aft_inv_def committable_inv_def)
  have tw: "takeWhile ?p ?cs = filter ?p ?cs"
    using srt by (intro sorted_takeWhile_le strict_sorted_imp_sorted)
  show ?thesis
  proof (cases "filter ?p ?cs = []")
    case True
    then have none: "{i \<in> set ?cs. i \<le> idx} = {}" by (auto simp: filter_empty_conv)
    show ?thesis unfolding none using True tw by (simp add: commit_if_possible_def Let_def)
  next
    case False
    let ?l = "last (filter ?p ?cs)"
    have "sorted (filter ?p ?cs)" using srt by (simp add: sorted_wrt_filter strict_sorted_imp_sorted)
    then have ub: "\<And>i. i \<in> set (filter ?p ?cs) \<Longrightarrow> i \<le> ?l" by (rule sorted_le_last)
    have mem: "?l \<in> set (filter ?p ?cs)" using False by (rule last_in_set)
    then have l: "commit_idx a < ?l" "?l \<le> last_idx a" using rng by auto
    have "Max (insert (commit_idx a) {i \<in> set ?cs. i \<le> idx}) = ?l"
      using ub mem l(1) by (intro Max_eqI) auto
    moreover have "commit_idx (final (commit_if_possible idx a)) = ?l"
      using assms False l by (simp add: commit_if_possible_def Let_def tw commit_idx_commit aft_inv_def)
    ultimately show ?thesis by simp
  qed
qed

text \<open>
  What \<open>update_commit\<close> does when the indices stay below the sentinel \<open>uint64_max\<close>: it
  moves the watermark to exactly the last index that a majority of every configuration has.
\<close>

definition indices_bounded :: "Aft \<Rightarrow> bool" where
  "indices_bounded a \<longleftrightarrow> last_idx a < uint64_max \<and> (\<forall>(k, n)\<in>set (nodes a). match_idx n < uint64_max)"

lemma replicated_upto_bounded: "indices_bounded a \<Longrightarrow> replicated_upto a k < uint64_max"
  by (auto simp: indices_bounded_def replicated_upto_def match_idx_of_def split: option.split
      dest!: map_of_SomeD)

lemma majority_has_bounded:
  assumes "indices_bounded a" and "majority_has a c j"
  shows "j < uint64_max"
proof -
  have "filter (\<lambda>k. j \<le> replicated_upto a k) (al_keys (cfg_nodes c)) \<noteq> []"
    using assms(2) by (auto simp: majority_has_def)
  then obtain k where "j \<le> replicated_upto a k" by (auto simp: filter_empty_conv)
  with replicated_upto_bounded [OF assms(1), of k] show ?thesis by simp
qed

lemma majority_has_le:
  assumes "majority_has a c j" and "\<forall>(k, n)\<in>set (nodes a). match_idx n \<le> last_idx a"
  shows "j \<le> last_idx a"
proof -
  have "filter (\<lambda>k. j \<le> replicated_upto a k) (al_keys (cfg_nodes c)) \<noteq> []"
    using assms(1) by (auto simp: majority_has_def)
  then obtain k where "j \<le> replicated_upto a k" by (auto simp: filter_empty_conv)
  with assms(2) show ?thesis
    by (auto simp: replicated_upto_def match_idx_of_def split: if_splits option.splits dest!: map_of_SomeD)
qed

text \<open>No lookup of \<open>update_commit\<close> fails when there is a node state for every node.\<close>

lemma match_indices_defined:
  "set ks \<subseteq> insert (my_node_id a) (set (al_keys (nodes a))) \<Longrightarrow> \<exists>m. match_indices a ks = Some m"
  by (induction ks) (auto dest!: keys_map_of_Some)

lemma confirmed_index_defined:
  assumes "node_ids (cfg_nodes c) \<subseteq> insert (my_node_id a) (set (al_keys (nodes a)))" and "cfg_nodes c \<noteq> []"
  shows "\<exists>w. confirmed_index a c = Some w"
proof -
  obtain m where m: "match_indices a (al_keys (cfg_nodes c)) = Some m"
    using match_indices_defined [OF assms(1)] by blast
  moreover have "m \<noteq> []" using match_indices_Some [OF m] assms(2) by (cases "cfg_nodes c") auto
  ultimately show ?thesis by (simp add: confirmed_index_def)
qed

lemma new_commit_cft_idx_defined:
  "\<forall>c\<in>set cs. \<exists>w. confirmed_index a c = Some w \<Longrightarrow> \<exists>w. new_commit_cft_idx a cs acc = Some w"
  by (induction cs arbitrary: acc) auto

lemma update_commit_defined:
  assumes "aft_inv a" and "\<forall>c\<in>set (configurations a). cfg_nodes c \<noteq> []"
  shows "new_commit_cft_idx a (configurations a) acc \<noteq> None"
proof -
  have "\<forall>c\<in>set (configurations a). \<exists>w. confirmed_index a c = Some w"
    using assms by (simp add: aft_inv_def nodes_inv_def confirmed_index_defined)
  from new_commit_cft_idx_defined [OF this] show ?thesis by simp
qed

lemma update_commit_watermark:
  assumes "indices_bounded a" and "configurations a \<noteq> []"
  obtains "new_commit_cft_idx a (configurations a) uint64_max = None"
      and "update_commit a = Throw a OutOfRange"
  | w where "update_commit a =
        (if w > last_idx a
         then Throw (a\<lparr>cft_watermark_idx := w\<rparr>)
                (LogicError ''Followers appear to have later match indices than leader'')
         else commit_if_possible w (a\<lparr>cft_watermark_idx := w\<rparr>))"
      and "\<And>j. j \<le> w \<longleftrightarrow> (\<forall>c\<in>set (configurations a). majority_has a c j)"
proof (cases "new_commit_cft_idx a (configurations a) uint64_max")
  case None
  then show ?thesis using that(1) by (simp add: update_commit_def)
next
  case (Some w)
  note m = new_commit_cft_idx_majority [OF Some]
  obtain c where c: "c \<in> set (configurations a)" using assms(2) by (cases "configurations a") auto
  have "w < uint64_max" using m [of w] c majority_has_bounded [OF assms(1)] by blast
  then have w: "w \<noteq> uint64_max" by simp
  have "j \<le> w \<longleftrightarrow> (\<forall>c\<in>set (configurations a). majority_has a c j)" for j
    using m [of j] c majority_has_bounded [OF assms(1), of c j] by auto
  moreover have "update_commit a =
        (if w > last_idx a
         then Throw (a\<lparr>cft_watermark_idx := w\<rparr>)
                (LogicError ''Followers appear to have later match indices than leader'')
         else commit_if_possible w (a\<lparr>cft_watermark_idx := w\<rparr>))"
    using Some w by (simp add: update_commit_def Let_def get_commit_watermark_idx_def)
  ultimately show ?thesis using that(2) by blast
qed

section \<open>Votes and acknowledgements\<close>

definition responsive_count :: "Aft \<Rightarrow> nat" where
  "responsive_count a = length (filter (\<lambda>(k, n). last_ack_timeout n < election_timeout a) (nodes a))"

lemma responsive_plus_timed_out: "responsive_count a + backup_ack_timeout_count a = length (nodes a)"
  unfolding responsive_count_def backup_ack_timeout_count_def
  by (induction "nodes a") (auto simp: not_less [symmetric] case_prod_beta sum_length_filter_compl)

end
