(* ===== verification/Aft_Ballot.thy ===== *)
theory Aft_Ballot
  imports Aft_Step Aft_Quorum
begin

text \<open>
  The voting protocol of \<open>aft::Aft\<close>, apart from its log. An abstract ballot machine has six
  rules: learn of a term, step down, campaign, grant a vote, count a vote, win. As long as the
  configuration does not change, every handler of a node implements a sequence of them.
\<close>

section \<open>The ballot machine\<close>

record Ballot =
  b_view :: Term
  b_voted :: "NodeId option"
  b_role :: "LeadershipState option"
  b_votes :: "NodeId set"
  b_grants :: "(NodeId \<times> Term) set"

text \<open>\<open>heard\<close> are the votes that reach the node: the voter and the term of its vote.\<close>

inductive ballot_step :: "NodeId \<Rightarrow> nat \<Rightarrow> (NodeId \<times> Term) set \<Rightarrow> Ballot \<Rightarrow> Ballot \<Rightarrow> bool"
  for me :: NodeId and n :: nat and heard :: "(NodeId \<times> Term) set"
where
  learn_term: "b_view b < t \<or> (b_view b = t \<and> b_role b = Some Candidate) \<Longrightarrow>
    ballot_step me n heard b (b\<lparr>b_view := t, b_voted := None, b_role := Some Follower, b_votes := {}\<rparr>)"
| step_down: "ballot_step me n heard b (b\<lparr>b_role := Some Follower\<rparr>)"
| campaign: "b_role b \<noteq> Some Leader \<Longrightarrow>
    ballot_step me n heard b
      (b\<lparr>b_view := b_view b + 1, b_voted := Some me, b_role := Some Candidate, b_votes := {me}\<rparr>)"
| grant: "c \<noteq> me \<Longrightarrow> b_voted b = None \<or> b_voted b = Some c \<Longrightarrow>
    ballot_step me n heard b (b\<lparr>b_voted := Some c, b_grants := insert (c, b_view b) (b_grants b)\<rparr>)"
| count_vote: "b_role b = Some Candidate \<Longrightarrow> (k, b_view b) \<in> heard \<Longrightarrow>
    ballot_step me n heard b (b\<lparr>b_votes := insert k (b_votes b)\<rparr>)"
| win: "b_role b = Some Candidate \<Longrightarrow> n < 2 * card (b_votes b) \<Longrightarrow>
    ballot_step me n heard b (b\<lparr>b_role := Some Leader\<rparr>)"

abbreviation ballot_steps :: "NodeId \<Rightarrow> nat \<Rightarrow> (NodeId \<times> Term) set \<Rightarrow> Ballot \<Rightarrow> Ballot \<Rightarrow> bool" where
  "ballot_steps me n heard \<equiv> (ballot_step me n heard)\<^sup>*\<^sup>*"

section \<open>The ballot of a node\<close>

definition granted_vote :: "Term \<Rightarrow> RaftMsg" where
  "granted_vote t = MsgRequestVoteResponse \<lparr>rvr_term = t, rvr_vote_granted = True\<rparr>"

definition grants :: "event list \<Rightarrow> (NodeId \<times> Term) set" where
  "grants es = {(c, t). \<exists>sent. Send c (granted_vote t) sent \<in> set es}"

definition ballot :: "Aft \<Rightarrow> Ballot" where
  "ballot a = \<lparr>b_view = current_view a, b_voted = voted_for a, b_role = leadership_state a,
     b_votes = votes_for_me a, b_grants = grants (trace a)\<rparr>"

fun is_grant :: "event \<Rightarrow> bool" where
  "is_grant (Send c (MsgRequestVoteResponse r) sent) = rvr_vote_granted r"
| "is_grant e = False"

lemma grants_append [simp]: "grants (es @ es') = grants es \<union> grants es'"
  by (auto simp: grants_def)

lemma grants_Nil [simp]: "grants [] = {}"
  by (simp add: grants_def)

lemma grants_none: "\<forall>e\<in>set es. \<not> is_grant e \<Longrightarrow> grants es = {}"
  by (fastforce simp: grants_def granted_vote_def)

lemma grants_Cons [simp]: "\<not> is_grant e \<Longrightarrow> grants (e # es) = grants es"
  using grants_none [of "[e]"] grants_append [of "[e]" es] by simp

text \<open>
  A node in a static configuration: one committed configuration, no reconfiguration in the
  entries it is given, and no retirement.
\<close>

definition plain_env :: "Environment \<Rightarrow> bool" where
  "plain_env e \<longleftrightarrow> (\<forall>t d ct po tx w. env_deserialize e t d ct po tx = Some w \<longrightarrow> (\<forall>t'. ew_hooks w t' = []))"

definition settled :: "Aft \<Rightarrow> bool" where
  "settled a \<longleftrightarrow> (\<exists>c. configurations a = [c]) \<and> plain_env (env a)
     \<and> membership_state a = Active \<and> retirement_phase a = None \<and> retirement_committable_idx a = None
     \<and> reconfiguration_type a = ONE_TRANSACTION"

definition static_node :: "Aft \<Rightarrow> bool" where
  "static_node a \<longleftrightarrow> aft_inv a \<and> settled a
     \<and> cfg_idx (hd (configurations a)) \<le> commit_idx a"

definition kept :: "Aft \<Rightarrow> Aft \<Rightarrow> bool" where
  "kept a b \<longleftrightarrow> configurations b = configurations a \<and> al_keys (nodes b) = al_keys (nodes a)
     \<and> membership_state b = membership_state a \<and> retirement_phase b = retirement_phase a
     \<and> retirement_committable_idx b = retirement_committable_idx a
     \<and> reconfiguration_type b = reconfiguration_type a \<and> env b = env a"

definition quiet :: "Aft \<Rightarrow> Aft \<Rightarrow> bool" where
  "quiet a b \<longleftrightarrow> kept a b \<and> ballot b = ballot a"

lemma kept_refl [simp]: "kept a a"
  by (simp add: kept_def)

lemma kept_trans: "kept a b \<Longrightarrow> kept b c \<Longrightarrow> kept a c"
  by (simp add: kept_def)

lemma quiet_refl [simp]: "quiet a a"
  by (simp add: quiet_def)

lemma quiet_trans: "quiet a b \<Longrightarrow> quiet b c \<Longrightarrow> quiet a c"
  by (auto simp: quiet_def intro: kept_trans)

lemma static_node_kept: "static_node a \<Longrightarrow> kept a b \<Longrightarrow> evolves a b \<Longrightarrow> static_node b"
  by (auto simp: static_node_def settled_def kept_def evolves_def)

lemma static_node_settled: "static_node a \<Longrightarrow> settled a"
  by (simp add: static_node_def)

lemma settled_quiet: "settled a \<Longrightarrow> quiet a b \<Longrightarrow> settled b"
  by (simp add: settled_def quiet_def kept_def)

lemma static_node_inv: "static_node a \<Longrightarrow> aft_inv a"
  by (simp add: static_node_def)

lemma quiet_seqI:
  assumes "quiet a (final m)" and "\<And>b. quiet a b \<Longrightarrow> quiet b (final (f b))"
  shows "quiet a (final (seq m f))"
  using assms(1) by (rule final_seqI) (blast intro: quiet_trans assms(2))

lemma quiet_bindvI:
  assumes "quiet a (final m)" and "\<And>b v. quiet a b \<Longrightarrow> quiet b (final (f b v))"
  shows "quiet a (final (bindv m f))"
  using assms(1) by (rule final_bindvI) (blast intro: quiet_trans assms(2))

lemma quiet_for_eachI:
  assumes "\<And>x b. x \<in> set xs \<Longrightarrow> quiet a b \<Longrightarrow> quiet b (final (f x b))"
  shows "quiet a (final (for_each f xs a))"
  by (rule final_for_eachI) (auto intro: quiet_trans assms)

section \<open>Sending\<close>

lemma quiet_emit: "\<not> is_grant e \<Longrightarrow> quiet a (emit e a)"
  by (simp add: quiet_def kept_def ballot_def)

lemma quiet_send_authenticated:
  "\<not> is_grant (Send k m (send_ok k m a)) \<Longrightarrow> quiet a (send_authenticated k m a)"
  by (simp add: send_authenticated_def quiet_emit)

lemma quiet_nodes: "al_keys ns = al_keys (nodes a) \<Longrightarrow> quiet a (a\<lparr>nodes := ns\<rparr>)"
  by (simp add: quiet_def kept_def ballot_def)

lemma quiet_send_range: "quiet a (final (send_append_entries_range to s e a))"
proof -
  let ?m = "MsgAppendEntries (make_append_entries (dec64 s) e a)"
  let ?b = "send_authenticated to ?m a"
  have "quiet a ?b" by (rule quiet_send_authenticated) simp
  moreover have "quiet ?b (?b\<lparr>nodes := al_update to (\<lambda>n. n\<lparr>sent_idx := e\<rparr>) (nodes a)\<rparr>)"
    by (rule quiet_nodes) (simp add: send_authenticated_def)
  ultimately have "quiet a (?b\<lparr>nodes := al_update to (\<lambda>n. n\<lparr>sent_idx := e\<rparr>) (nodes a)\<rparr>)"
    by (rule quiet_trans)
  with \<open>quiet a ?b\<close> show ?thesis by (simp add: send_append_entries_range_def Let_def)
qed

lemma quiet_send_loop: "quiet a (final (send_append_entries_loop n to s a))"
proof (induction n arbitrary: s a)
  case (Suc n)
  show ?case
    unfolding send_append_entries_loop.simps Let_def
    by (rule quiet_seqI) (auto intro: quiet_send_range Suc.IH)
qed simp

lemma quiet_send_entries: "quiet a (final (send_append_entries to s a))"
  by (simp add: send_append_entries_def quiet_send_loop)

lemma quiet_send_to_all: "quiet a (final (send_append_entries_to_all a))"
  unfolding send_append_entries_to_all_def by (rule quiet_for_eachI) (rule quiet_send_entries)

lemma quiet_response: "quiet a (final (send_append_entries_response to ans rej a))"
proof -
  define b where "b = (if ans = AE_REQUIRE_EVIDENCE then a\<lparr>requested_evidence_from := Some to\<rparr> else a)"
  have b: "quiet a b" by (simp add: b_def quiet_def kept_def ballot_def)
  have s: "quiet b (send_authenticated to (MsgAppendEntriesResponse r) b)" for r
    by (rule quiet_send_authenticated) simp
  show ?thesis
    unfolding send_append_entries_response_def Let_def b_def [symmetric]
    using b quiet_trans [OF b s] by (auto split: option.split)
qed

lemma quiet_request_vote: "quiet a (send_request_vote to a)"
  unfolding send_request_vote_def by (rule quiet_send_authenticated) simp

lemma quiet_refused_vote: "quiet a (send_request_vote_response to False a)"
  unfolding send_request_vote_response_def by (rule quiet_send_authenticated) simp

lemma quiet_small_updates:
  "quiet a (restart_election_timeout a)" "quiet a (clear_orc_sets a)"
  "quiet a (reset_last_ack_timeouts a)" "quiet a (update_batch_size a)"
  "quiet a (age_acks t a)" "quiet a (start_ticking_if_necessary a)"
  "quiet a (fst (get_signable_txid a))" "quiet a (enable_all_domains a)"
  by (simp_all add: quiet_def kept_def ballot_def restart_election_timeout_def Let_def
      clear_orc_sets_def reset_last_ack_timeouts_def update_batch_size_def age_acks_def
      start_ticking_if_necessary_def start_ticking_def get_signable_txid_def enable_all_domains_def)

section \<open>Rollback and commit\<close>

lemma static_committable: "static_node a \<Longrightarrow> aft_inv a \<and> consensus_type a = CFT"
  by (simp add: static_node_def aft_inv_def)

lemma quiet_rollback:
  assumes "static_node a"
  shows "quiet a (final (rollback idx a))"
proof (cases "idx < commit_idx a")
  case True
  with assms show ?thesis by (simp add: rollback_def static_committable)
next
  case False
  let ?b = "truncate_log idx a"
  from assms obtain c where c: "configurations a = [c]" "cfg_idx c \<le> commit_idx a"
    by (auto simp: static_node_def settled_def)
  have q: "quiet a ?b" by (simp add: truncate_log_def Let_def quiet_def kept_def ballot_def)
  have "rollback_retirement idx ?b = ok ?b"
    using assms by (simp add: rollback_retirement_def static_node_def settled_def truncate_log_def Let_def)
  moreover have "rollback_configurations idx ?b = ok ?b"
    using assms c False by (simp add: rollback_configurations_def Let_def truncate_log_def
        pop_back_while_def static_node_def settled_def)
  ultimately show ?thesis using q False by (simp add: rollback_def)
qed

lemma quiet_commit:
  assumes "settled a"
  shows "quiet a (final (commit idx a))"
proof -
  let ?b = "advance_commit idx a"
  from assms obtain c where c: "configurations a = [c]" by (auto simp: settled_def)
  have q: "quiet a ?b"
    using assms by (simp add: advance_commit_def Let_def is_retired_def settled_def quiet_def
        kept_def ballot_def)
  then have "configurations ?b = [c]" using c by (simp add: quiet_def kept_def)
  then have "commit_configurations idx False ?b = Done ?b False"
    by (simp add: commit_configurations.simps)
  moreover have "quiet ?b (final (finish_commit idx ?b False))"
    by (simp add: finish_commit_def Let_def quiet_emit)
  ultimately show ?thesis
    using q quiet_trans [OF q] by (auto simp: commit_def)
qed

lemma quiet_commit_if_possible:
  assumes "settled a"
  shows "quiet a (final (commit_if_possible idx a))"
proof -
  let ?b = "a\<lparr>committable_indices := dropWhile (\<lambda>i. i \<le> idx) (committable_indices a)\<rparr>"
  have q: "quiet a ?b" by (simp add: quiet_def kept_def ballot_def)
  from quiet_trans [OF q quiet_commit [OF settled_quiet [OF assms q]]] q
  show ?thesis by (simp add: commit_if_possible_def Let_def)
qed

lemma quiet_update_commit:
  assumes "settled a"
  shows "quiet a (final (update_commit a))"
proof -
  have q: "quiet a (a\<lparr>cft_watermark_idx := w\<rparr>)" for w by (simp add: quiet_def kept_def ballot_def)
  from quiet_trans [OF q quiet_commit_if_possible [OF settled_quiet [OF assms q]]] show ?thesis
    using q quiet_commit_if_possible [OF assms] by (simp add: update_commit_def Let_def split: option.split)
qed

lemma quiet_with_history: "quiet a (final (with_history m a))"
  by (cases m) (simp_all add: with_history_def quiet_def kept_def ballot_def)

section \<open>Append entries\<close>

lemma quiet_deserialise: "quiet a (final (deserialise_entries from r js data acc a))"
proof (induction js arbitrary: data acc a)
  case (Cons i js)
  have e: "quiet a (emit (StoreApply d tx) a)" for d tx by (simp add: quiet_emit)
  have f: "quiet b (final (bindv (send_append_entries_response from AE_FAIL None b) (\<lambda>a _. Done a None)))" for b
    by (rule quiet_bindvI) (simp_all add: quiet_response)
  show ?case
    using Cons.IH f quiet_trans [OF e f] quiet_trans [OF e Cons.IH]
    by (auto simp: Let_def split: sum.split option.split)
qed simp

text \<open>What deserialising yields carries no hooks.\<close>

lemma deserialise_no_hooks:
  "plain_env (env a) \<Longrightarrow> deserialise_entries from r js data acc a = Done b (Some es) \<Longrightarrow>
    \<forall>(w, i)\<in>set acc. \<forall>t. ew_hooks w t = [] \<Longrightarrow> \<forall>(w, i)\<in>set es. \<forall>t. ew_hooks w t = []"
proof (induction js arbitrary: data acc a)
  case (Cons i js)
  show ?case
  proof (cases "i \<le> last_idx a")
    case True
    with Cons.prems(2) obtain data' where "deserialise_entries from r js data' acc a = Done b (Some es)"
      by (auto split: sum.splits)
    from Cons.IH [OF Cons.prems(1) this Cons.prems(3)] show ?thesis .
  next
    case False
    have bn: "bindv m (\<lambda>a _. Done a None) \<noteq> Done b (Some es)" for m :: "(Aft, unit) exec"
      by (cases m) simp_all
    let ?tx = "\<lparr>tx_view = ae_term_of_idx r, tx_seqno = i\<rparr>"
    from False Cons.prems(2) bn obtain entry data' w
      where w: "env_deserialize (env a) (trace a) entry (consensus_type a) (public_only a) ?tx = Some w"
        and rec: "deserialise_entries from r js data' (acc @ [(w, i)]) (emit (StoreApply entry ?tx) a)
          = Done b (Some es)"
      by (auto simp: Let_def split: sum.splits option.splits if_splits)
    from w Cons.prems(1) have "\<forall>t. ew_hooks w t = []" by (auto simp: plain_env_def)
    with Cons.prems(1,3) show ?thesis by (intro Cons.IH [OF _ rec]) auto
  qed
qed auto

lemma quiet_mark_committable: "settled a \<Longrightarrow> quiet a (mark_committable i a)"
  by (simp add: mark_committable_def Let_def settled_def quiet_def kept_def ballot_def)

lemma quiet_apply_signature:
  assumes "settled a"
  shows "quiet a (final (apply_signature r ds i a))"
proof -
  let ?b = "mark_committable i a"
  have q: "quiet a ?b" using assms by (rule quiet_mark_committable)
  have h: "quiet ?b (final (signature_history r ds ?b))"
    by (simp add: signature_history_def quiet_with_history)
  have "quiet ?b (final (seq (signature_history r ds ?b) (commit_if_possible (ae_leader_commit_idx r))))"
    using h by (rule quiet_seqI) (blast intro: quiet_commit_if_possible settled_quiet assms q)
  from quiet_trans [OF q this] q show ?thesis by (simp add: apply_signature_def Let_def)
qed

lemma quiet_record_entry:
  assumes "settled a"
  shows "quiet a (final (record_entry r ds i res a))"
proof -
  define b where "b = (if res = PASS_SIGNATURE then start_ticking_if_necessary a else a)"
  define c where "c = emit (LedgerPutEntry (ew_entry ds) (res = PASS_SIGNATURE) (ew_term ds) (ew_index ds)) b"
  have "quiet a b" by (simp add: b_def quiet_small_updates)
  moreover have "quiet b c" by (simp add: c_def quiet_emit)
  ultimately have q: "quiet a c" by (rule quiet_trans)
  have "quiet c (final (apply_signature r ds i c))"
    using quiet_apply_signature settled_quiet [OF assms q] .
  from quiet_trans [OF q this] have "quiet a (final (bindv (apply_signature r ds i c) (\<lambda>a _. Done a True)))"
    by (rule quiet_bindvI) simp
  with q show ?thesis
    unfolding record_entry_def Let_def b_def [symmetric] c_def [symmetric] by (simp split: ApplyResult.split)
qed

lemma quiet_execute_entry:
  assumes "settled a" and "\<forall>t. ew_hooks (fst e) t = []"
  shows "quiet a (final (execute_entry from r e a))"
proof -
  obtain ds i where e: "e = (ds, i)" by (cases e)
  let ?b = "emit (StoreExecute i) a"
  let ?res = "ew_apply ds (trace a)"
  have q: "quiet a ?b" by (simp add: quiet_emit)
  have l: "quiet ?b (?b\<lparr>last_idx := i\<rparr>)" by (simp add: quiet_def kept_def ballot_def)
  note ql = quiet_trans [OF q l]
  have t: "quiet a (emit (LedgerTruncate j) ?b)" for j
    using q by (rule quiet_trans) (simp add: quiet_emit)
  have f: "quiet a (final (bindv (send_append_entries_response from AE_FAIL None
      (emit (LedgerTruncate j) ?b)) (\<lambda>a _. Done a False)))" for j
    using quiet_trans [OF t quiet_response] by (rule quiet_bindvI) simp
  from quiet_trans [OF ql quiet_record_entry [OF settled_quiet [OF assms(1) ql]]] f assms(2) show ?thesis
    by (simp add: execute_entry_def e Let_def)
qed

lemma quiet_execute_finish:
  assumes "settled a"
  shows "quiet a (final (execute_append_entries_finish r from a))"
  unfolding execute_append_entries_finish_def
proof (rule quiet_seqI)
  show "quiet a (final (commit_if_possible (ae_leader_commit_idx r) a))"
    using assms by (rule quiet_commit_if_possible)
  fix b
  have "quiet b (final (finish_history r b))"
    by (simp add: finish_history_def Let_def quiet_with_history)
  then show "quiet b (final (seq (finish_history r b) (send_append_entries_response from AE_OK None)))"
    by (rule quiet_seqI) (rule quiet_response)
qed

lemma quiet_execute_sync:
  "settled a \<Longrightarrow> \<forall>(w, i)\<in>set es. \<forall>t. ew_hooks w t = [] \<Longrightarrow>
    quiet a (final (execute_append_entries_sync es from r a))"
proof (induction es arbitrary: a)
  case Nil
  then show ?case by (simp add: quiet_execute_finish)
next
  case (Cons e es)
  have "quiet a (final (execute_entry from r e a))"
    using Cons.prems by (intro quiet_execute_entry) auto
  moreover have "quiet b (final (if go_on then execute_append_entries_sync es from r b else ok b))"
    if "quiet a b" for b go_on
    using Cons.prems that by (auto intro: Cons.IH settled_quiet)
  ultimately show ?case unfolding execute_append_entries_sync.simps by (rule quiet_bindvI)
qed

lemma quiet_deserialise_execute:
  assumes "settled a"
  shows "quiet a (final (bindv (deserialise_entries from r js data [] a)
      (\<lambda>a entries. case entries of None \<Rightarrow> ok a | Some es \<Rightarrow> execute_append_entries_sync es from r a)))"
proof (cases "deserialise_entries from r js data [] a")
  case (Done b entries)
  have q: "quiet a b" using quiet_deserialise [of a "from" r js data "[]"] Done by simp
  show ?thesis
  proof (cases entries)
    case (Some es)
    have "\<forall>(w, i)\<in>set es. \<forall>t. ew_hooks w t = []"
      using assms Done Some by (intro deserialise_no_hooks [of a "from" r js data "[]" b es])
        (simp_all add: settled_def)
    from quiet_trans [OF q quiet_execute_sync [OF settled_quiet [OF assms q] this]] Done Some
    show ?thesis by simp
  qed (simp add: Done q)
qed (insert quiet_deserialise [of a "from" r js data "[]"], simp_all)

lemma quiet_accept:
  assumes "static_node a"
  shows "quiet a (final (accept_append_entries from r data a))"
proof -
  define b where "b = restart_election_timeout a"
  define c where "c = (if leader_id b \<noteq> Some from then b\<lparr>leader_id := Some from\<rparr> else b)"
  have "quiet a b" unfolding b_def by (rule quiet_small_updates)
  moreover have "quiet b c" by (simp add: c_def quiet_def kept_def ballot_def)
  ultimately have q: "quiet a c" by (rule quiet_trans)
  have "evolves a b" using assms by (simp add: b_def evolves_restart_election_timeout static_node_def)
  then have "evolves a c" by (simp add: c_def evolves_def)
  with assms q have c: "static_node c" by (auto simp: quiet_def intro: static_node_kept)
  have f: "quiet d (d\<lparr>is_new_follower := False\<rparr>)" for d by (simp add: quiet_def kept_def ballot_def)
  have n: "quiet c (final (new_follower_rollback r c))"
    unfolding new_follower_rollback_def by (auto intro!: quiet_seqI f quiet_rollback c)
  have x: "quiet d (final (bindv (deserialise_entries from r [ae_prev_idx r + 1 ..< ae_idx r + 1] data [] d)
      (\<lambda>a entries. case entries of None \<Rightarrow> ok a | Some es \<Rightarrow> execute_append_entries_sync es from r a)))"
    if "settled d" for d
    using that by (rule quiet_deserialise_execute)
  have "quiet c (final (seq (new_follower_rollback r c)
           (\<lambda>a. bindv (deserialise_entries from r [ae_prev_idx r + 1 ..< ae_idx r + 1] data [] a)
             (\<lambda>a entries. case entries of
                None \<Rightarrow> ok a
              | Some es \<Rightarrow> execute_append_entries_sync es from r a))))"
    using n x by (rule quiet_seqI) (rule settled_quiet [OF static_node_settled [OF c]])
  from quiet_trans [OF q this] q show ?thesis
    unfolding accept_append_entries_def Let_def b_def [symmetric] c_def [symmetric] by simp
qed

section \<open>Roles\<close>

text \<open>\<open>moves u a b\<close>: the configuration is kept and the ballot is changed by \<open>u\<close>.\<close>

definition moves :: "(Ballot \<Rightarrow> Ballot) \<Rightarrow> Aft \<Rightarrow> Aft \<Rightarrow> bool" where
  "moves u a b \<longleftrightarrow> kept a b \<and> ballot b = u (ballot a)"

lemma quiet_moves: "quiet a b \<longleftrightarrow> moves (\<lambda>x. x) a b"
  by (simp add: quiet_def moves_def)

lemma moves_quiet: "moves u a b \<Longrightarrow> quiet b c \<Longrightarrow> moves u a c"
  by (auto simp: moves_def quiet_def intro: kept_trans)

lemma quiet_then_moves: "quiet a b \<Longrightarrow> moves u b c \<Longrightarrow> moves u a c"
  by (auto simp: moves_def quiet_def intro: kept_trans)

lemma moves_become_follower:
  assumes "static_node a"
  shows "moves (\<lambda>x. x\<lparr>b_role := Some Follower\<rparr>) a (final (become_follower a))"
proof -
  define b where "b = restart_election_timeout (a\<lparr>leader_id := None\<rparr>)"
  define c where "c = reset_last_ack_timeouts (clear_orc_sets b)"
  have "quiet a (a\<lparr>leader_id := None\<rparr>)" by (simp add: quiet_def kept_def ballot_def)
  also have "quiet (a\<lparr>leader_id := None\<rparr>) b" unfolding b_def by (rule quiet_small_updates)
  finally (quiet_trans) have ab: "quiet a b" .
  have bc: "quiet b c" unfolding c_def using quiet_small_updates(2,3) by (rule quiet_trans)
  have ac: "quiet a c" using ab bc by (rule quiet_trans)
  have "aft_inv c"
    using assms evolves_restart_election_timeout [of "a\<lparr>leader_id := None\<rparr>"]
      inert_clear_orc_sets [of b] inert_reset_last_ack_timeouts [of "clear_orc_sets b"]
    by (simp add: b_def c_def static_node_def inert_def evolves_def)
  moreover have "cfg_idx (hd (configurations c)) \<le> commit_idx c"
    using assms by (simp add: static_node_def c_def b_def reset_last_ack_timeouts_def clear_orc_sets_def
        restart_election_timeout_def Let_def)
  ultimately have c: "static_node c"
    using assms settled_quiet [OF static_node_settled [OF assms] ac] by (simp add: static_node_def)
  let ?d = "final (rollback (last_committable_index c) c)"
  have q: "quiet a ?d" using ac quiet_rollback [OF c] by (rule quiet_trans)
  from settled_quiet [OF static_node_settled [OF assms] q] have "membership_state ?d = Active"
    by (simp add: settled_def)
  then have "final (become_follower a) = ?d\<lparr>leadership_state := Some Follower\<rparr>"
    unfolding become_follower_def Let_def b_def [symmetric] c_def [symmetric]
    using rollback_returns [OF \<open>aft_inv c\<close>]
    by (simp add: final_seq_returns can_endorse_primary_def)
  with q show ?thesis by (auto simp: moves_def quiet_def kept_def ballot_def)
qed

lemma moves_become_aware:
  assumes "static_node a" and "current_view a \<le> t"
  shows "moves (\<lambda>x. x\<lparr>b_view := t, b_voted := None, b_role := Some Follower, b_votes := {}\<rparr>) a
    (final (become_aware_of_new_term t a))"
proof -
  let ?b = "a\<lparr>current_view := t, voted_for := None, votes_for_me := {}\<rparr>"
  have "static_node ?b" using assms by (simp add: static_node_def settled_def)
  from moves_become_follower [OF this] show ?thesis
    by (cases "become_follower ?b")
      (simp_all add: become_aware_of_new_term_def moves_def kept_def ballot_def)
qed

lemma quiet_announce: "quiet a (final (announce_leadership n k a))"
proof -
  let ?b = "a\<lparr>nodes := al_update k (\<lambda>x. x\<lparr>match_idx := 0, sent_idx := n - 1\<rparr>) (nodes a)\<rparr>"
  have "quiet a ?b" by (rule quiet_nodes) simp
  from quiet_trans [OF this quiet_send_entries] show ?thesis by (simp add: announce_leadership_def)
qed

lemma moves_become_leader:
  assumes "static_node a"
  shows "moves (\<lambda>x. x\<lparr>b_role := Some Leader\<rparr>) a (final (become_leader a))"
proof -
  define b where "b = a\<lparr>election_index := last_committable_index a, committable_indices := []\<rparr>"
  let ?first = "if commit_idx b > 0 then rollback (election_index b) b
      else ok (emit (StoreInitialiseTerm (current_view b)) b)"
  have b: "static_node b" using assms by (simp add: b_def static_node_def settled_def aft_inv_defs)
  define d where "d = final ?first"
  have ret: "returns ?first" using static_node_inv [OF b] by (simp add: rollback_returns)
  have "quiet a b" by (simp add: b_def quiet_def kept_def ballot_def)
  moreover have "quiet b d" by (simp add: d_def quiet_rollback [OF b] quiet_emit)
  ultimately have ad: "quiet a d" by (rule quiet_trans)
  define e where "e = d\<lparr>leadership_state := Some Leader, leader_id := Some (my_node_id d),
      should_sign := True, timeout_elapsed := 0\<rparr>"
  define f where "f = reset_last_ack_timeouts e"
  have "moves (\<lambda>x. x\<lparr>b_role := Some Leader\<rparr>) a e"
    using ad by (simp add: e_def moves_def quiet_def kept_def ballot_def)
  then have af: "moves (\<lambda>x. x\<lparr>b_role := Some Leader\<rparr>) a f"
    by (rule moves_quiet) (simp add: f_def quiet_small_updates)
  have "settled f" using static_node_settled [OF assms] af by (simp add: settled_def moves_def kept_def)
  then have "quiet f (final (commit (last_idx f) f))" by (rule quiet_commit)
  moreover have "quiet f (final (for_each (announce_leadership (last_idx f + 1)) (al_keys (nodes f)) f))"
    by (rule quiet_for_eachI) (rule quiet_announce)
  moreover have "\<not> is_retired a" using assms by (simp add: is_retired_def static_node_def settled_def)
  ultimately show ?thesis
    unfolding become_leader_def Let_def b_def [symmetric] seq_returns [OF ret] d_def [symmetric]
      e_def [symmetric] f_def [symmetric]
    using af by (auto intro: moves_quiet)
qed

text \<open>Counting a vote: the node leads as soon as more than half of the nodes voted for it.\<close>

lemma moves_add_vote:
  assumes "static_node a"
  shows "moves (\<lambda>x. let votes = insert k (b_votes x) in
      x\<lparr>b_votes := votes,
        b_role := (if length (nodes a) + 1 < 2 * card votes then Some Leader else b_role x)\<rparr>)
    a (final (add_vote_for_me k a))"
proof -
  let ?b = "a\<lparr>votes_for_me := insert k (votes_for_me a)\<rparr>"
  have b: "static_node ?b" using assms by (simp add: static_node_def settled_def)
  have "get_quorum (length (nodes a) + 1) a \<le> card (votes_for_me ?b)
      \<longleftrightarrow> length (nodes a) + 1 < 2 * card (insert k (votes_for_me a))"
    using static_committable [OF assms] by (simp add: get_quorum_def) linarith
  then have "final (add_vote_for_me k a) =
      (if length (nodes a) + 1 < 2 * card (insert k (votes_for_me a)) then final (become_leader ?b) else ?b)"
    using assms by (simp add: add_vote_for_me_def static_node_def settled_def Let_def)
  with moves_become_leader [OF b] show ?thesis
    by (simp add: moves_def kept_def ballot_def Let_def)
qed

section \<open>Handlers\<close>

definition polls :: "(NodeId \<times> Term) set \<Rightarrow> Aft \<Rightarrow> Aft \<Rightarrow> bool" where
  "polls heard a b \<longleftrightarrow> kept a b
     \<and> ballot_steps (my_node_id a) (length (nodes a) + 1) heard (ballot a) (ballot b)"

lemma polls_quiet: "quiet a b \<Longrightarrow> polls heard a b"
  by (simp add: polls_def quiet_def)

lemma kept_length: "kept a b \<Longrightarrow> length (nodes b) = length (nodes a)"
  by (metis kept_def length_al_keys)

lemma polls_trans:
  assumes "polls heard a b" and "polls heard b c" and "my_node_id b = my_node_id a"
  shows "polls heard a c"
  using assms kept_length [of a b] by (auto simp: polls_def intro: kept_trans)

lemma polls_step:
  assumes "moves u a b" and "ballot_step (my_node_id a) (length (nodes a) + 1) heard (ballot a) (u (ballot a))"
  shows "polls heard a b"
  using assms by (auto simp: moves_def polls_def)

lemma polls_seqI:
  assumes "static_node a" and "polls heard a (final m)" and "evolves a (final m)"
    and "\<And>b. static_node b \<Longrightarrow> polls heard b (final (f b))"
  shows "polls heard a (final (seq m f))"
proof (cases "returns m")
  case True
  have "static_node (final m)" using assms(1-3) by (auto simp: polls_def intro: static_node_kept)
  with assms True show ?thesis
    by (auto simp: final_seq_returns evolves_def intro: polls_trans)
next
  case False
  with assms(2) show ?thesis by (cases m) simp_all
qed

lemma polls_become_aware:
  assumes "static_node a"
    and "current_view a < t \<or> (current_view a = t \<and> leadership_state a = Some Candidate)"
  shows "polls heard a (final (become_aware_of_new_term t a))"
proof -
  have "current_view a \<le> t" using assms(2) by auto
  moreover have "b_view (ballot a) < t \<or> (b_view (ballot a) = t \<and> b_role (ballot a) = Some Candidate)"
    using assms(2) by (simp add: ballot_def)
  ultimately show ?thesis
    by (intro polls_step [OF moves_become_aware [OF assms(1)]] ballot_step.learn_term)
qed

lemma polls_become_follower: "static_node a \<Longrightarrow> polls heard a (final (become_follower a))"
  by (rule polls_step [OF moves_become_follower]) (auto intro: ballot_step.step_down)

lemma polls_add_vote:
  assumes "static_node a" and "leadership_state a = Some Candidate" and "(k, current_view a) \<in> heard"
  shows "polls heard a (final (add_vote_for_me k a))"
proof -
  let ?n = "length (nodes a) + 1" and ?x = "ballot a"
  let ?y = "?x\<lparr>b_votes := insert k (b_votes ?x)\<rparr>"
  have y: "ballot_step (my_node_id a) ?n heard ?x ?y"
    using assms by (intro ballot_step.count_vote) (simp_all add: ballot_def)
  moreover have "ballot_step (my_node_id a) ?n heard ?y (?y\<lparr>b_role := Some Leader\<rparr>)"
    if "?n < 2 * card (insert k (b_votes ?x))"
    using assms that by (intro ballot_step.win) (simp_all add: ballot_def)
  ultimately show ?thesis
    using moves_add_vote [OF assms(1), of k]
    by (auto simp: moves_def polls_def Let_def split: if_splits intro: rtranclp.rtrancl_into_rtrancl)
qed

lemma quiet_request_votes: "quiet a (final (for_each (\<lambda>k a. ok (send_request_vote k a)) ks a))"
  by (rule quiet_for_eachI) (simp add: quiet_request_vote)

lemma polls_become_candidate:
  assumes "static_node a" and "leadership_state a \<noteq> Some Leader"
  shows "polls heard a (final (become_candidate a))"
proof -
  define b where "b = clear_orc_sets (a\<lparr>leadership_state := Some Candidate, leader_id := None\<rparr>)"
  define c where "c = b\<lparr>voted_for := Some (my_node_id b), votes_for_me := {}, current_view := current_view b + 1\<rparr>"
  define d where "d = reset_last_ack_timeouts (restart_election_timeout c)"
  let ?n = "length (nodes a) + 1" and ?me = "my_node_id a"
  let ?z = "(ballot a)\<lparr>b_view := b_view (ballot a) + 1, b_voted := Some ?me, b_role := Some Candidate, b_votes := {?me}\<rparr>"
  have inv: "aft_inv d"
    using assms inert_reset_last_ack_timeouts [of "restart_election_timeout c"]
      evolves_restart_election_timeout [of c]
    by (simp add: d_def c_def b_def static_node_def inert_def evolves_def clear_orc_sets_def)
  have simps: "my_node_id d = ?me" "current_view d = current_view a + 1" "voted_for d = Some ?me"
    "votes_for_me d = {}" "leadership_state d = Some Candidate" "grants (trace d) = grants (trace a)"
    "kept a d" "commit_idx d = commit_idx a" "consensus_type d = consensus_type a"
    by (simp_all add: d_def c_def b_def clear_orc_sets_def restart_election_timeout_def Let_def
        reset_last_ack_timeouts_def kept_def)
  have "static_node d"
    using assms(1) inv simps by (auto simp: static_node_def settled_def kept_def)
  from moves_add_vote [OF this, of ?me] have m: "kept a (final (add_vote_for_me ?me d))"
    and z: "ballot (final (add_vote_for_me ?me d)) = ?z \<or>
      (?n < 2 \<and> ballot (final (add_vote_for_me ?me d)) = ?z\<lparr>b_role := Some Leader\<rparr>)"
    using simps kept_length [of a d]
    by (auto simp: moves_def ballot_def Let_def split: if_splits intro: kept_trans)
  have "ballot_step ?me ?n heard (ballot a) ?z"
    using assms(2) by (intro ballot_step.campaign) (simp add: ballot_def)
  moreover have "?n < 2 \<Longrightarrow> ballot_step ?me ?n heard ?z (?z\<lparr>b_role := Some Leader\<rparr>)"
    by (intro ballot_step.win) simp_all
  ultimately have p: "polls heard a (final (add_vote_for_me ?me d))"
    using m z by (auto simp: polls_def intro: rtranclp.rtrancl_into_rtrancl)
  have "evolves d (final (add_vote_for_me ?me d))" using inv by (rule evolves_add_vote_for_me)
  then have id: "my_node_id (final (add_vote_for_me ?me d)) = ?me" using simps by (simp add: evolves_def)
  have q: "quiet e (final (if consensus_type e \<noteq> BFT
      then for_each (\<lambda>k a. ok (send_request_vote k a)) (al_keys (nodes e)) e else ok e))" for e
    by (simp add: quiet_request_votes)
  have "polls heard a (final (seq (add_vote_for_me ?me d) (\<lambda>e. if consensus_type e \<noteq> BFT
      then for_each (\<lambda>k a. ok (send_request_vote k a)) (al_keys (nodes e)) e else ok e)))"
  proof (cases "returns (add_vote_for_me ?me d)")
    case True
    from polls_trans [OF p polls_quiet [OF q] id] show ?thesis by (simp only: final_seq_returns [OF True])
  next
    case False
    with p show ?thesis by (cases "add_vote_for_me ?me d") simp_all
  qed
  then show ?thesis
    unfolding become_candidate_def Let_def b_def [symmetric] c_def [symmetric] d_def [symmetric]
    by (simp add: simps)
qed

text \<open>A vote is granted only to a sender whose log is up to date, and remembered.\<close>

lemma polls_answer:
  assumes "static_node a" and "k \<noteq> my_node_id a"
  shows "polls heard a (answer_request_vote k r a)"
proof -
  let ?b = "restart_election_timeout a"
  let ?c = "?b\<lparr>leader_id := None, voted_for := Some k\<rparr>"
  let ?d = "send_request_vote_response k True ?c"
  let ?x = "ballot a"
  have d: "kept a ?d" "ballot ?d = ?x\<lparr>b_voted := Some k, b_grants := insert (k, b_view ?x) (b_grants ?x)\<rparr>"
    by (auto simp: kept_def ballot_def send_request_vote_response_def send_authenticated_def
        restart_election_timeout_def Let_def grants_def granted_vote_def)
  have "polls heard a ?d" if "voted_for a = None \<or> voted_for a = Some k"
  proof -
    have "ballot_step (my_node_id a) (length (nodes a) + 1) heard ?x (ballot ?d)"
      unfolding d(2) using that assms(2) by (intro ballot_step.grant) (simp_all add: ballot_def)
    with d(1) show ?thesis by (auto simp: polls_def)
  qed
  then show ?thesis
    by (auto simp: answer_request_vote_def intro: polls_quiet quiet_refused_vote)
qed

lemma polls_recv_request_vote:
  assumes "static_node a" and "k \<noteq> my_node_id a"
  shows "polls heard a (final (recv_request_vote k r a))"
proof (cases "current_view a < rv_term r")
  case True
  have e: "evolves a (final (become_aware_of_new_term (rv_term r) a))"
    using assms(1) True by (simp add: evolves_become_aware static_node_inv)
  let ?f = "\<lambda>a. ok (answer_request_vote k r a)"
  have p: "polls heard a (final (become_aware_of_new_term (rv_term r) a))"
    using assms(1) True by (simp add: polls_become_aware)
  let ?b = "final (become_aware_of_new_term (rv_term r) a)"
  have "static_node ?b" "my_node_id ?b = my_node_id a"
    using assms(1) p e by (auto simp: polls_def evolves_def intro: static_node_kept)
  with assms(2) p have "polls heard a (answer_request_vote k r ?b)"
    by (auto intro: polls_trans polls_answer)
  with p have "polls heard a (final (seq (become_aware_of_new_term (rv_term r) a) ?f))"
    by (cases "become_aware_of_new_term (rv_term r) a") simp_all
  with True show ?thesis by (simp add: recv_request_vote_def)
next
  case False
  then show ?thesis
    using polls_answer [OF assms] by (simp add: recv_request_vote_def polls_quiet quiet_refused_vote)
qed

lemma polls_recv_request_vote_response:
  assumes "static_node a"
    and "k \<in> set (al_keys (nodes a)) \<Longrightarrow> rvr_vote_granted r \<Longrightarrow> (k, rvr_term r) \<in> heard"
  shows "polls heard a (final (recv_request_vote_response k r a))"
  using assms
  by (simp add: recv_request_vote_response_def polls_quiet polls_become_aware polls_add_vote)

lemma polls_check_append_entries:
  "static_node a \<Longrightarrow> polls heard a (final (check_append_entries k r data a))"
  by (simp add: check_append_entries_def Let_def polls_quiet quiet_response quiet_accept)

lemma polls_recv_append_entries:
  assumes "static_node a"
  shows "polls heard a (final (recv_append_entries k r data a))"
proof -
  have "polls heard a (final (seq (become_aware_of_new_term (ae_term r) a) (check_append_entries k r data)))"
    if "current_view a < ae_term r \<or> (current_view a = ae_term r \<and> leadership_state a = Some Candidate)"
    using that assms
    by (intro polls_seqI) (auto intro: polls_become_aware evolves_become_aware static_node_inv
        polls_check_append_entries)
  with assms show ?thesis
    by (auto simp: recv_append_entries_def intro: polls_check_append_entries polls_quiet quiet_response)
qed

lemma quiet_update_match:
  assumes "settled a"
  shows "quiet a (final (update_match k r a))"
proof -
  have n: "quiet a (reset_match k i a)" for i
    unfolding reset_match_def Let_def by (rule quiet_nodes) simp
  have s: "quiet a (set_match_idx k i a)" for i
    unfolding set_match_idx_def by (rule quiet_nodes) simp
  have e: "quiet a (a\<lparr>nodes := al_update k f (nodes a)\<rparr>)" for f by (rule quiet_nodes) simp
  have "quiet a (final (update_commit (set_match_idx k i a)))" for i
    using s quiet_update_commit [OF settled_quiet [OF assms s]] by (rule quiet_trans)
  then show ?thesis
    using n e by (simp add: update_match_def Let_def split: AppendEntriesResponseType.split option.split)
qed

lemma polls_recv_append_entries_response:
  assumes "static_node a"
  shows "polls heard a (final (recv_append_entries_response k r a))"
proof -
  define b where "b = a\<lparr>nodes := al_update k (\<lambda>n. n\<lparr>last_ack_timeout := 0\<rparr>) (nodes a)\<rparr>"
  have q: "quiet a b" unfolding b_def by (rule quiet_nodes) simp
  have "aft_inv b" using assms by (simp add: b_def static_node_def aft_inv_nodes_values)
  then have b: "static_node b"
    using assms settled_quiet [OF static_node_settled [OF assms] q] by (simp add: static_node_def b_def)
  have id: "my_node_id b = my_node_id a" by (simp add: b_def)
  have "polls heard b (final
      (if current_view b < aer_term r then become_aware_of_new_term (aer_term r) b
        else if current_view b \<noteq> aer_term r \<and> aer_success r = AE_OK then ok b
        else if current_view b = aer_term r \<and> aer_last_log_idx r < match_idx_of k b
                \<and> aer_success r = AE_OK then ok b
        else update_match k r b))"
    using b by (simp add: polls_become_aware polls_quiet quiet_update_match static_node_settled)
  from polls_trans [OF polls_quiet [OF q] this id] show ?thesis
    unfolding recv_append_entries_response_def Let_def b_def [symmetric]
    by (simp add: polls_quiet)
qed

lemma quiet_append_entry:
  assumes "settled a"
  shows "quiet a (final (append_entry e a))"
proof -
  define b where "b = (if be_globally_committable e
      then start_ticking_if_necessary (mark_committable (be_index e) a) else a)"
  define c where "c = emit (LedgerPutEntry (be_data e) (be_globally_committable e)
      (current_view (b\<lparr>last_idx := be_index e\<rparr>)) (be_index e)) (b\<lparr>last_idx := be_index e\<rparr>)"
  define d where "d = c\<lparr>entry_size_not_limited := entry_size_not_limited c + length (be_data e),
      entry_count := entry_count c + 1\<rparr>"
  have "quiet a b"
    using quiet_trans [OF quiet_mark_committable [OF assms] quiet_small_updates(6)] by (simp add: b_def)
  moreover have "quiet b d" by (simp add: d_def c_def quiet_def kept_def ballot_def)
  ultimately have "quiet a d" by (rule quiet_trans)
  from quiet_trans [OF this quiet_with_history] show ?thesis
    unfolding append_entry_def Let_def b_def [symmetric] c_def [symmetric] d_def [symmetric] .
qed

lemma quiet_flush: "quiet a (final (flush_if_full a))"
proof -
  let ?b = "(update_batch_size a)\<lparr>entry_count := 0, entry_size_not_limited := 0\<rparr>"
  have "quiet a ?b" by (simp add: quiet_def kept_def ballot_def update_batch_size_def Let_def)
  from quiet_trans [OF this quiet_send_to_all] show ?thesis by (simp add: flush_if_full_def)
qed

lemma quiet_replicate_entry:
  assumes "settled a" and "be_hooks e = []"
  shows "quiet a (final (replicate_entry e a))"
  using quiet_append_entry [OF assms(1)] quiet_flush
  by (auto simp: replicate_entry_def assms(2) intro: quiet_seqI)

lemma quiet_replicate_entries:
  "settled a \<Longrightarrow> \<forall>e\<in>set es. be_hooks e = [] \<Longrightarrow> quiet a (final (replicate_entries es a))"
proof (induction es arbitrary: a)
  case (Cons e es)
  have "quiet a (final (replicate_entry e a))" using Cons.prems by (simp add: quiet_replicate_entry)
  moreover have "quiet b (final (replicate_entries es b))" if "quiet a b" for b
    using Cons.prems settled_quiet [OF Cons.prems(1) that] by (simp add: Cons.IH)
  ultimately have "quiet a (final (bindv (replicate_entry e a) (\<lambda>a _. replicate_entries es a)))"
    by (rule quiet_bindvI)
  then show ?case by simp
qed simp

lemma quiet_replicate_batch:
  assumes "static_node a" and "\<forall>e\<in>set es. be_hooks e = []"
  shows "quiet a (final (replicate_batch es t a))"
proof -
  have s: "settled a" using assms(1) by (rule static_node_settled)
  have d: "quiet b (final (bindv m (\<lambda>a _. Done a v)))" if "quiet b (final m)"
    for b :: Aft and m :: "(Aft, unit) exec" and v :: bool
    using that by (cases m) simp_all
  have "quiet a (final (bindv (replicate_entries es a) (\<lambda>a ok_so_far.
      if \<not> ok_so_far then Done a False
      else if nodes a = [] then bindv (update_commit a) (\<lambda>a _. Done a True) else Done a True)))"
  proof (rule quiet_bindvI)
    show "quiet a (final (replicate_entries es a))" using s assms(2) by (rule quiet_replicate_entries)
    fix b v assume "quiet a b"
    with s have "settled b" by (rule settled_quiet)
    then show "quiet b (final (if \<not> v then Done b False
        else if nodes b = [] then bindv (update_commit b) (\<lambda>a _. Done a True) else Done b True))"
      by (simp add: d quiet_update_commit)
  qed
  then show ?thesis by (simp add: replicate_batch_def d quiet_rollback [OF assms(1)])
qed

lemma polls_check_quorum:
  assumes "static_node a"
  shows "polls heard a (final (check_quorum t a))"
proof -
  have q: "quiet a (age_acks t a)" by (rule quiet_small_updates)
  have "evolves a (age_acks t a)"
    using assms inert_age_acks by (intro evolves_inert) (simp_all add: static_node_def)
  with assms q have s: "static_node (age_acks t a)" by (auto simp: quiet_def intro: static_node_kept)
  have "my_node_id (age_acks t a) = my_node_id a" by (simp add: age_acks_def)
  with polls_trans [OF polls_quiet [OF q] polls_become_follower [OF s]] show ?thesis
    by (simp add: check_quorum_def Let_def polls_quiet [OF q])
qed

lemma polls_periodic:
  assumes "static_node a"
  shows "polls heard a (final (periodic t a))"
proof -
  define b where "b = a\<lparr>timeout_elapsed := timeout_elapsed a + t\<rparr>"
  have q: "quiet a b" by (simp add: b_def quiet_def kept_def ballot_def)
  have b: "static_node b" using assms by (simp add: b_def static_node_def settled_def)
  have id: "my_node_id b = my_node_id a" by (simp add: b_def)
  let ?c = "update_batch_size (b\<lparr>timeout_elapsed := 0\<rparr>)"
  have c: "quiet b ?c" by (simp add: quiet_def kept_def ballot_def update_batch_size_def Let_def)
  have "inert (b\<lparr>timeout_elapsed := 0\<rparr>) ?c" by (rule inert_update_batch_size)
  then have "evolves b ?c" using b by (simp add: inert_def evolves_def static_node_def trace_extends_refl)
  note e = evolves_trans [OF this evolves_send_to_all [OF evolves_inv [OF this]]]
  have "polls heard b (final (seq (if timeout_elapsed b \<ge> request_timeout b
                then send_append_entries_to_all ?c else ok b) (check_quorum t)))"
    using b
  proof (rule polls_seqI)
    show "polls heard b (final (if timeout_elapsed b \<ge> request_timeout b
        then send_append_entries_to_all ?c else ok b))"
      using quiet_trans [OF c quiet_send_to_all] by (simp add: polls_quiet)
    show "evolves b (final (if timeout_elapsed b \<ge> request_timeout b
        then send_append_entries_to_all ?c else ok b))"
      using e b by (simp add: evolves_refl static_node_inv)
  qed (rule polls_check_quorum)
  then have "polls heard b (final
      (if leadership_state b = Some Leader
       then seq (if timeout_elapsed b \<ge> request_timeout b
                then send_append_entries_to_all ?c else ok b) (check_quorum t)
       else if consensus_type b \<noteq> BFT \<and> can_endorse_primary b \<and> ticking b
              \<and> timeout_elapsed b \<ge> election_timeout b
       then become_candidate b else ok b))"
    using b by (simp add: polls_become_candidate polls_quiet)
  from polls_trans [OF polls_quiet [OF q] this id] show ?thesis
    unfolding periodic_def Let_def b_def [symmetric] .
qed

text \<open>The vote a message carries, if it is one.\<close>

definition vote_carried :: "NodeId \<Rightarrow> byte list \<Rightarrow> (NodeId \<times> Term) set" where
  "vote_carried k data =
     (let r = RequestVoteResponse_of (take sizeof_RequestVoteResponse data)
      in if peek_uint 8 data = Inr raft_request_vote_response \<and> rvr_vote_granted r
         then {(k, rvr_term r)} else {})"

lemma polls_recv_message:
  assumes "static_node a" and "k \<noteq> my_node_id a"
  shows "polls (vote_carried k data) a (final (recv_message k data a))"
proof (cases "peek_uint 8 data")
  case (Inr type)
  have hdr: "hdr = take n data" if "recv_authenticated n k data a = Inr (hdr, rest)" for n hdr rest
    using that by (auto simp: recv_authenticated_def overlay_def insufficient_def split: if_splits option.splits)
  have resp: "polls (vote_carried k data) a (final (recv_request_vote_response k (RequestVoteResponse_of hdr) a))"
    if "recv_authenticated sizeof_RequestVoteResponse k data a = Inr (hdr, rest)"
      and "type = raft_request_vote_response" for hdr rest
    using that Inr hdr [OF that(1)]
    by (intro polls_recv_request_vote_response [OF assms(1)]) (simp add: vote_carried_def Let_def)
  have "polls (vote_carried k data) a (final (dispatch_message type k data a))"
    using assms
    by (auto simp: dispatch_message_def intro: resp polls_recv_append_entries polls_quiet
        polls_recv_append_entries_response polls_recv_request_vote split: sum.split)
  with Inr show ?thesis by (simp add: recv_message_def final_catch)
qed (simp add: recv_message_def polls_quiet)

text \<open>
  Every input but a forced leadership and a change of the configuration, as the ballot machine
  sees it.
\<close>

fun ordinary :: "NodeId \<Rightarrow> Input \<Rightarrow> bool" where
  "ordinary me (RecvMessage k data) \<longleftrightarrow> k \<noteq> me"
| "ordinary me (Replicate entries t) \<longleftrightarrow> (\<forall>e\<in>set entries. be_hooks e = [])"
| "ordinary me (Tick elapsed) \<longleftrightarrow> True"
| "ordinary me (Orc rid k) \<longleftrightarrow> True"
| "ordinary me GetSignableTxid \<longleftrightarrow> True"
| "ordinary me EnableAllDomains \<longleftrightarrow> True"
| "ordinary me (AddConfiguration idx conf learners retired) \<longleftrightarrow> False"
| "ordinary me ForceBecomePrimary \<longleftrightarrow> False"
| "ordinary me (UpdateParameters params) \<longleftrightarrow> False"

fun votes_heard :: "Input \<Rightarrow> (NodeId \<times> Term) set" where
  "votes_heard (RecvMessage k data) = vote_carried k data"
| "votes_heard i = {}"

lemma polls_handle:
  assumes "static_node a" and "ordinary (my_node_id a) i"
  shows "polls (votes_heard i) a (handle i a)"
proof (cases i)
  case (Orc rid k)
  have "quiet a (final (orc rid k a))"
    by (simp add: orc_def Let_def quiet_def kept_def ballot_def split: option.split)
  with Orc show ?thesis by (simp add: polls_quiet)
qed (insert assms, simp_all add: polls_recv_message polls_periodic polls_quiet quiet_replicate_batch
    quiet_small_updates)

lemma static_handle:
  assumes "static_node a" and "ordinary (my_node_id a) i"
  shows "static_node (handle i a)"
  using assms(1) polls_handle [OF assms] evolves_handle [OF static_node_inv [OF assms(1)], of i]
  by (auto simp: polls_def intro: static_node_kept)

section \<open>Learning of a term in any configuration\<close>

lemma ballot_add_node_state: "ballot (final (add_node_state x a)) = ballot a"
proof (cases x)
  case (Pair k info)
  have "ballot (final (send_append_entries to i b)) = ballot b" for to i b
    using quiet_send_entries [of b to i] by (simp add: quiet_def)
  moreover have "ballot (b\<lparr>nodes := ns\<rparr>) = ballot b" "ballot (emit (AssociateAddress k h p) b) = ballot b" for b ns h p
    by (simp_all add: ballot_def)
  ultimately show ?thesis by (simp add: Pair add_node_state_def Let_def)
qed

lemma ballot_create: "ballot (final (create_and_remove_node_state a)) = ballot a"
  by (simp add: create_and_remove_node_state_def Let_def final_for_each_frame ballot_add_node_state)
    (simp add: ballot_def)

lemma ballot_rollback: "ballot (final (rollback idx a)) = ballot a"
proof -
  have c: "ballot (final (rollback_configurations idx b)) = ballot b" for b
    by (simp add: rollback_configurations_def Let_def ballot_create) (simp add: ballot_def)
  have r: "ballot (final (rollback_retirement idx b)) = ballot b" for b
    by (auto simp: rollback_retirement_def ballot_def split: option.split)
  have "ballot (truncate_log idx a) = ballot a" by (simp add: truncate_log_def Let_def ballot_def)
  with c r show ?thesis by (simp add: rollback_def final_seq_frame)
qed

definition before_follower :: "Aft \<Rightarrow> Aft" where
  "before_follower a = reset_last_ack_timeouts (clear_orc_sets (restart_election_timeout (a\<lparr>leader_id := None\<rparr>)))"

lemma before_follower_simps [simp]:
  "aft_inv (before_follower a) = aft_inv a" "ballot (before_follower a) = ballot a"
  "last_idx (before_follower a) = last_idx a" "commit_idx (before_follower a) = commit_idx a"
  "view_history (before_follower a) = view_history a"
  "committable_indices (before_follower a) = committable_indices a"
  "membership_state (before_follower a) = membership_state a"
  "retirement_phase (before_follower a) = retirement_phase a"
  "retirement_committable_idx (before_follower a) = retirement_committable_idx a"
  "leader_id (before_follower a) = None" "leadership_state (before_follower a) = leadership_state a"
  "last_committable_index (before_follower a) = last_committable_index a"
  by (simp_all add: before_follower_def restart_election_timeout_def Let_def clear_orc_sets_def
      reset_last_ack_timeouts_def aft_inv_nodes_values ballot_def last_committable_index_def)

lemma become_follower_eq:
  assumes "aft_inv a"
  defines "b \<equiv> final (rollback (last_committable_index a) (before_follower a))"
  shows "become_follower a =
    (if can_endorse_primary b \<and> membership_state b \<noteq> RetirementInitiated
     then ok (b\<lparr>leadership_state := Some Follower\<rparr>) else ok b)"
proof -
  have "returns (rollback (last_committable_index a) (before_follower a))"
    using assms(1) by (simp add: rollback_returns)
  then show ?thesis
    unfolding become_follower_def Let_def before_follower_def [symmetric] b_def
    by (simp add: seq_returns)
qed

text \<open>What a node knows of its log and its vote after it learnt of a term.\<close>

lemma become_aware_effect:
  fixes a :: Aft and t :: Term
  assumes "aft_inv a"
  defines "b \<equiv> final (become_aware_of_new_term t a)"
  shows "returns (become_aware_of_new_term t a)"
    and "current_view b = t \<and> voted_for b = None \<and> votes_for_me b = {} \<and> leader_id b = None
      \<and> grants (trace b) = grants (trace a)"
    and "up_to_date r b = up_to_date r a"
proof -
  let ?a = "a\<lparr>current_view := t, voted_for := None, votes_for_me := {}\<rparr>"
  define l where "l = last_committable_index a"
  define c where "c = final (rollback l (before_follower ?a))"
  have inv: "aft_inv (before_follower ?a)" using assms(1) by simp
  have la: "last_committable_index ?a = l" by (simp add: last_committable_index_def l_def)
  have bnd: "commit_idx a \<le> l" "l \<le> last_idx a"
    unfolding l_def using assms(1) by (rule last_committable_index_bounds)+
  have eq: "become_aware_of_new_term t a = ok ((if can_endorse_primary c \<and> membership_state c \<noteq> RetirementInitiated
      then c\<lparr>leadership_state := Some Follower\<rparr> else c)\<lparr>is_new_follower := True\<rparr>)"
    using become_follower_eq [of ?a] assms(1) by (simp add: become_aware_of_new_term_def la c_def)
  then show "returns (become_aware_of_new_term t a)" by simp
  have "ballot c = ballot ?a" by (simp add: c_def ballot_rollback)
  moreover have "leader_id c = None" by (simp add: c_def rollback_frame)
  ultimately show "current_view b = t \<and> voted_for b = None \<and> votes_for_me b = {} \<and> leader_id b = None
      \<and> grants (trace b) = grants (trace a)"
    by (simp add: b_def eq ballot_def)
  have r: "last_idx c = l" "view_history c = vh_rollback l (view_history a)"
    "committable_indices c = filter (\<lambda>i. i \<le> l) (committable_indices a)" "commit_idx c = commit_idx a"
    using rollback_drops [OF inv, of l] bnd(1) by (simp_all add: rollback_frame c_def)
  have "\<forall>i\<in>set (committable_indices a). i \<le> l"
    using assms(1) sorted_le_last [of "committable_indices a"]
    by (auto simp: l_def last_committable_index_def aft_inv_def committable_inv_def strict_sorted_imp_sorted)
  then have "committable_indices c = committable_indices a" using r(3) by simp
  with r have "last_committable_index b = l"
    by (simp add: b_def eq last_committable_index_def) (simp add: l_def last_committable_index_def)
  moreover have "get_term_internal l b = get_term_internal l a"
    using r bnd(2) assms(1) by (simp add: b_def eq get_term_internal_def vh_view_at_rollback aft_inv_def log_wf_def)
  ultimately show "up_to_date r b = up_to_date r a" by (simp add: up_to_date_def l_def)
qed

text \<open>A node whose retirement is signed keeps its role.\<close>

lemma become_aware_retired:
  assumes "aft_inv a" and "is_retired a" and "retirement_phase a = Some Signed"
    and "retirement_committable_idx a = Some c" and "c \<le> last_committable_index a"
  shows "leadership_state (final (become_aware_of_new_term t a)) = leadership_state a"
proof -
  let ?a = "a\<lparr>current_view := t, voted_for := None, votes_for_me := {}\<rparr>"
  let ?l = "last_committable_index a"
  let ?b = "before_follower ?a"
  have l: "last_committable_index ?a = ?l" by (simp add: last_committable_index_def)
  have bnd: "commit_idx a \<le> ?l" using assms(1) by (rule last_committable_index_bounds)
  let ?t = "truncate_log ?l ?b"
  have t: "membership_state ?t = Retired" "retirement_phase ?t = Some Signed"
    "retirement_committable_idx ?t = Some c"
    using assms(2-4) by (simp_all add: truncate_log_def Let_def is_retired_def)
  then have "rollback_retirement ?l ?t = ok ?t" using assms(5) by (simp add: rollback_retirement_def)
  then have "membership_state (final (rollback ?l ?b)) = Retired"
    using t(1) assms(2) by (simp add: rollback_def is_retired_def)
  then show ?thesis
    using become_follower_eq [of ?a] assms(1)
    by (simp add: become_aware_of_new_term_def l can_endorse_primary_def rollback_frame)
qed

end
