(* ===== verification/Raft_Network.thy ===== *)
theory Raft_Network
  imports Aft_Ballot
begin

text \<open>
  A service of several nodes that exchange Raft messages over channels that may delay, lose,
  repeat and reorder them, but never invent one. In a static configuration no term has two
  leaders: every node keeps the ballot invariant below, and two majorities share a voter.
\<close>

section \<open>The ballot invariant\<close>

text \<open>
  \<open>H\<close> are the votes that other nodes granted to \<open>me\<close>. A node votes at most once in a
  term, except that a candidate that gives up in its own term may still vote for another node
  there: it then no longer counts the vote it gave itself.
\<close>

definition contender :: "Ballot \<Rightarrow> bool" where
  "contender b \<longleftrightarrow> b_role b = Some Candidate \<or> b_role b = Some Leader"

definition ballot_inv :: "NodeId \<Rightarrow> nat \<Rightarrow> (NodeId \<times> Term) set \<Rightarrow> Ballot \<Rightarrow> bool" where
  "ballot_inv me n H b \<longleftrightarrow>
     (\<forall>c t. (c, t) \<in> b_grants b \<longrightarrow> c \<noteq> me \<and> t \<le> b_view b)
     \<and> (\<forall>c. (c, b_view b) \<in> b_grants b \<longrightarrow> b_voted b = Some c \<and> \<not> contender b)
     \<and> (\<forall>c c' t. (c, t) \<in> b_grants b \<longrightarrow> (c', t) \<in> b_grants b \<longrightarrow> c = c')
     \<and> (contender b \<longrightarrow> b_voted b = Some me \<and> (\<forall>x\<in>b_votes b. x = me \<or> (x, b_view b) \<in> H))
     \<and> (b_role b = Some Leader \<longrightarrow> n < 2 * card (b_votes b))"

lemma ballot_inv_mono: "ballot_inv me n H b \<Longrightarrow> H \<subseteq> H' \<Longrightarrow> ballot_inv me n H' b"
  by (auto simp: ballot_inv_def)

lemma ballot_inv_step:
  assumes "ballot_step me n heard b b'" and "heard \<subseteq> H" and "ballot_inv me n H b"
  shows "ballot_inv me n H b'"
  using assms
proof cases
  case (learn_term t)
  have "\<forall>c s. (c, s) \<in> b_grants b \<longrightarrow> c \<noteq> me \<and> s \<le> t"
    using learn_term assms(3) unfolding ballot_inv_def by force
  moreover have "(c, t) \<notin> b_grants b" for c
    using learn_term assms(3) unfolding ballot_inv_def contender_def by (metis not_le)
  ultimately show ?thesis
    using learn_term(1) assms(3) unfolding ballot_inv_def contender_def by simp
next
  case step_down
  with assms(3) show ?thesis by (auto simp: ballot_inv_def contender_def)
next
  case campaign
  have "\<forall>c s. (c, s) \<in> b_grants b \<longrightarrow> c \<noteq> me \<and> s \<le> b_view b + 1"
    using assms(3) unfolding ballot_inv_def by force
  moreover have "(c, b_view b + 1) \<notin> b_grants b" for c
    using assms(3) unfolding ballot_inv_def by (metis less_add_one not_le)
  ultimately show ?thesis
    using campaign(1) assms(3) unfolding ballot_inv_def contender_def by simp
next
  case (grant c)
  with assms(3) have "\<not> contender b" by (auto simp: ballot_inv_def)
  with grant assms(3) show ?thesis by (auto simp: ballot_inv_def contender_def)
next
  case (count_vote k)
  with assms(2,3) show ?thesis by (auto simp: ballot_inv_def contender_def)
next
  case win
  with assms(3) show ?thesis by (auto simp: ballot_inv_def contender_def)
qed

lemma ballot_inv_steps:
  assumes "ballot_steps me n heard b b'" and "heard \<subseteq> H" and "ballot_inv me n H b"
  shows "ballot_inv me n H b'"
  using assms(1)
proof (induction rule: rtranclp_induct)
  case base
  show ?case by (rule assms(3))
next
  case (step y z)
  from ballot_inv_step [OF step.hyps(2) assms(2) step.IH] show ?case .
qed

lemma ballot_steps_grants: "ballot_steps me n heard b b' \<Longrightarrow> b_grants b \<subseteq> b_grants b'"
proof (induction rule: rtranclp_induct)
  case (step y z)
  from step.hyps(2) have "b_grants y \<subseteq> b_grants z" by cases auto
  with step.IH show ?case by blast
qed simp

section \<open>The service\<close>

type_synonym Service = "NodeId \<Rightarrow> Aft"

fun msg_fits :: "RaftMsg \<Rightarrow> bool" where
  "msg_fits (MsgAppendEntries r) \<longleftrightarrow> list_all (\<lambda>v. v < 2 ^ 64)
     [ae_idx r, ae_prev_idx r, ae_term r, ae_prev_term r, ae_leader_commit_idx r, ae_term_of_idx r]"
| "msg_fits (MsgAppendEntriesResponse r) \<longleftrightarrow> list_all (\<lambda>v. v < 2 ^ 64) [aer_term r, aer_last_log_idx r]"
| "msg_fits (MsgRequestVote r) \<longleftrightarrow> list_all (\<lambda>v. v < 2 ^ 64)
     [rv_term r, rv_last_committable_idx r, rv_term_of_last_committable_idx r]"
| "msg_fits (MsgRequestVoteResponse r) \<longleftrightarrow> rvr_term r < 2 ^ 64"

text \<open>
  A step delivers a message that its sender once handed to a channel, with whatever follows the
  header, or runs one of the other inputs of a node.
\<close>

inductive service_step :: "NodeId set \<Rightarrow> Service \<Rightarrow> Service \<Rightarrow> bool" for N :: "NodeId set" where
  deliver: "p \<in> N \<Longrightarrow> q \<in> N \<Longrightarrow> p \<noteq> q \<Longrightarrow> Send q m sent \<in> set (trace (\<sigma> p)) \<Longrightarrow> msg_fits m \<Longrightarrow>
    service_step N \<sigma> (\<sigma>(q := handle (RecvMessage p (raft_msg_bytes m @ payload)) (\<sigma> q)))"
| local_step: "q \<in> N \<Longrightarrow> ordinary q i \<Longrightarrow> votes_heard i = {} \<Longrightarrow> service_step N \<sigma> (\<sigma>(q := handle i (\<sigma> q)))"

abbreviation service_steps :: "NodeId set \<Rightarrow> Service \<Rightarrow> Service \<Rightarrow> bool" where
  "service_steps N \<equiv> (service_step N)\<^sup>*\<^sup>*"

definition initial_service :: "NodeId set \<Rightarrow> Service \<Rightarrow> bool" where
  "initial_service N \<sigma> \<longleftrightarrow> finite N \<and> (\<forall>p\<in>N. static_node (\<sigma> p) \<and> my_node_id (\<sigma> p) = p
     \<and> set (al_keys (nodes (\<sigma> p))) = N - {p} \<and> grants (trace (\<sigma> p)) = {}
     \<and> leadership_state (\<sigma> p) \<noteq> Some Candidate \<and> leadership_state (\<sigma> p) \<noteq> Some Leader)"

definition votes_for :: "NodeId set \<Rightarrow> Service \<Rightarrow> NodeId \<Rightarrow> (NodeId \<times> Term) set" where
  "votes_for N \<sigma> p = {(x, t). x \<in> N \<and> (p, t) \<in> grants (trace (\<sigma> x))}"

definition service_inv :: "NodeId set \<Rightarrow> Service \<Rightarrow> bool" where
  "service_inv N \<sigma> \<longleftrightarrow> finite N \<and> (\<forall>p\<in>N. static_node (\<sigma> p) \<and> my_node_id (\<sigma> p) = p
     \<and> set (al_keys (nodes (\<sigma> p))) = N - {p}
     \<and> ballot_inv p (card N) (votes_for N \<sigma> p) (ballot (\<sigma> p)))"

lemma service_inv_initial: "initial_service N \<sigma> \<Longrightarrow> service_inv N \<sigma>"
  by (auto simp: initial_service_def service_inv_def ballot_inv_def contender_def ballot_def)

lemma nodes_count:
  assumes "service_inv N \<sigma>" and "p \<in> N"
  shows "length (nodes (\<sigma> p)) + 1 = card N"
proof -
  have keys: "set (al_keys (nodes (\<sigma> p))) = N - {p}" and fin: "finite N"
    using assms by (auto simp: service_inv_def)
  have "distinct (al_keys (nodes (\<sigma> p)))"
    using assms by (auto simp: service_inv_def static_node_def aft_inv_def nodes_inv_def)
  then have "length (nodes (\<sigma> p)) = card (N - {p})"
    by (metis distinct_card keys length_al_keys)
  with card_Suc_Diff1 [OF fin assms(2)] show ?thesis by simp
qed

text \<open>One node handles an input, having heard only votes that were cast.\<close>

lemma service_inv_handle:
  assumes inv: "service_inv N \<sigma>" and q: "q \<in> N" and i: "ordinary q i"
    and heard: "votes_heard i \<subseteq> votes_for N \<sigma> q"
  shows "service_inv N (\<sigma>(q := handle i (\<sigma> q)))"
proof -
  let ?\<tau> = "\<sigma>(q := handle i (\<sigma> q))"
  have sq: "static_node (\<sigma> q)" "my_node_id (\<sigma> q) = q" using inv q by (auto simp: service_inv_def)
  have p: "polls (votes_heard i) (\<sigma> q) (handle i (\<sigma> q))" using sq i by (intro polls_handle) simp_all
  then have steps: "ballot_steps q (card N) (votes_heard i) (ballot (\<sigma> q)) (ballot (?\<tau> q))"
    using sq nodes_count [OF inv q] by (simp add: polls_def)
  have grants: "grants (trace (\<sigma> x)) \<subseteq> grants (trace (?\<tau> x))" for x
    using ballot_steps_grants [OF steps] by (simp add: ballot_def)
  then have votes: "votes_for N \<sigma> x \<subseteq> votes_for N ?\<tau> x" for x
    by (auto simp: votes_for_def)
  have "evolves (\<sigma> q) (handle i (\<sigma> q))" using sq(1) by (simp add: evolves_handle static_node_inv)
  then have id: "my_node_id (?\<tau> q) = q" using sq(2) by (simp add: evolves_def)
  have "static_node (?\<tau> q)" using sq i by (simp add: static_handle)
  moreover have "set (al_keys (nodes (?\<tau> q))) = N - {q}"
    using p inv q by (simp add: polls_def kept_def service_inv_def)
  moreover have "ballot_inv q (card N) (votes_for N \<sigma> q) (ballot (?\<tau> q))"
    using inv q by (intro ballot_inv_steps [OF steps heard]) (simp add: service_inv_def)
  ultimately show ?thesis
    using inv id unfolding service_inv_def by (auto intro: ballot_inv_mono [OF _ votes])
qed

section \<open>Messages on the wire\<close>

lemma peek_type: "t < 2 ^ 64 \<Longrightarrow> peek_uint 8 (le_bytes 8 t @ rest) = Inr t"
  by (simp add: peek_uint_def le_value_le_bytes)

lemma peek_raft_msg:
  "peek_uint 8 (raft_msg_bytes m @ rest) = Inr (case m of
     MsgAppendEntries r \<Rightarrow> raft_append_entries
   | MsgAppendEntriesResponse r \<Rightarrow> raft_append_entries_response
   | MsgRequestVote r \<Rightarrow> raft_request_vote
   | MsgRequestVoteResponse r \<Rightarrow> raft_request_vote_response)"
  by (cases m) (simp_all add: peek_type raft_msg_types del: le_bytes.simps)

lemma le_value_le_bytes_8: "v < 2 ^ 64 \<Longrightarrow> le_value (le_bytes 8 v) = v"
  by (rule le_value_le_bytes) simp

lemma le_value_flag: "v < 256 \<Longrightarrow> le_value (le_bytes (Suc 0) v) = v"
  using le_value_le_bytes [of v 1] by (simp del: le_bytes.simps)

lemma response_code_bound: "response_code s < 256"
  by (cases s) simp_all

lemma bool_code_bound: "bool_code b < 256"
  by (simp add: bool_code_def)

text \<open>Every struct that is sent is read back as it was.\<close>

lemma structs_read_back:
  "msg_fits (MsgAppendEntries r1) \<Longrightarrow> AppendEntries_of (raft_msg_bytes (MsgAppendEntries r1)) = r1"
  "msg_fits (MsgAppendEntriesResponse r2) \<Longrightarrow>
     AppendEntriesResponse_of (raft_msg_bytes (MsgAppendEntriesResponse r2)) = r2"
  "msg_fits (MsgRequestVote r3) \<Longrightarrow> RequestVote_of (raft_msg_bytes (MsgRequestVote r3)) = r3"
  "msg_fits (MsgRequestVoteResponse r4) \<Longrightarrow>
     RequestVoteResponse_of (raft_msg_bytes (MsgRequestVoteResponse r4)) = r4"
  by (simp_all add: AppendEntries_of_def AppendEntriesResponse_of_def RequestVote_of_def
      RequestVoteResponse_of_def field_at_def le_value_le_bytes_8 le_value_flag response_code_bound
      bool_code_bound bool_code_def del: le_bytes.simps)

lemma vote_carried_bytes:
  assumes "msg_fits m"
  shows "vote_carried k (raft_msg_bytes m @ rest) \<subseteq> {(k, t) | t. m = granted_vote t}"
proof (cases m)
  case (MsgRequestVoteResponse r)
  have "take sizeof_RequestVoteResponse (raft_msg_bytes m @ rest) = raft_msg_bytes m"
    using length_raft_msg_bytes(4) [of r] MsgRequestVoteResponse by (simp del: raft_msg_bytes.simps)
  moreover have "RequestVoteResponse_of (raft_msg_bytes m) = r"
    using assms MsgRequestVoteResponse structs_read_back(4) [of r] by (simp del: raft_msg_bytes.simps)
  ultimately show ?thesis
    using MsgRequestVoteResponse by (auto simp: vote_carried_def Let_def granted_vote_def)
qed (auto simp: vote_carried_def Let_def peek_raft_msg raft_msg_types simp del: raft_msg_bytes.simps)

text \<open>
  A message that the channel accepts reaches its handler with the fields it was sent with, and
  a standard exception of the handler is swallowed.
\<close>

definition caught :: "(Aft, unit) exec \<Rightarrow> (Aft, unit) exec" where
  "caught m = (case m of Throw a e \<Rightarrow> if is_std_exception e then ok a else m | _ \<Rightarrow> m)"

fun handle_msg :: "NodeId \<Rightarrow> RaftMsg \<Rightarrow> byte list \<Rightarrow> Aft \<Rightarrow> (Aft, unit) exec" where
  "handle_msg k (MsgAppendEntries r) payload a = recv_append_entries k r payload a"
| "handle_msg k (MsgAppendEntriesResponse r) payload a = recv_append_entries_response k r a"
| "handle_msg k (MsgRequestVote r) payload a = recv_request_vote k r a"
| "handle_msg k (MsgRequestVoteResponse r) payload a = recv_request_vote_response k r a"

lemma recv_authenticated_msg:
  assumes "env_recv_authenticated (env a) (trace a) k (raft_msg_bytes m) payload = Some rest"
    and "n = length (raft_msg_bytes m)"
  shows "recv_authenticated n k (raft_msg_bytes m @ payload) a = Inr (raft_msg_bytes m, rest)"
  using assms by (simp add: recv_authenticated_def overlay_def del: raft_msg_bytes.simps)

lemma recv_message_handles:
  assumes "msg_fits m" and "env_recv_authenticated (env a) (trace a) k (raft_msg_bytes m) payload = Some rest"
  shows "recv_message k (raft_msg_bytes m @ payload) a = caught (handle_msg k m rest a)"
proof -
  note r = recv_authenticated_msg [OF assms(2)]
  have "dispatch_message (case m of
     MsgAppendEntries r \<Rightarrow> raft_append_entries
   | MsgAppendEntriesResponse r \<Rightarrow> raft_append_entries_response
   | MsgRequestVote r \<Rightarrow> raft_request_vote
   | MsgRequestVoteResponse r \<Rightarrow> raft_request_vote_response) k (raft_msg_bytes m @ payload) a
     = handle_msg k m rest a"
    using assms(1) r
    by (cases m) (simp_all add: dispatch_message_def raft_msg_types length_raft_msg_bytes structs_read_back
        del: raft_msg_bytes.simps msg_fits.simps)
  then show ?thesis
    by (simp add: recv_message_def peek_raft_msg caught_def del: raft_msg_bytes.simps split: exec.split)
qed

lemma recv_message_dropped:
  assumes "env_recv_authenticated (env a) (trace a) k (raft_msg_bytes m) payload = None"
  shows "recv_message k (raft_msg_bytes m @ payload) a = ok a"
proof -
  have r: "recv_authenticated n k (raft_msg_bytes m @ payload) a = Inl DroppedMessage"
    if "n = length (raft_msg_bytes m)" for n
    using assms that by (simp add: recv_authenticated_def overlay_def del: raft_msg_bytes.simps)
  show ?thesis
    using r by (cases m) (simp_all add: recv_message_def peek_raft_msg dispatch_message_def raft_msg_types
        length_raft_msg_bytes del: raft_msg_bytes.simps)
qed

section \<open>Election safety\<close>

lemma service_inv_step:
  assumes "service_step N \<sigma> \<tau>" and "service_inv N \<sigma>"
  shows "service_inv N \<tau>"
  using assms(1)
proof cases
  case (deliver p q m sent payload)
  let ?i = "RecvMessage p (raft_msg_bytes m @ payload)"
  have "votes_heard ?i \<subseteq> {(p, t) | t. m = granted_vote t}"
    using vote_carried_bytes [OF deliver(6)] by simp
  also have "\<dots> \<subseteq> votes_for N \<sigma> q" using deliver(2,5) by (auto simp: votes_for_def grants_def)
  finally have "votes_heard ?i \<subseteq> votes_for N \<sigma> q" .
  with deliver(4) show ?thesis
    unfolding deliver(1) by (intro service_inv_handle [OF assms(2) deliver(3)]) simp_all
next
  case (local_step q i)
  then show ?thesis by (simp add: service_inv_handle [OF assms(2)])
qed

lemma service_inv_steps:
  assumes "service_steps N \<sigma> \<tau>" and "service_inv N \<sigma>"
  shows "service_inv N \<tau>"
  using assms(1) by (induction rule: rtranclp_induct) (simp_all add: assms(2) service_inv_step)

lemma leader_majority:
  assumes "service_inv N \<sigma>" and "p \<in> N" and "leadership_state (\<sigma> p) = Some Leader"
  shows "majority N (votes_for_me (\<sigma> p))"
    and "\<forall>x\<in>votes_for_me (\<sigma> p). x = p \<or> (p, current_view (\<sigma> p)) \<in> grants (trace (\<sigma> x))"
  using assms by (auto simp: service_inv_def ballot_inv_def contender_def ballot_def votes_for_def
      majority_def)

lemma service_inv_leaders:
  assumes inv: "service_inv N \<sigma>" and "p \<in> N" and "q \<in> N"
    and p: "leadership_state (\<sigma> p) = Some Leader" and q: "leadership_state (\<sigma> q) = Some Leader"
    and t: "current_view (\<sigma> p) = current_view (\<sigma> q)"
  shows "p = q"
proof -
  let ?t = "current_view (\<sigma> p)"
  have own: "(c, ?t) \<notin> grants (trace (\<sigma> x))" if "x \<in> {p, q}" for x c
    using that inv assms(2,3) p q t by (auto simp: service_inv_def ballot_inv_def contender_def ballot_def)
  note mp = leader_majority [OF inv assms(2) p] and mq = leader_majority [OF inv assms(3) q]
  have "finite N" using inv by (simp add: service_inv_def)
  from raft_quorum.quorums_share [OF this mp(1) mq(1) mp(2)] obtain x
    where x: "x \<in> votes_for_me (\<sigma> q)" "x = p \<or> (p, ?t) \<in> grants (trace (\<sigma> x))" by blast
  with mq(2) t have y: "x = q \<or> (q, ?t) \<in> grants (trace (\<sigma> x))" by auto
  have "x \<in> N" using x(1) mq(1) by (auto simp: majority_def)
  then have "c = c'" if "(c, ?t) \<in> grants (trace (\<sigma> x))" "(c', ?t) \<in> grants (trace (\<sigma> x))" for c c'
    using inv that by (auto simp: service_inv_def ballot_inv_def ballot_def)
  with x(2) y own show ?thesis by blast
qed

end
