(* ===== verification/Aft_Theorems.thy ===== *)
theory Aft_Theorems
  imports Aft_Termination Raft_Network
begin

text \<open>
  What \<open>aft::Aft\<close> guarantees on one node: along every run the invariant holds and what is
  committed stays committed; commit follows a majority of every active configuration; the
  messages a leader sends cover its log; and the behaviours of retirement and of elections
  that the code documents. A small sample node is the input of the witnesses.
\<close>

section \<open>A sample node\<close>

definition node_a :: NodeId where "node_a = EntityId ''a''"
definition node_b :: NodeId where "node_b = EntityId ''b''"
definition node_c :: NodeId where "node_c = EntityId ''c''"

definition sample_info :: NodeInfo where "sample_info = \<lparr>hostname = ''h'', port = ''1''\<rparr>"

definition sample_nodes :: Nodes where
  "sample_nodes = [(node_a, sample_info), (node_b, sample_info), (node_c, sample_info)]"

definition sample_config :: Configuration where
  "sample_config = \<lparr>cfg_idx = 1, cfg_nodes = sample_nodes, cfg_bft_offset = 0, cfg_rid = 1\<rparr>"

definition sample_env :: Environment where
  "sample_env = \<lparr>env_send_authenticated = (\<lambda>_ _ _. True),
     env_recv_authenticated = (\<lambda>_ _ _ rest. Some rest), env_have_channel = (\<lambda>_ _. True),
     env_deserialize = (\<lambda>_ _ _ _ _. None), env_random = (\<lambda>_. 0), env_resharing_tracker = None,
     env_node_client = True, env_empty_config = sample_config\<rparr>"

definition sample_peer :: "Index \<Rightarrow> NodeState" where
  "sample_peer m = \<lparr>node_info = sample_info, sent_idx = 3, match_idx = m, last_ack_timeout = 0\<rparr>"

text \<open>A leader in view 2 with two peers, three entries of which the first is committed.\<close>

definition sample_aft :: Aft where
  "sample_aft = \<lparr>my_node_id = node_a, current_view = 2, last_idx = 3, commit_idx = 1,
     cft_watermark_idx = 1, view_history = [1, 1], new_view_idx = 0, requested_evidence_from = None,
     consensus_type = CFT, voted_for = Some node_a, leader_id = Some node_a, votes_for_me = {},
     leadership_state = Some Leader, membership_state = Active, retirement_phase = None,
     timeout_elapsed = 0, election_index = 1, is_new_follower = False, should_sign = False,
     request_timeout = 10, election_timeout = 100, ticking = True, configurations = [sample_config],
     nodes = [(node_b, sample_peer 3), (node_c, sample_peer 0)], learner_nodes = Map.empty,
     retired_nodes = Map.empty, reconfiguration_type = ONE_TRANSACTION,
     require_identity_for_reconfig = False, orc_sets = Map.empty, retirement_idx = None,
     retirement_committable_idx = None, entry_size_not_limited = 0, entry_count = 0,
     entries_batch_size = 20, batch_window_sum = 0, committable_indices = [2, 3],
     public_only = False, env = sample_env, trace = []\<rparr>"

lemmas sample_defs =
  sample_aft_def sample_env_def sample_config_def sample_nodes_def sample_info_def sample_peer_def
  node_a_def node_b_def node_c_def

lemma aft_inv_sample: "aft_inv sample_aft"
  by (simp add: sample_defs aft_inv_defs vh_inv_def al_keys_def)

lemma sample_commit: "commit_idx (final (update_commit sample_aft)) = 3"
proof -
  let ?b = "sample_aft\<lparr>cft_watermark_idx := 3\<rparr>"
  have "new_commit_cft_idx sample_aft (configurations sample_aft) uint64_max = Some 3"
    by (simp add: sample_defs confirmed_index_def uint64_max_def)
  then have u: "update_commit sample_aft = commit_if_possible 3 ?b"
    by (simp add: update_commit_def Let_def get_commit_watermark_idx_def uint64_max_def)
      (simp add: sample_aft_def)
  have "aft_inv ?b" using aft_inv_sample by simp
  then have "commit_idx (final (commit_if_possible 3 ?b))
      = Max (insert (commit_idx ?b) {i \<in> set (committable_indices ?b). i \<le> 3})"
    by (rule commit_idx_commit_if_possible)
      (simp_all add: sample_aft_def get_term_internal_def vh_view_at_def upper_bound_def)
  moreover have "insert (commit_idx ?b) {i \<in> set (committable_indices ?b). i \<le> 3} = {1, 2, 3}"
    by (auto simp: sample_aft_def)
  ultimately show ?thesis using u by simp
qed

section \<open>Runs\<close>

text \<open>C8: Every state a well-formed node reaches, whatever messages, clock ticks, batches and
  reconfigurations it is given and whatever its collaborators answer, is well formed again: the
  commit index is inside the log, the committable indices are sorted between the commit index
  and the end of the log, the views start in order inside the log, and there is one node state
  for every other node of every active configuration.\<close>

theorem run_preserves_invariant:
  assumes "aft_inv a" and "aft_steps a inputs b"
  shows "aft_inv b"
  using evolves_aft_steps [OF assms(2,1)] by (rule evolves_inv)

theorem run_preserves_invariant_witness:
  "aft_inv sample_aft \<and> aft_inv (fold handle [Tick 10, GetSignableTxid] sample_aft)"
  using run_preserves_invariant [OF aft_inv_sample, of "[Tick 10, GetSignableTxid]"
      "fold handle [Tick 10, GetSignableTxid] sample_aft"] aft_inv_sample
  by (simp add: aft_steps_fold)

text \<open>C4: Along every run the commit index and the view never go back, and no rollback of the
  store and no truncation of the ledger ever reaches below the commit index the run started
  from: what is committed is never lost, even when a handler throws.\<close>

theorem run_keeps_committed:
  assumes "aft_inv a" and "aft_steps a inputs b"
  shows "commit_idx a \<le> commit_idx b \<and> current_view a \<le> current_view b
    \<and> (\<exists>es. trace b = trace a @ es \<and> list_all (respects_commit (commit_idx a)) es)"
  using evolves_aft_steps [OF assms(2,1)] by (auto simp: evolves_def trace_extends_def list_all_iff)

theorem run_keeps_committed_witness:
  "commit_idx sample_aft \<le> commit_idx (handle (Tick 10) sample_aft)"
  using run_keeps_committed [OF aft_inv_sample, of "[Tick 10]" "handle (Tick 10) sample_aft"]
  by (simp add: aft_steps_fold)

text \<open>C9: No handler of a well-formed node runs forever: every message, clock tick, batch and
  reconfiguration ends in a return or an exception. The loops of the code that no bound is
  written on (the search for a matching index, the batches of a leader, the switch of
  configurations) all end.\<close>

theorem handlers_terminate:
  assumes "aft_inv a"
  shows "recv_message from data a \<noteq> Diverge s \<and> periodic elapsed a \<noteq> Diverge s
    \<and> replicate_batch entries t a \<noteq> Diverge s'
    \<and> add_configuration idx conf learners retired a \<noteq> Diverge s"
  using terminates_recv_message [OF assms] terminates_periodic [OF assms]
    terminates_replicate_batch [OF assms] terminates_add_configuration [OF assms]
  by (simp add: terminates_def)

theorem handlers_terminate_witness:
  "(\<forall>b. recv_message node_b (raft_msg_bytes (granted_vote 9)) sample_aft \<noteq> Diverge b)
    \<and> (\<forall>b. periodic 100 sample_aft \<noteq> Diverge b)"
  using handlers_terminate [OF aft_inv_sample] by blast

section \<open>Commit\<close>

text \<open>C5: A leader commits nothing that is not replicated: whenever \<open>update_commit\<close> moves the
  commit index, the new one is the index of a signature of the log, and in every active
  configuration a majority of the nodes has acknowledged it.\<close>

theorem commit_needs_majority:
  assumes "aft_inv a" and "indices_bounded a" and "configurations a \<noteq> []"
    and "commit_idx (final (update_commit a)) \<noteq> commit_idx a"
  shows "commit_idx (final (update_commit a)) \<in> set (committable_indices a)
    \<and> (\<forall>c\<in>set (configurations a). majority_has a c (commit_idx (final (update_commit a))))"
  using assms(2,3)
proof (cases rule: update_commit_watermark)
  case 1
  with assms(4) show ?thesis by simp
next
  case (2 w)
  let ?b = "a\<lparr>cft_watermark_idx := w\<rparr>"
  have b: "aft_inv ?b" using assms(1) by simp
  from 2(1) assms(4) have u: "update_commit a = commit_if_possible w ?b" by (auto split: if_splits)
  with assms(4) have w: "commit_idx ?b < w" "get_term_internal w ?b \<le> current_view ?b"
    by (auto simp: commit_if_possible_def Let_def split: if_splits)
  let ?s = "{i \<in> set (committable_indices a). i \<le> w}"
  have c: "commit_idx (final (update_commit a)) = Max (insert (commit_idx a) ?s)"
    using commit_idx_commit_if_possible [OF b w] u by simp
  have "Max (insert (commit_idx a) ?s) \<in> insert (commit_idx a) ?s" by (rule Max_in) simp_all
  with c assms(4) have "commit_idx (final (update_commit a)) \<in> ?s" by auto
  with 2(2) show ?thesis by blast
qed

theorem commit_needs_majority_witness:
  "commit_idx (final (update_commit sample_aft)) = 3 \<and> majority_has sample_aft sample_config 3"
proof -
  have c: "commit_idx (final (update_commit sample_aft)) = 3"
    by (simp add: sample_commit)
  have "indices_bounded sample_aft" by (simp add: sample_defs indices_bounded_def uint64_max_def)
  from commit_needs_majority [OF aft_inv_sample this] c show ?thesis
    by (simp add: sample_defs)
qed

text \<open>C7: A leader commits everything that is replicated: once a majority of every active
  configuration has acknowledged a signature, \<open>update_commit\<close> returns with a commit index
  that has reached it.\<close>

theorem commit_reaches_majority:
  assumes "aft_inv a" and "indices_bounded a" and "configurations a \<noteq> []"
    and "\<forall>(k, n)\<in>set (nodes a). match_idx n \<le> last_idx a"
    and "\<forall>c\<in>set (configurations a). cfg_nodes c \<noteq> []"
    and "length (view_history a) \<le> current_view a"
    and "i \<in> set (committable_indices a)" and "\<forall>c\<in>set (configurations a). majority_has a c i"
  shows "returns (update_commit a) \<and> i \<le> commit_idx (final (update_commit a))"
  using assms(2,3)
proof (cases rule: update_commit_watermark)
  case 1
  with update_commit_defined [OF assms(1,5), of uint64_max] show ?thesis by simp
next
  case (2 w)
  let ?b = "a\<lparr>cft_watermark_idx := w\<rparr>"
  have b: "aft_inv ?b" using assms(1) by simp
  obtain c where c: "c \<in> set (configurations a)" using assms(3) by (cases "configurations a") auto
  have "w \<le> last_idx a" using 2(2) [of w] c assms(4) majority_has_le by blast
  with 2(1) have u: "update_commit a = commit_if_possible w ?b" by simp
  have i: "i \<le> w" "commit_idx a < i" using 2(2) [of i] assms(1,7,8) by (auto simp: aft_inv_defs)
  have "get_term_internal w ?b \<le> current_view ?b"
    using assms(6) vh_view_at_le_length [of "view_history a" w]
    by (simp add: get_term_internal_def)
  then have "commit_idx (final (update_commit a))
      = Max (insert (commit_idx a) {i \<in> set (committable_indices a). i \<le> w})"
    using commit_idx_commit_if_possible [OF b, of w] i u by simp
  moreover have "i \<le> Max (insert (commit_idx a) {i \<in> set (committable_indices a). i \<le> w})"
    using i assms(7) by (intro Max_ge) simp_all
  ultimately show ?thesis using u commit_if_possible_returns [OF b] by simp
qed

theorem commit_reaches_majority_witness:
  "majority_has sample_aft sample_config 3 \<and> 3 \<le> commit_idx (final (update_commit sample_aft))"
proof -
  have m: "majority_has sample_aft sample_config 3"
    by (simp add: sample_defs majority_has_def replicated_upto_def match_idx_of_def)
  have "indices_bounded sample_aft" by (simp add: sample_defs indices_bounded_def uint64_max_def)
  from commit_reaches_majority [OF aft_inv_sample this, of 3] m show ?thesis
    by (simp add: sample_defs)
qed

section \<open>Replication\<close>

text \<open>C15: \<open>send_append_entries\<close> always returns, and the messages it sends cover the log: the
  first continues the log just before the start index, each one continues where the one before
  ended, and the last one ends at the end of the log. No message carries more than one entry
  beyond the batch size, and all the entries of a message are of the view the message names.\<close>

theorem append_entries_cover_log:
  assumes "log_wf a" and "to \<in> set (al_keys (nodes a))" and "0 < start"
    and "\<not> (is_retired a \<and> phase_gt_Signed (retirement_phase a))"
  shows "returns (send_append_entries to start a) \<and>
    (\<exists>ms. trace (final (send_append_entries to start a)) = trace a @ sends_of to ms
      \<and> ae_covers (start - 1) (last_idx a) (map fst ms) \<and> (\<forall>m\<in>set ms. well_formed_batch a (fst m)))"
  using send_append_entries_returns [OF assms(1,2)]
    trace_send_append_entries_loop [OF assms, of "last_idx a + 3"]
  by (simp add: send_append_entries_def)

theorem append_entries_cover_log_witness:
  "returns (send_append_entries node_b 1 sample_aft)
    \<and> (\<exists>ms. ae_covers 0 3 (map fst ms)
         \<and> trace (final (send_append_entries node_b 1 sample_aft)) = sends_of node_b ms)"
  using append_entries_cover_log [of sample_aft node_b 1] aft_inv_sample
  by (auto simp: aft_inv_def sample_aft_def is_retired_def)

text \<open>After a follower rejects the previous entry, both sides look for the place to resume
  from: \<open>find_highest_possible_match\<close> always finds the greatest index, up to the one that was
  rejected and inside the log, whose entry is of a view not above the rejected one.\<close>

theorem highest_possible_match:
  assumes "log_wf a"
  shows "find_highest_possible_match tx a =
    Some (Max {n. n \<le> min (tx_seqno tx) (last_idx a) \<and> vh_view_at (view_history a) n \<le> tx_view tx})"
proof -
  let ?S = "{n. n \<le> min (tx_seqno tx) (last_idx a) \<and> vh_view_at (view_history a) n \<le> tx_view tx}"
  have "vh_inv (view_history a)" using assms by (simp add: log_wf_def)
  from find_highest_possible_match_spec [OF this, of tx] obtain n
    where n: "find_highest_possible_match tx a = Some n" "n \<in> ?S"
      and above: "\<forall>m. n < m \<longrightarrow> m \<le> min (tx_seqno tx) (last_idx a)
        \<longrightarrow> tx_view tx < vh_view_at (view_history a) m"
    by blast
  have "m \<le> n" if "m \<in> ?S" for m
    using above that by (metis (mono_tags, lifting) leD leI mem_Collect_eq)
  with n(2) have "Max ?S = n" by (intro Max_eqI) auto
  with n(1) show ?thesis by simp
qed

theorem highest_possible_match_witness:
  "find_highest_possible_match \<lparr>tx_view = 2, tx_seqno = 7\<rparr> sample_aft
    = Some (Max {n. n \<le> min 7 3 \<and> vh_view_at [1, 1] n \<le> 2})"
  using highest_possible_match [of sample_aft "\<lparr>tx_view = 2, tx_seqno = 7\<rparr>"] aft_inv_sample
  by (simp add: aft_inv_def sample_aft_def)

text \<open>C16: A rollback to an index that is not below the commit index returns and drops exactly
  what lies above it: the log ends there, every entry it keeps has the view it had, the views that
  start above it and the signatures above it are forgotten, and so are the configurations at the back
  of the queue that start above it, up to the last one that does not. A rollback below the commit
  index changes nothing.\<close>

theorem rollback_drops_suffix:
  assumes "aft_inv a"
  shows "returns (rollback idx a) \<and>
    (if idx < commit_idx a then final (rollback idx a) = a
     else last_idx (final (rollback idx a)) = idx
       \<and> (\<forall>i \<le> idx. vh_view_at (view_history (final (rollback idx a))) i = vh_view_at (view_history a) i)
       \<and> view_history (final (rollback idx a)) = filter (\<lambda>s. s \<le> idx) (view_history a)
       \<and> committable_indices (final (rollback idx a)) = filter (\<lambda>i. i \<le> idx) (committable_indices a)
       \<and> (\<exists>dropped. configurations a = configurations (final (rollback idx a)) @ dropped
            \<and> (\<forall>c\<in>set dropped. idx < cfg_idx c))
       \<and> (configurations (final (rollback idx a)) = [] \<or> cfg_idx (last (configurations (final (rollback idx a)))) \<le> idx))"
proof (cases "idx < commit_idx a")
  case True
  then show ?thesis using assms by (simp add: rollback_def aft_inv_def)
next
  case False
  then have idx: "commit_idx a \<le> idx" by simp
  have "vh_view_at (vh_rollback idx (view_history a)) i = vh_view_at (view_history a) i" if "i \<le> idx" for i
    using assms that by (simp add: vh_view_at_rollback aft_inv_def log_wf_def)
  moreover have "\<exists>dropped. configurations a = configurations (final (rollback idx a)) @ dropped
      \<and> (\<forall>c\<in>set dropped. idx < cfg_idx c)"
    using pop_back_while_prefix [of "configurations a"] by (simp add: rollback_drops(4) [OF assms idx])
  moreover have "configurations (final (rollback idx a)) = [] \<or> cfg_idx (last (configurations (final (rollback idx a)))) \<le> idx"
    using pop_back_while_last [of "\<lambda>c. cfg_idx c > idx" "configurations a"] by (auto simp: rollback_drops(4) [OF assms idx])
  moreover have "vh_rollback idx (view_history a) = filter (\<lambda>s. s \<le> idx) (view_history a)"
    using assms by (simp add: vh_rollback_def take_upper_bound takeWhile_sorted_filter aft_inv_def log_wf_def vh_inv_def)
  ultimately show ?thesis using False rollback_returns [OF assms] rollback_drops(1-3) [OF assms idx] by simp
qed

theorem rollback_drops_suffix_witness:
  "returns (rollback 2 sample_aft) \<and> last_idx (final (rollback 2 sample_aft)) = 2
    \<and> committable_indices (final (rollback 2 sample_aft)) = [2]"
  using rollback_drops_suffix [OF aft_inv_sample, of 2] by (simp add: sample_aft_def)

text \<open>C21: The moving average of the batch size never overflows its 32-bit \<open>int\<close> and the batch
  size a node uses stays between 1 and the size limit of a message, along every run.\<close>

theorem batch_size_bounded:
  assumes "aft_inv a" and "aft_steps a inputs b"
  shows "1 \<le> entries_batch_size b \<and> entries_batch_size b \<le> append_entries_size_limit
    \<and> 0 \<le> batch_window_sum b \<and> batch_window_sum b < 2 ^ 31"
  using evolves_inv [OF evolves_aft_steps [OF assms(2,1)]]
  by (simp add: aft_inv_def batch_inv_def append_entries_size_limit_def)

theorem batch_size_bounded_witness:
  "1 \<le> entries_batch_size (fold handle [Tick 10, Tick 10] sample_aft)"
  using batch_size_bounded [OF aft_inv_sample, of "[Tick 10, Tick 10]"
      "fold handle [Tick 10, Tick 10] sample_aft"]
  by (simp add: aft_steps_fold)

section \<open>Elections\<close>

text \<open>C20: CheckQuorum: a leader stays leader through a clock tick exactly when it and the nodes
  that acknowledged it within the election timeout are together more than half of all the nodes;
  otherwise it becomes a follower.\<close>

theorem check_quorum_majority:
  assumes "consensus_type a = CFT"
  shows "check_quorum elapsed a =
    (if 2 * (responsive_count (age_acks elapsed a) + 1) > length (nodes a) + 1
     then ok (age_acks elapsed a) else become_follower (age_acks elapsed a))"
proof -
  let ?b = "age_acks elapsed a"
  have n: "length (nodes ?b) = length (nodes a)" and t: "consensus_type ?b = CFT"
    using assms by (simp_all add: age_acks_def)
  have "backup_ack_timeout_count ?b \<ge> get_quorum (length (nodes ?b)) ?b
      \<longleftrightarrow> \<not> 2 * (responsive_count ?b + 1) > length (nodes a) + 1"
    using responsive_plus_timed_out [of ?b] n t by (simp add: get_quorum_def) linarith
  then show ?thesis by (simp add: check_quorum_def Let_def)
qed

theorem check_quorum_majority_witness:
  "check_quorum 10 sample_aft = ok (age_acks 10 sample_aft)"
  using check_quorum_majority [of sample_aft 10]
  by (simp add: sample_aft_def age_acks_def al_map_def responsive_count_def sample_peer_def)

text \<open>C19: A candidate becomes leader by counting a vote exactly when more than half of all the
  nodes have then voted for it; until that vote arrives it stays a candidate.\<close>

theorem majority_elects:
  assumes "static_node a" and "leadership_state a = Some Candidate" and "k \<in> set (al_keys (nodes a))"
    and "rvr_term r = current_view a" and "rvr_vote_granted r"
  shows "votes_for_me (final (recv_request_vote_response k r a)) = insert k (votes_for_me a)
    \<and> current_view (final (recv_request_vote_response k r a)) = current_view a
    \<and> leadership_state (final (recv_request_vote_response k r a)) =
      Some (if length (nodes a) + 1 < 2 * card (insert k (votes_for_me a)) then Leader else Candidate)"
  using assms moves_add_vote [OF assms(1), of k]
  by (auto simp: recv_request_vote_response_def moves_def ballot_def Let_def)

text \<open>The three nodes of a service that has just started, none of them leading.\<close>

definition sample_follower :: "NodeId \<Rightarrow> Aft" where
  "sample_follower p = sample_aft\<lparr>my_node_id := p, voted_for := None, leader_id := None,
     leadership_state := Some Follower,
     nodes := map (\<lambda>k. (k, sample_peer 0)) (filter (\<lambda>k. k \<noteq> p) [node_a, node_b, node_c])\<rparr>"

definition sample_candidate :: Aft where
  "sample_candidate = (sample_follower node_a)\<lparr>leadership_state := Some Candidate,
     voted_for := Some node_a, votes_for_me := {node_a}\<rparr>"

lemma static_sample_follower: "p \<in> {node_a, node_b, node_c} \<Longrightarrow> static_node (sample_follower p)"
  by (auto simp: static_node_def settled_def plain_env_def sample_follower_def sample_defs aft_inv_defs
      vh_inv_def al_keys_def)

lemma static_sample_candidate: "static_node sample_candidate"
  using static_sample_follower [of node_a]
  by (simp add: sample_candidate_def static_node_def settled_def)

lemma initial_sample_service: "initial_service {node_a, node_b, node_c} sample_follower"
  using static_sample_follower
  by (auto simp: initial_service_def sample_follower_def sample_aft_def al_keys_def node_a_def node_b_def
      node_c_def)

theorem majority_elects_witness:
  "leadership_state (final (recv_request_vote_response node_b
      \<lparr>rvr_term = 2, rvr_vote_granted = True\<rparr> sample_candidate)) = Some Leader"
  using majority_elects [OF static_sample_candidate, of node_b "\<lparr>rvr_term = 2, rvr_vote_granted = True\<rparr>"]
  by (simp add: sample_candidate_def sample_follower_def sample_aft_def node_a_def node_b_def node_c_def)

text \<open>C1: Election safety: in a service whose configuration does not change, no term ever has two
  leaders, however messages are delayed, lost, repeated and reordered. This holds although a
  candidate that gives up in its own term may vote a second time in that term.\<close>

theorem election_safety:
  assumes "initial_service N \<sigma>" and "service_steps N \<sigma> \<tau>"
  shows "card {p \<in> N. leadership_state (\<tau> p) = Some Leader \<and> current_view (\<tau> p) = t} \<le> 1"
proof -
  let ?L = "{p \<in> N. leadership_state (\<tau> p) = Some Leader \<and> current_view (\<tau> p) = t}"
  have inv: "service_inv N \<tau>" using assms by (blast intro: service_inv_steps service_inv_initial)
  then have "finite ?L" by (simp add: service_inv_def)
  moreover have "p = q" if "p \<in> ?L" "q \<in> ?L" for p q
    using that by (intro service_inv_leaders [OF inv]) auto
  ultimately show ?thesis by (simp add: card_le_Suc0_iff_eq)
qed

theorem election_safety_witness:
  "card {p \<in> {node_a, node_b, node_c}.
      leadership_state ((sample_follower(node_a := handle (Tick 100) (sample_follower node_a))) p) = Some Leader
      \<and> current_view ((sample_follower(node_a := handle (Tick 100) (sample_follower node_a))) p) = 3} \<le> 1"
proof (rule election_safety [OF initial_sample_service])
  show "service_steps {node_a, node_b, node_c} sample_follower
      (sample_follower(node_a := handle (Tick 100) (sample_follower node_a)))"
    by (rule r_into_rtranclp, rule service_step.local_step) simp_all
qed

text \<open>C17: Every handler of a node in a static configuration implements the ballot machine: what it
  does to the term, the vote, the role, the votes received and the votes granted is a sequence
  of the six rules of \<open>ballot_step\<close>, with a vote counted only if the handled message carries
  it.\<close>

theorem handlers_implement_ballot:
  assumes "static_node a" and "ordinary (my_node_id a) i"
  shows "ballot_steps (my_node_id a) (length (nodes a) + 1) (votes_heard i) (ballot a) (ballot (handle i a))"
  using polls_handle [OF assms] by (simp add: polls_def)

theorem handlers_implement_ballot_witness:
  "ballot_steps (my_node_id sample_candidate) (length (nodes sample_candidate) + 1) {}
    (ballot sample_candidate) (ballot (handle (Tick 100) sample_candidate))"
  using handlers_implement_ballot [OF static_sample_candidate, of "Tick 100"] by simp

text \<open>
  The rule of Raft for votes, on signatures: the signed part of the log ends at the commit index or at the
  greatest signature after it; a log is older than another one if its last signature is of an earlier
  view, or of the same view and at a smaller index.
\<close>

definition last_signed :: "Aft \<Rightarrow> Index" where
  "last_signed a = Max (insert (commit_idx a) (set (committable_indices a)))"

definition older :: "View \<times> Index \<Rightarrow> View \<times> Index \<Rightarrow> bool" where
  "older x y \<longleftrightarrow> fst x < fst y \<or> fst x = fst y \<and> snd x < snd y"

definition may_grant :: "NodeId \<Rightarrow> RequestVote \<Rightarrow> Aft \<Rightarrow> bool" where
  "may_grant k r a \<longleftrightarrow>
     \<not> older (rv_term_of_last_committable_idx r, rv_last_committable_idx r)
         (vh_view_at (view_history a) (last_signed a), last_signed a)
     \<and> (if current_view a = rv_term r then leader_id a = None \<and> (voted_for a = None \<or> voted_for a = Some k)
        else current_view a < rv_term r)"

lemma last_signed_eq:
  assumes "aft_inv a"
  shows "last_committable_index a = last_signed a"
proof (cases "committable_indices a = []")
  case True
  then show ?thesis by (simp add: last_committable_index_def last_signed_def)
next
  case False
  have s: "sorted_wrt (<) (committable_indices a)" "\<forall>i\<in>set (committable_indices a). commit_idx a < i"
    using assms by (simp_all add: aft_inv_def committable_inv_def)
  have "i \<le> last (committable_indices a)" if "i \<in> set (committable_indices a)" for i
    using s(1) that by (cases "committable_indices a" rule: rev_cases) (auto simp: sorted_wrt_append)
  moreover have "commit_idx a < last (committable_indices a)" using s(2) False by simp
  ultimately have "last_signed a = last (committable_indices a)"
    unfolding last_signed_def using False by (intro Max_eqI) auto
  then show ?thesis using False by (simp add: last_committable_index_def)
qed

lemma up_to_date_not_older:
  assumes "aft_inv a"
  shows "up_to_date r a \<longleftrightarrow> \<not> older (rv_term_of_last_committable_idx r, rv_last_committable_idx r)
    (vh_view_at (view_history a) (last_signed a), last_signed a)"
  using last_committable_index_bounds(2) [OF assms]
  by (auto simp: up_to_date_def Let_def older_def get_term_internal_def last_signed_eq [OF assms])

text \<open>C18: A vote is granted exactly to the sender of a request of the current or a later term whose
  last signed entry is at least as recent as the node's own; in the current term only while no
  leader is known and no other node got the vote. The vote is remembered.\<close>

theorem vote_granted_iff:
  assumes "aft_inv a"
  shows "if may_grant k r a
    then grants (trace (final (recv_request_vote k r a))) = insert (k, rv_term r) (grants (trace a))
      \<and> voted_for (final (recv_request_vote k r a)) = Some k
    else grants (trace (final (recv_request_vote k r a))) = grants (trace a)"
proof -
  note may_grant = may_grant_def [of k r a, folded up_to_date_not_older [OF assms]]
  have answer: "grants (trace (answer_request_vote k r b)) =
      (if leader_id b = None \<and> (voted_for b = None \<or> voted_for b = Some k) \<and> up_to_date r b
       then insert (k, current_view b) (grants (trace b)) else grants (trace b))
    \<and> (leader_id b = None \<longrightarrow> (voted_for b = None \<or> voted_for b = Some k) \<longrightarrow> up_to_date r b \<longrightarrow>
       voted_for (answer_request_vote k r b) = Some k)" for b
    by (auto simp: answer_request_vote_def send_request_vote_response_def send_authenticated_def
        restart_election_timeout_def Let_def grants_def granted_vote_def)
  have refuse: "grants (trace (send_request_vote_response k False a)) = grants (trace a)"
    by (simp add: send_request_vote_response_def send_authenticated_def)
  consider (old) "rv_term r < current_view a" | (new) "current_view a < rv_term r" | (same) "rv_term r = current_view a"
    by linarith
  then show ?thesis
  proof cases
    case old
    with refuse show ?thesis by (simp add: recv_request_vote_def may_grant)
  next
    case new
    let ?b = "final (become_aware_of_new_term (rv_term r) a)"
    have "recv_request_vote k r a = ok (answer_request_vote k r ?b)"
      using new become_aware_effect(1) [OF assms(1), of "rv_term r"]
      by (simp add: recv_request_vote_def seq_returns)
    with answer [of ?b] new become_aware_effect(2) [OF assms(1), of "rv_term r"]
    show ?thesis by (auto simp: become_aware_effect(3) [OF assms(1)] may_grant)
  next
    case same
    with answer [of a] show ?thesis by (auto simp: recv_request_vote_def may_grant)
  qed
qed

theorem vote_granted_iff_witness:
  "(node_b, 5) \<in> grants (trace (final (recv_request_vote node_b
      \<lparr>rv_term = 5, rv_last_committable_idx = 3, rv_term_of_last_committable_idx = 2\<rparr> sample_aft)))"
  using vote_granted_iff [OF aft_inv_sample, of node_b
      "\<lparr>rv_term = 5, rv_last_committable_idx = 3, rv_term_of_last_committable_idx = 2\<rparr>"]
  by (simp add: may_grant_def older_def last_signed_def vh_view_at_def upper_bound_def sample_aft_def)

text \<open>C25: A candidate that hears from a leader of its own term becomes a follower and forgets that it
  voted for itself, so that it may grant its vote to another candidate of the same term.\<close>

theorem candidate_forgets_its_vote:
  assumes "static_node a" and "leadership_state a = Some Candidate" and "ae_term r = current_view a"
  shows "voted_for (final (recv_append_entries k r data a)) = None
    \<and> current_view (final (recv_append_entries k r data a)) = current_view a
    \<and> leadership_state (final (recv_append_entries k r data a)) = Some Follower"
proof -
  let ?b = "final (become_aware_of_new_term (ae_term r) a)"
  have m: "moves (\<lambda>x. x\<lparr>b_view := ae_term r, b_voted := None, b_role := Some Follower, b_votes := {}\<rparr>) a ?b"
    using assms by (intro moves_become_aware) simp_all
  have "evolves a ?b" using assms by (intro evolves_become_aware) (simp_all add: static_node_inv)
  with assms(1) m have "static_node ?b" by (auto simp: moves_def intro: static_node_kept)
  then have "quiet ?b (final (check_append_entries k r data ?b))"
    by (simp add: check_append_entries_def Let_def quiet_response quiet_accept)
  with m have "moves (\<lambda>x. x\<lparr>b_view := ae_term r, b_voted := None, b_role := Some Follower, b_votes := {}\<rparr>) a
      (final (recv_append_entries k r data a))"
    using assms become_aware_effect(1) [OF static_node_inv [OF assms(1)], of "ae_term r"]
    by (simp add: recv_append_entries_def final_seq_returns moves_quiet)
  with assms(3) show ?thesis by (simp add: moves_def ballot_def)
qed

theorem candidate_forgets_its_vote_witness:
  "voted_for sample_candidate = Some node_a
    \<and> voted_for (final (recv_append_entries node_b (make_append_entries 7 7 sample_candidate) [] sample_candidate)) = None"
  using candidate_forgets_its_vote [OF static_sample_candidate, of "make_append_entries 7 7 sample_candidate"]
  by (simp add: sample_candidate_def)

text \<open>C26: A leader whose retirement is already signed stays leader when it learns of a later term:
  it keeps the role, now in a term in which nobody voted for it.\<close>

theorem retired_leader_leads_new_term:
  assumes "aft_inv a" and "leadership_state a = Some Leader" and "is_retired a"
    and "retirement_phase a = Some Signed" and "retirement_committable_idx a = Some c"
    and "c \<le> last_committable_index a"
  shows "leadership_state (final (become_aware_of_new_term t a)) = Some Leader
    \<and> current_view (final (become_aware_of_new_term t a)) = t
    \<and> votes_for_me (final (become_aware_of_new_term t a)) = {}"
  using become_aware_effect(2) [OF assms(1), of t] become_aware_retired [OF assms(1,3-6), of t] assms(2)
  by simp

theorem retired_leader_leads_new_term_witness:
  "leadership_state (final (become_aware_of_new_term 9
      (sample_aft\<lparr>membership_state := Retired, retirement_phase := Some Signed, retirement_idx := Some 2,
        retirement_committable_idx := Some 3\<rparr>))) = Some Leader"
  using retired_leader_leads_new_term [of "sample_aft\<lparr>membership_state := Retired,
      retirement_phase := Some Signed, retirement_idx := Some 2, retirement_committable_idx := Some 3\<rparr>" 3 9]
    aft_inv_sample
  by (simp add: aft_inv_defs is_retired_def last_committable_index_def sample_aft_def)

section \<open>Messages\<close>

text \<open>C22: A message round trip: what one node packs into a Raft message, the handler of the
  receiving node gets back field by field, for every kind of message and every value that fits
  its 64-bit fields, once the channel has accepted it; a standard exception of the handler is swallowed.
  A message the channel rejects changes nothing, and one too short for the type throws.\<close>

theorem message_roundtrip:
  assumes "msg_fits m"
  shows "recv_message k (raft_msg_bytes m @ payload) a =
      (case env_recv_authenticated (env a) (trace a) k (raft_msg_bytes m) payload of
         None \<Rightarrow> ok a
       | Some rest \<Rightarrow> caught (handle_msg k m rest a))
    \<and> (length data < 8 \<longrightarrow> recv_message k data a = Throw a (LogicError ''Insufficient space''))"
proof
  show "length data < 8 \<longrightarrow> recv_message k data a = Throw a (LogicError ''Insufficient space'')"
    by (simp add: recv_message_def peek_uint_def insufficient_def)
qed (simp add: recv_message_handles [OF assms] recv_message_dropped split: option.split)

theorem message_roundtrip_witness:
  "recv_message node_b (raft_msg_bytes (granted_vote 2) @ []) sample_candidate
    = caught (recv_request_vote_response node_b \<lparr>rvr_term = 2, rvr_vote_granted = True\<rparr> sample_candidate)"
  using message_roundtrip [of "granted_vote 2" node_b "[]" sample_candidate "[]"]
  by (simp add: granted_vote_def sample_candidate_def sample_follower_def sample_aft_def sample_env_def
      del: raft_msg_bytes.simps)

end
