(* ===== verification/Map_Interface.thy ===== *)
theory Map_Interface
  imports Serialized
begin

text \<open>
  What the key-value store relies on in the persistent maps it is built on (ds/champ_map.h,
  ds/rb_map.h), as locales, and the serialised form of their entries (ds/map_serializers.h).
  The clients' lemmas are proved once here, for every map.
\<close>

section \<open>Contracts\<close>

locale persistent_map =
  fixes invar :: "'m \<Rightarrow> bool"
    and empty_map :: 'm
    and get :: "'m \<Rightarrow> 'k \<Rightarrow> 'v option"
    and put :: "'k \<Rightarrow> 'v \<Rightarrow> 'm \<Rightarrow> 'm"
    and entries :: "'m \<Rightarrow> ('k \<times> 'v) list"
  assumes invar_empty: "invar empty_map"
    and get_empty: "get empty_map k = None"
    and invar_put: "invar m \<Longrightarrow> invar (put k v m)"
    and get_put: "invar m \<Longrightarrow> get (put k v m) k' = (if k' = k then Some v else get m k')"
    and entries_distinct: "invar m \<Longrightarrow> distinct (al_keys (entries m))"
    and entries_get: "invar m \<Longrightarrow> map_of (entries m) k = get m k"
begin

definition put_all :: "('k \<times> 'v) list \<Rightarrow> 'm \<Rightarrow> 'm" where
  "put_all kvs m = fold (\<lambda>(k, v). put k v) kvs m"

lemma invar_put_all: "invar m \<Longrightarrow> invar (put_all kvs m)"
  by (induction kvs arbitrary: m) (auto simp: put_all_def invar_put)

lemma get_put_all:
  "invar m \<Longrightarrow> distinct (al_keys kvs) \<Longrightarrow>
    get (put_all kvs m) k = (case map_of kvs k of None \<Rightarrow> get m k | Some v \<Rightarrow> Some v)"
proof (induction kvs arbitrary: m)
  case Nil
  then show ?case by (simp add: put_all_def)
next
  case (Cons kv kvs)
  obtain k' v' where kv: "kv = (k', v')" by (cases kv)
  have "get (put_all kvs (put k' v' m)) k = (case map_of kvs k of None \<Rightarrow> get (put k' v' m) k | Some v \<Rightarrow> Some v)"
    using Cons.prems by (intro Cons.IH) (simp_all add: invar_put kv)
  moreover have "map_of kvs k' = None"
    using Cons.prems by (simp add: kv map_of_None_iff_keys)
  ultimately show ?case
    using Cons.prems by (auto simp: put_all_def kv get_put split: option.split)
qed

text \<open>A map that is filled with the entries of another answers like it.\<close>

lemma rebuild_get: "invar m \<Longrightarrow> get (put_all (entries m) empty_map) k = get m k"
  by (simp add: get_put_all invar_empty entries_distinct entries_get get_empty split: option.split)

lemma dom_get: "invar m \<Longrightarrow> dom (get m) = set (al_keys (entries m))"
  by (auto simp: dom_def entries_get [symmetric] map_of_Some_keys dest: keys_map_of_Some)

lemma card_dom: "invar m \<Longrightarrow> card (dom (get m)) = length (entries m)"
  by (metis distinct_card dom_get entries_distinct length_al_keys)

end

locale removable_map = persistent_map invar empty_map get put entries
  for invar :: "'m \<Rightarrow> bool" and empty_map :: 'm and get :: "'m \<Rightarrow> 'k \<Rightarrow> 'v option"
    and put :: "'k \<Rightarrow> 'v \<Rightarrow> 'm \<Rightarrow> 'm" and entries :: "'m \<Rightarrow> ('k \<times> 'v) list" +
  fixes remove :: "'k \<Rightarrow> 'm \<Rightarrow> 'm"
  assumes invar_remove: "invar m \<Longrightarrow> invar (remove k m)"
    and get_remove: "invar m \<Longrightarrow> get (remove k m) k' = (if k' = k then None else get m k')"
begin

lemma remove_put: "invar m \<Longrightarrow> get m k = None \<Longrightarrow> get (remove k (put k v m)) = get m"
  by (rule ext) (simp add: get_remove invar_put get_put)

end

section \<open>Sizes and padding\<close>

text \<open>Sizes are held in a \<open>uint32_t\<close>; every item is padded to a multiple of eight bytes.\<close>

definition get_padding :: "nat \<Rightarrow> nat" where
  "get_padding n = (let padding = n mod 8 in if padding \<noteq> 0 then 8 - padding else padding)"

definition get_size_with_padding :: "('t \<Rightarrow> nat) \<Rightarrow> 't \<Rightarrow> nat" where
  "get_size_with_padding get_size t =
     (let t_size = get_size t mod 2 ^ 32 in (t_size + get_padding t_size) mod 2 ^ 32)"

definition add_padding :: "nat \<Rightarrow> cursor \<Rightarrow> cursor fallible" where
  "add_padding data_size c =
     (let padding_size = get_padding data_size
      in if padding_size \<noteq> 0 then write_block (replicate padding_size 0) c else Inr c)"

lemma get_padding_less: "get_padding n < 8"
  by (simp add: get_padding_def Let_def)

lemma get_padding_aligns: "(n + get_padding n) mod 8 = 0"
  by (simp add: get_padding_def Let_def) presburger

lemma size_with_padding:
  "get_size t < 2 ^ 32 - 8 \<Longrightarrow> get_size_with_padding get_size t = get_size t + get_padding (get_size t)"
  using get_padding_less [of "get_size t"] by (simp add: get_size_with_padding_def Let_def)

section \<open>Traversals\<close>

text \<open>\<open>foreach\<close> with a callback that updates a state and may stop the traversal.\<close>

fun foreach_list :: "('k \<Rightarrow> 'v \<Rightarrow> 's \<Rightarrow> 's \<times> bool) \<Rightarrow> ('k \<times> 'v) list \<Rightarrow> 's \<Rightarrow> 's \<times> bool" where
  "foreach_list f [] s = (s, True)"
| "foreach_list f ((k, v) # kvs) s =
     (case f k v s of (s, False) \<Rightarrow> (s, False) | (s, True) \<Rightarrow> foreach_list f kvs s)"

lemma foreach_list_append:
  "foreach_list f (xs @ ys) s =
     (case foreach_list f xs s of (s, False) \<Rightarrow> (s, False) | (s, True) \<Rightarrow> foreach_list f ys s)"
  by (induction f xs s rule: foreach_list.induct) (auto split: prod.split bool.split)

section \<open>Sorted association lists\<close>

fun upd_sorted :: "'k::linorder \<Rightarrow> 'v \<Rightarrow> ('k \<times> 'v) list \<Rightarrow> ('k \<times> 'v) list" where
  "upd_sorted k v [] = [(k, v)]"
| "upd_sorted k v ((k', v') # m) =
     (if k < k' then (k, v) # (k', v') # m
      else if k' < k then (k', v') # upd_sorted k v m
      else (k', v) # m)"

lemma set_keys_upd_sorted [simp]: "set (al_keys (upd_sorted k v m)) = insert k (set (al_keys m))"
  by (induction k v m rule: upd_sorted.induct) auto

lemma sorted_upd_sorted:
  "sorted_wrt (<) (al_keys m) \<Longrightarrow> sorted_wrt (<) (al_keys (upd_sorted k v m))"
  by (induction k v m rule: upd_sorted.induct) (auto dest: less_trans)

lemma map_of_upd_sorted: "map_of (upd_sorted k v m) k' = (if k' = k then Some v else map_of m k')"
  by (induction k v m rule: upd_sorted.induct) auto

lemma upd_sorted_append:
  assumes "sorted_wrt (<) (al_keys (xs @ (y, w) # ys))"
  shows "upd_sorted k v (xs @ (y, w) # ys) =
    (if k < y then upd_sorted k v xs @ (y, w) # ys
     else if y < k then xs @ (y, w) # upd_sorted k v ys
     else xs @ (y, v) # ys)"
  using assms
proof (induction xs)
  case (Cons x xs)
  obtain a b where x: "x = (a, b)" by (cases x)
  from Cons.prems have "a < y" by (simp add: x sorted_wrt_append)
  with Cons show ?case by (auto simp: x dest: less_trans)
qed auto

end
