(* ===== verification/Rb_Map.thy ===== *)
theory Rb_Map
  imports Map_Interface
begin

text \<open>
  The persistent red-black map \<open>rb::Map\<close> (ds/rb_map.h). A node keeps the number of entries
  below it and their serialised size; \<open>ksize\<close> and \<open>vsize\<close> are
  \<open>map::get_size_with_padding\<close> on keys and values.
\<close>

section \<open>Operations\<close>

datatype Color = R | B

datatype ('k, 'v) rb_map =
    RbEmpty
  | RbNode (root_color: Color) (rb_left: "('k, 'v) rb_map") (root_key: 'k) (root_value: 'v)
      (rb_right: "('k, 'v) rb_map") (total_size: nat) (total_serialized_size: nat)

fun rb_size :: "('k, 'v) rb_map \<Rightarrow> nat" where
  "rb_size RbEmpty = 0"
| "rb_size (RbNode c l k v r n s) = n"

fun rb_serialized_size :: "('k, 'v) rb_map \<Rightarrow> nat" where
  "rb_serialized_size RbEmpty = 0"
| "rb_serialized_size (RbNode c l k v r n s) = s"

definition rb_node ::
  "('k \<Rightarrow> nat) \<Rightarrow> ('v \<Rightarrow> nat) \<Rightarrow> Color \<Rightarrow> ('k, 'v) rb_map \<Rightarrow> 'k \<Rightarrow> 'v \<Rightarrow> ('k, 'v) rb_map \<Rightarrow> ('k, 'v) rb_map"
where
  "rb_node ksize vsize c l k v r =
     RbNode c l k v r (1 + rb_size l + rb_size r)
       (ksize k + vsize v + rb_serialized_size l + rb_serialized_size r)"

fun rb_getp :: "('k::linorder, 'v) rb_map \<Rightarrow> 'k \<Rightarrow> 'v option" where
  "rb_getp RbEmpty key = None"
| "rb_getp (RbNode c l y v r n s) key =
     (if key < y then rb_getp l key else if y < key then rb_getp r key else Some v)"

fun doubled_left :: "('k, 'v) rb_map \<Rightarrow> bool" where
  "doubled_left (RbNode R (RbNode R a k' v' b n' s') k v r n s) = True"
| "doubled_left m = False"

fun doubled_right :: "('k, 'v) rb_map \<Rightarrow> bool" where
  "doubled_right (RbNode R l k v (RbNode R a k' v' b n' s') n s) = True"
| "doubled_right m = False"

text \<open>\<open>paint\<close> is called on nodes only.\<close>

definition rb_paint :: "('k \<Rightarrow> nat) \<Rightarrow> ('v \<Rightarrow> nat) \<Rightarrow> Color \<Rightarrow> ('k, 'v) rb_map \<Rightarrow> ('k, 'v) rb_map" where
  "rb_paint ksize vsize c m = rb_node ksize vsize c (rb_left m) (root_key m) (root_value m) (rb_right m)"

definition rb_balance ::
  "('k \<Rightarrow> nat) \<Rightarrow> ('v \<Rightarrow> nat) \<Rightarrow> ('k, 'v) rb_map \<Rightarrow> 'k \<Rightarrow> 'v \<Rightarrow> ('k, 'v) rb_map \<Rightarrow> ('k, 'v) rb_map"
where
  "rb_balance ksize vsize lft x v rgt =
     (let node = rb_node ksize vsize in
      if doubled_left lft
      then node R (rb_paint ksize vsize B (rb_left lft)) (root_key lft) (root_value lft)
             (node B (rb_right lft) x v rgt)
      else if doubled_right lft
      then node R (node B (rb_left lft) (root_key lft) (root_value lft) (rb_left (rb_right lft)))
             (root_key (rb_right lft)) (root_value (rb_right lft))
             (node B (rb_right (rb_right lft)) x v rgt)
      else if doubled_left rgt
      then node R (node B lft x v (rb_left (rb_left rgt)))
             (root_key (rb_left rgt)) (root_value (rb_left rgt))
             (node B (rb_right (rb_left rgt)) (root_key rgt) (root_value rgt) (rb_right rgt))
      else if doubled_right rgt
      then node R (node B lft x v (rb_left rgt)) (root_key rgt) (root_value rgt)
             (rb_paint ksize vsize B (rb_right rgt))
      else node B lft x v rgt)"

fun rb_insert ::
  "('k \<Rightarrow> nat) \<Rightarrow> ('v \<Rightarrow> nat) \<Rightarrow> 'k::linorder \<Rightarrow> 'v \<Rightarrow> ('k, 'v) rb_map \<Rightarrow> ('k, 'v) rb_map"
where
  "rb_insert ksize vsize x v RbEmpty = rb_node ksize vsize R RbEmpty x v RbEmpty"
| "rb_insert ksize vsize x v (RbNode c l y yv r n s) =
     (if c = B
      then if x < y then rb_balance ksize vsize (rb_insert ksize vsize x v l) y yv r
           else if y < x then rb_balance ksize vsize l y yv (rb_insert ksize vsize x v r)
           else rb_node ksize vsize c l y v r
      else if x < y then rb_node ksize vsize c (rb_insert ksize vsize x v l) y yv r
           else if y < x then rb_node ksize vsize c l y yv (rb_insert ksize vsize x v r)
           else rb_node ksize vsize c l y v r)"

definition rb_put ::
  "('k \<Rightarrow> nat) \<Rightarrow> ('v \<Rightarrow> nat) \<Rightarrow> 'k::linorder \<Rightarrow> 'v \<Rightarrow> ('k, 'v) rb_map \<Rightarrow> ('k, 'v) rb_map"
where
  "rb_put ksize vsize key v m =
     (let t = rb_insert ksize vsize key v m
      in rb_node ksize vsize B (rb_left t) (root_key t) (root_value t) (rb_right t))"

definition rb_remove :: "'k \<Rightarrow> ('k, 'v) rb_map \<Rightarrow> ('k, 'v) rb_map fallible" where
  "rb_remove key m = Inl (LogicError ''rb::Map::remove(k): Not implemented!'')"

text \<open>\<open>foreach\<close> with a callback that updates a state and may stop the traversal.\<close>

fun rb_foreach :: "('k \<Rightarrow> 'v \<Rightarrow> 's \<Rightarrow> 's \<times> bool) \<Rightarrow> ('k, 'v) rb_map \<Rightarrow> 's \<Rightarrow> 's \<times> bool" where
  "rb_foreach f RbEmpty s = (s, True)"
| "rb_foreach f (RbNode c l k v r n z) s =
     (case rb_foreach f l s of
        (s, False) \<Rightarrow> (s, False)
      | (s, True) \<Rightarrow>
          (case f k v s of
             (s, False) \<Rightarrow> (s, False)
           | (s, True) \<Rightarrow> rb_foreach f r s))"

section \<open>Entries in order\<close>

fun rb_entries :: "('k, 'v) rb_map \<Rightarrow> ('k \<times> 'v) list" where
  "rb_entries RbEmpty = []"
| "rb_entries (RbNode c l k v r n s) = rb_entries l @ (k, v) # rb_entries r"

fun rb_counted :: "('k \<Rightarrow> nat) \<Rightarrow> ('v \<Rightarrow> nat) \<Rightarrow> ('k, 'v) rb_map \<Rightarrow> bool" where
  "rb_counted ksize vsize RbEmpty \<longleftrightarrow> True"
| "rb_counted ksize vsize (RbNode c l k v r n s) \<longleftrightarrow>
     rb_counted ksize vsize l \<and> rb_counted ksize vsize r
     \<and> n = 1 + rb_size l + rb_size r
     \<and> s = ksize k + vsize v + rb_serialized_size l + rb_serialized_size r"

fun black_height :: "('k, 'v) rb_map \<Rightarrow> nat" where
  "black_height RbEmpty = 0"
| "black_height (RbNode c l k v r n s) = (if c = B then black_height l + 1 else black_height l)"

fun same_blacks :: "('k, 'v) rb_map \<Rightarrow> bool" where
  "same_blacks RbEmpty \<longleftrightarrow> True"
| "same_blacks (RbNode c l k v r n s) \<longleftrightarrow> black_height l = black_height r \<and> same_blacks l \<and> same_blacks r"

fun color_of :: "('k, 'v) rb_map \<Rightarrow> Color" where
  "color_of RbEmpty = B"
| "color_of (RbNode c l k v r n s) = c"

fun no_red_red :: "('k, 'v) rb_map \<Rightarrow> bool" where
  "no_red_red RbEmpty \<longleftrightarrow> True"
| "no_red_red (RbNode c l k v r n s) \<longleftrightarrow>
     (c = R \<longrightarrow> color_of l = B \<and> color_of r = B) \<and> no_red_red l \<and> no_red_red r"

text \<open>The same but for the root.\<close>

fun no_red_red_below :: "('k, 'v) rb_map \<Rightarrow> bool" where
  "no_red_red_below RbEmpty \<longleftrightarrow> True"
| "no_red_red_below (RbNode c l k v r n s) \<longleftrightarrow> no_red_red l \<and> no_red_red r"

definition rb_inv :: "('k::linorder \<Rightarrow> nat) \<Rightarrow> ('v \<Rightarrow> nat) \<Rightarrow> ('k, 'v) rb_map \<Rightarrow> bool" where
  "rb_inv ksize vsize m \<longleftrightarrow> sorted_wrt (<) (al_keys (rb_entries m)) \<and> rb_counted ksize vsize m
     \<and> same_blacks m \<and> no_red_red m \<and> color_of m = B"

lemma rb_node_simps [simp]:
  "rb_entries (rb_node ks vs c l k v r) = rb_entries l @ (k, v) # rb_entries r"
  "rb_counted ks vs (rb_node ks vs c l k v r) \<longleftrightarrow> rb_counted ks vs l \<and> rb_counted ks vs r"
  "black_height (rb_node ks vs c l k v r) = (if c = B then black_height l + 1 else black_height l)"
  "same_blacks (rb_node ks vs c l k v r) \<longleftrightarrow> black_height l = black_height r \<and> same_blacks l \<and> same_blacks r"
  "color_of (rb_node ks vs c l k v r) = c"
  "no_red_red (rb_node ks vs c l k v r) \<longleftrightarrow>
     (c = R \<longrightarrow> color_of l = B \<and> color_of r = B) \<and> no_red_red l \<and> no_red_red r"
  "no_red_red_below (rb_node ks vs c l k v r) \<longleftrightarrow> no_red_red l \<and> no_red_red r"
  by (simp_all add: rb_node_def)

text \<open>
  \<open>rb_balance\<close> in the four shapes it repairs; every other shape is a plain black node.
\<close>

lemma doubled_leftE:
  assumes "doubled_left m"
  obtains a k' v' b n' s' k v r n s where "m = RbNode R (RbNode R a k' v' b n' s') k v r n s"
  using assms by (cases m rule: doubled_left.cases) auto

lemma doubled_rightE:
  assumes "doubled_right m"
  obtains l k v a k' v' b n' s' n s where "m = RbNode R l k v (RbNode R a k' v' b n' s') n s"
  using assms by (cases m rule: doubled_right.cases) auto

lemma rb_node_sel [simp]:
  "rb_left (rb_node ks vs c l k v r) = l" "rb_right (rb_node ks vs c l k v r) = r"
  "root_key (rb_node ks vs c l k v r) = k" "root_value (rb_node ks vs c l k v r) = v"
  by (simp_all add: rb_node_def)

lemma not_doubled:
  assumes "\<not> doubled_left m" and "\<not> doubled_right m" and "no_red_red_below m"
  shows "no_red_red m"
proof (cases m)
  case (RbNode c l k v r n s)
  have "c = R \<Longrightarrow> color_of l = B"
    using assms(1) RbNode by (cases l; cases "color_of l") auto
  moreover have "c = R \<Longrightarrow> color_of r = B"
    using assms(2) RbNode by (cases r; cases "color_of r") auto
  ultimately show ?thesis using assms(3) RbNode by simp
qed simp

definition rb_balanced :: "('k \<Rightarrow> nat) \<Rightarrow> ('v \<Rightarrow> nat) \<Rightarrow> ('k, 'v) rb_map \<Rightarrow> 'k \<Rightarrow> 'v \<Rightarrow> ('k, 'v) rb_map
    \<Rightarrow> ('k, 'v) rb_map \<Rightarrow> bool" where
  "rb_balanced ks vs l k v r m \<longleftrightarrow>
     rb_entries m = rb_entries l @ (k, v) # rb_entries r
     \<and> (rb_counted ks vs l \<longrightarrow> rb_counted ks vs r \<longrightarrow> rb_counted ks vs m)
     \<and> (same_blacks l \<longrightarrow> same_blacks r \<longrightarrow> black_height l = black_height r \<longrightarrow>
          same_blacks m \<and> black_height m = black_height l + 1)
     \<and> (no_red_red l \<and> no_red_red_below r \<or> no_red_red_below l \<and> no_red_red r \<longrightarrow> no_red_red m)"

lemma rb_balance_spec: "rb_balanced ks vs l k v r (rb_balance ks vs l k v r)"
proof -
  consider (ll) "doubled_left l" | (lr) "\<not> doubled_left l" "doubled_right l"
    | (rl) "\<not> doubled_left l" "\<not> doubled_right l" "doubled_left r"
    | (rr) "\<not> doubled_left l" "\<not> doubled_right l" "\<not> doubled_left r" "doubled_right r"
    | (none) "\<not> doubled_left l" "\<not> doubled_right l" "\<not> doubled_left r" "\<not> doubled_right r"
    by blast
  then show ?thesis
  proof cases
    case ll
    then obtain a k' v' b n' s' kl vl rl n s where "l = RbNode R (RbNode R a k' v' b n' s') kl vl rl n s"
      by (rule doubled_leftE)
    then show ?thesis by (auto simp: rb_balanced_def rb_balance_def rb_paint_def Let_def)
  next
    case lr
    from lr(2) obtain ll kl vl a k' v' b n' s' n s where "l = RbNode R ll kl vl (RbNode R a k' v' b n' s') n s"
      by (rule doubled_rightE)
    with lr(1) show ?thesis by (auto simp: rb_balanced_def rb_balance_def Let_def)
  next
    case rl
    from rl(3) obtain a k' v' b n' s' kr vr rr n s where "r = RbNode R (RbNode R a k' v' b n' s') kr vr rr n s"
      by (rule doubled_leftE)
    with rl(1,2) show ?thesis by (auto simp: rb_balanced_def rb_balance_def Let_def intro: not_doubled)
  next
    case rr
    from rr(4) obtain lr kr vr a k' v' b n' s' n s where "r = RbNode R lr kr vr (RbNode R a k' v' b n' s') n s"
      by (rule doubled_rightE)
    with rr(1-3) show ?thesis
      by (auto simp: rb_balanced_def rb_balance_def rb_paint_def Let_def intro: not_doubled)
  next
    case none
    then show ?thesis by (auto simp: rb_balanced_def rb_balance_def Let_def intro: not_doubled)
  qed
qed

lemma rb_entries_balance [simp]:
  "rb_entries (rb_balance ks vs l k v r) = rb_entries l @ (k, v) # rb_entries r"
  using rb_balance_spec [of ks vs l k v r] by (simp add: rb_balanced_def)

lemma rb_counted_balance:
  "rb_counted ks vs l \<Longrightarrow> rb_counted ks vs r \<Longrightarrow> rb_counted ks vs (rb_balance ks vs l k v r)"
  using rb_balance_spec [of ks vs l k v r] by (simp add: rb_balanced_def)

section \<open>Insertion\<close>

lemma rb_entries_insert:
  "sorted_wrt (<) (al_keys (rb_entries m)) \<Longrightarrow>
    rb_entries (rb_insert ks vs x v m) = upd_sorted x v (rb_entries m)"
proof (induction m)
  case (RbNode c l y yv r n s)
  have "sorted_wrt (<) (al_keys (rb_entries l))" "sorted_wrt (<) (al_keys (rb_entries r))"
    using RbNode.prems by (simp_all add: sorted_wrt_append)
  with RbNode.IH upd_sorted_append [of "rb_entries l" y yv "rb_entries r" x v] RbNode.prems
  show ?case by auto
qed simp

lemma rb_counted_insert: "rb_counted ks vs m \<Longrightarrow> rb_counted ks vs (rb_insert ks vs x v m)"
  by (induction m) (auto simp: rb_counted_balance)

lemma same_blacks_insert:
  "same_blacks m \<Longrightarrow> same_blacks (rb_insert ks vs x v m)
     \<and> black_height (rb_insert ks vs x v m) = black_height m"
proof (induction m)
  case (RbNode c l y yv r n s)
  let ?i = "rb_insert ks vs x v"
  have "same_blacks (rb_balance ks vs (?i l) y yv r) \<and> black_height (rb_balance ks vs (?i l) y yv r) = black_height l + 1"
    "same_blacks (rb_balance ks vs l y yv (?i r)) \<and> black_height (rb_balance ks vs l y yv (?i r)) = black_height l + 1"
    using RbNode rb_balance_spec [of ks vs "?i l" y yv r] rb_balance_spec [of ks vs l y yv "?i r"]
    by (simp_all add: rb_balanced_def)
  with RbNode show ?case by simp
qed simp

lemma no_red_red_weaken: "no_red_red m \<Longrightarrow> no_red_red_below m"
  by (cases m) simp_all

lemma no_red_red_insert:
  "no_red_red m \<Longrightarrow> no_red_red_below (rb_insert ks vs x v m)
     \<and> (color_of m = B \<longrightarrow> no_red_red (rb_insert ks vs x v m))"
proof (induction m)
  case (RbNode c l y yv r n s)
  let ?i = "rb_insert ks vs x v"
  show ?case
  proof (cases c)
    case R
    with RbNode show ?thesis by auto
  next
    case B
    have "no_red_red (rb_balance ks vs (?i l) y yv r)" "no_red_red (rb_balance ks vs l y yv (?i r))"
      using RbNode rb_balance_spec [of ks vs "?i l" y yv r] rb_balance_spec [of ks vs l y yv "?i r"]
      by (auto simp: rb_balanced_def)
    with B RbNode.prems show ?thesis by (auto intro: no_red_red_weaken)
  qed
qed simp

lemma rb_insert_nonempty: "rb_insert ks vs x v m \<noteq> RbEmpty"
  by (cases m) (auto simp: rb_node_def rb_balance_def Let_def)

lemma rb_inv_put:
  assumes "rb_inv ks vs m"
  shows "rb_inv ks vs (rb_put ks vs k v m)"
    and "rb_entries (rb_put ks vs k v m) = upd_sorted k v (rb_entries m)"
proof -
  let ?t = "rb_insert ks vs k v m"
  obtain c l y yv r n s where t: "?t = RbNode c l y yv r n s"
    using rb_insert_nonempty [of ks vs k v m] by (cases ?t) auto
  have e: "rb_entries ?t = upd_sorted k v (rb_entries m)"
    using assms by (simp add: rb_inv_def rb_entries_insert)
  then show en: "rb_entries (rb_put ks vs k v m) = upd_sorted k v (rb_entries m)"
    by (simp add: rb_put_def t)
  have "sorted_wrt (<) (al_keys (rb_entries (rb_put ks vs k v m)))"
    using assms by (simp add: en sorted_upd_sorted rb_inv_def)
  moreover have "rb_counted ks vs ?t" "same_blacks ?t" "no_red_red_below ?t"
    using assms by (simp_all add: rb_inv_def rb_counted_insert same_blacks_insert no_red_red_insert)
  ultimately show "rb_inv ks vs (rb_put ks vs k v m)"
    by (simp add: rb_inv_def rb_put_def t)
qed

lemma rb_getp_entries:
  "sorted_wrt (<) (al_keys (rb_entries m)) \<Longrightarrow> rb_getp m k = map_of (rb_entries m) k"
proof (induction m)
  case (RbNode c l y v r n s)
  have s: "sorted_wrt (<) (al_keys (rb_entries l))" "sorted_wrt (<) (al_keys (rb_entries r))"
    and lt: "\<forall>x\<in>set (al_keys (rb_entries l)). x < y" "\<forall>x\<in>set (al_keys (rb_entries r)). y < x"
    using RbNode.prems by (auto simp: sorted_wrt_append)
  have "map_of (rb_entries r) k = None" if "\<not> y < k" using lt(2) that by (auto simp: map_of_None_iff_keys)
  moreover have "map_of (rb_entries l) k = None" if "\<not> k < y" using lt(1) that by (auto simp: map_of_None_iff_keys)
  ultimately show ?case using RbNode.IH s by (auto simp: map_add_def split: option.split)
qed simp

interpretation rbm: persistent_map "rb_inv ks vs" RbEmpty rb_getp "rb_put ks vs" rb_entries
  for ks :: "'k::linorder \<Rightarrow> nat" and vs :: "'v \<Rightarrow> nat"
proof
  fix m :: "('k, 'v) rb_map" and k k' :: 'k and v :: 'v
  show "rb_inv ks vs RbEmpty" by (simp add: rb_inv_def)
  show "rb_getp RbEmpty k = (None :: 'v option)" by simp
  assume m: "rb_inv ks vs m"
  then show p: "rb_inv ks vs (rb_put ks vs k v m)" by (rule rb_inv_put)
  show "map_of (rb_entries m) k = rb_getp m k" using m by (simp add: rb_inv_def rb_getp_entries)
  show "distinct (al_keys (rb_entries m))" using m by (simp add: rb_inv_def strict_sorted_iff)
  show "rb_getp (rb_put ks vs k v m) k' = (if k' = k then Some v else rb_getp m k')"
    using m p by (simp add: rb_inv_def rb_getp_entries rb_inv_put(2) [OF m] map_of_upd_sorted)
qed

section \<open>Sizes, order and depth\<close>

lemma rb_size_entries: "rb_counted ks vs m \<Longrightarrow> rb_size m = length (rb_entries m)"
  by (induction m) auto

lemma rb_serialized_size_entries:
  "rb_counted ks vs m \<Longrightarrow> rb_serialized_size m = sum_list (map (\<lambda>(k, v). ks k + vs v) (rb_entries m))"
  by (induction m) auto

text \<open>A traversal sees the entries in the order of their keys.\<close>

lemma rb_foreach_entries: "rb_foreach f m s = foreach_list f (rb_entries m) s"
  by (induction m arbitrary: s) (auto simp: foreach_list_append split: prod.split bool.split)

fun rb_depth :: "('k, 'v) rb_map \<Rightarrow> nat" where
  "rb_depth RbEmpty = 0"
| "rb_depth (RbNode c l k v r n s) = 1 + max (rb_depth l) (rb_depth r)"

lemma rb_depth_black_height:
  "same_blacks m \<Longrightarrow> no_red_red m \<Longrightarrow>
    rb_depth m \<le> 2 * black_height m + (if color_of m = R then 1 else 0)"
proof (induction m)
  case (RbNode c l k v r n s)
  have "rb_depth l \<le> 2 * black_height l + (if color_of l = R then 1 else 0)"
    "rb_depth r \<le> 2 * black_height l + (if color_of r = R then 1 else 0)"
    using RbNode by auto
  with RbNode.prems show ?case by (cases c) (auto split: if_splits)
qed simp

lemma black_height_length: "same_blacks m \<Longrightarrow> 2 ^ black_height m \<le> length (rb_entries m) + 1"
proof (induction m)
  case (RbNode c l k v r n s)
  have "(2::nat) ^ black_height l \<le> length (rb_entries l) + 1" "2 ^ black_height l \<le> length (rb_entries r) + 1"
    using RbNode by auto
  then show ?case by simp
qed simp

text \<open>C12: The red-black map is a map: \<open>put\<close> keeps the search order, the colours, equal black
  heights and the counters; a lookup after a \<open>put\<close> gives the new value at the key and the old
  one elsewhere; \<open>size\<close> is the number of keys and the serialised size the sum over the
  entries. A lookup visits at most twice the logarithm of the number of entries.\<close>

theorem rb_map_correct:
  assumes "rb_inv ks vs m"
  shows "rb_inv ks vs (rb_put ks vs k v m)
    \<and> rb_getp (rb_put ks vs k v m) = (rb_getp m)(k \<mapsto> v)
    \<and> rb_size m = card (dom (rb_getp m))
    \<and> rb_serialized_size m = sum_list (map (\<lambda>(k, v). ks k + vs v) (rb_entries m))
    \<and> 2 ^ (rb_depth m div 2) \<le> rb_size m + 1"
proof -
  have c: "rb_counted ks vs m" "same_blacks m" "no_red_red m" "color_of m = B"
    using assms by (simp_all add: rb_inv_def)
  have "rb_depth m div 2 \<le> black_height m"
    using rb_depth_black_height [OF c(2,3)] c(4) by simp
  then have "(2::nat) ^ (rb_depth m div 2) \<le> 2 ^ black_height m" by (simp add: power_increasing)
  also have "\<dots> \<le> rb_size m + 1" using black_height_length [OF c(2)] rb_size_entries [OF c(1)] by simp
  finally have "2 ^ (rb_depth m div 2) \<le> rb_size m + 1" .
  moreover have "rb_getp (rb_put ks vs k v m) = (rb_getp m)(k \<mapsto> v)"
    by (rule ext) (simp add: rbm.get_put [OF assms])
  ultimately show ?thesis
    using assms rbm.invar_put rbm.card_dom rb_size_entries [OF c(1)] rb_serialized_size_entries [OF c(1)]
    by metis
qed

theorem rb_map_correct_witness:
  "rb_getp (rb_put (\<lambda>_. 8) (\<lambda>_. 16) (1 :: nat) ''b'' (rb_put (\<lambda>_. 8) (\<lambda>_. 16) 2 ''a'' RbEmpty))
    = (rb_getp (rb_put (\<lambda>_. 8) (\<lambda>_. 16) 2 ''a'' RbEmpty))(1 \<mapsto> ''b'')"
  by (rule rb_map_correct [OF rbm.invar_put [OF rbm.invar_empty], THEN conjunct2, THEN conjunct1])

end
