(* ===== verification/Champ_Map.thy ===== *)
theory Champ_Map
  imports Map_Interface
begin

text \<open>
  The persistent hash map \<open>champ::Map\<close> (ds/champ_map.h), a compressed hash-array mapped trie:
  every node covers five bits of a 32-bit hash with two bitmaps and one packed vector, and keys
  that agree in 30 bits share a collision node. \<open>h\<close> is the hash of a key as a
  \<open>uint32_t\<close>, \<open>ks\<close> and \<open>vs\<close> are \<open>map::get_size\<close> on keys and values.
\<close>

unbundle bit_operations_syntax

section \<open>Bitmaps\<close>

type_synonym Hash = "32 word"
type_synonym Bitmap = "32 word"

definition index_mask_bits :: nat where "index_mask_bits = 5"
definition collision_depth :: nat where "collision_depth = 6"
definition collision_bins :: nat where "collision_bins = 4"

definition champ_mask :: "Hash \<Rightarrow> nat \<Rightarrow> nat" where
  "champ_mask hash depth = unat (drop_bit (depth * index_mask_bits) hash AND 31)"

definition bm_pop :: "Bitmap \<Rightarrow> nat" where
  "bm_pop b = length (filter (bit b) [0 ..< 32])"

definition bm_set :: "Bitmap \<Rightarrow> nat \<Rightarrow> Bitmap" where
  "bm_set b idx = b OR push_bit idx 1"

definition bm_clear :: "Bitmap \<Rightarrow> nat \<Rightarrow> Bitmap" where
  "bm_clear b idx = b AND NOT (push_bit idx 1)"

definition bm_check :: "Bitmap \<Rightarrow> nat \<Rightarrow> bool" where
  "bm_check b idx \<longleftrightarrow> b AND push_bit idx 1 \<noteq> 0"

section \<open>Nodes\<close>

text \<open>
  The code keeps untyped pointers and reads each one as the type that depth and bitmaps
  promise; here the type is part of the node.
\<close>

datatype ('k, 'v) champ_node =
    Entry (entry_key: 'k) (entry_value: 'v)
  | Collisions (coll_bins: "('k \<times> 'v) list list")
  | SubNodes (sub_nodes: "('k, 'v) champ_node list") (node_map: Bitmap) (data_map: Bitmap)

abbreviation no_index :: nat where
  "no_index \<equiv> 255"

definition compressed_idx :: "('k, 'v) champ_node \<Rightarrow> nat \<Rightarrow> nat" where
  "compressed_idx sn idx =
     (if \<not> bm_check (node_map sn) idx \<and> \<not> bm_check (data_map sn) idx then no_index
      else
        let low = NOT (push_bit idx (- 1)) in
        if bm_check (data_map sn) idx then bm_pop (data_map sn AND low)
        else bm_pop (data_map sn) + bm_pop (node_map sn AND low))"

fun bin_get :: "'k \<Rightarrow> ('k \<times> 'v) list \<Rightarrow> 'v option" where
  "bin_get k [] = None"
| "bin_get k ((k', v) # bin) = (if k = k' then Some v else bin_get k bin)"

definition coll_getp :: "Hash \<Rightarrow> 'k \<Rightarrow> ('k, 'v) champ_node \<Rightarrow> 'v option" where
  "coll_getp hash k cn = bin_get k (coll_bins cn ! champ_mask hash collision_depth)"

fun bin_put :: "'k \<Rightarrow> 'v \<Rightarrow> ('k \<times> 'v) list \<Rightarrow> ('k \<times> 'v) list \<times> bool" where
  "bin_put k v [] = ([(k, v)], False)"
| "bin_put k v ((k', v') # bin) =
     (if k = k' then ((k, v) # bin, True)
      else let (bin', found) = bin_put k v bin in ((k', v') # bin', found))"

definition coll_put ::
  "('k \<Rightarrow> nat) \<Rightarrow> ('v \<Rightarrow> nat) \<Rightarrow> Hash \<Rightarrow> 'k \<Rightarrow> 'v \<Rightarrow> ('k, 'v) champ_node \<Rightarrow> ('k, 'v) champ_node \<times> nat"
where
  "coll_put ks vs hash k v cn =
     (let idx = champ_mask hash collision_depth;
          (bin, found) = bin_put k v (coll_bins cn ! idx)
      in (Collisions ((coll_bins cn)[idx := bin]), if found then ks k + vs v else 0))"

fun bin_remove :: "'k \<Rightarrow> ('k \<times> 'v) list \<Rightarrow> ('k \<times> 'v) list \<times> 'v option" where
  "bin_remove k [] = ([], None)"
| "bin_remove k ((k', v') # bin) =
     (if k = k' then (bin, Some v')
      else let (bin', found) = bin_remove k bin in ((k', v') # bin', found))"

definition coll_remove ::
  "('k \<Rightarrow> nat) \<Rightarrow> ('v \<Rightarrow> nat) \<Rightarrow> Hash \<Rightarrow> 'k \<Rightarrow> ('k, 'v) champ_node \<Rightarrow> ('k, 'v) champ_node \<times> nat"
where
  "coll_remove ks vs hash k cn =
     (let idx = champ_mask hash collision_depth;
          (bin, found) = bin_remove k (coll_bins cn ! idx)
      in (Collisions ((coll_bins cn)[idx := bin]),
          case found of None \<Rightarrow> 0 | Some v \<Rightarrow> ks k + vs v))"

text \<open>\<open>nodes.insert (nodes.begin () + i, x)\<close> and \<open>nodes.erase (nodes.begin () + i)\<close>\<close>

definition insert_at :: "nat \<Rightarrow> 'a \<Rightarrow> 'a list \<Rightarrow> 'a list" where
  "insert_at i x xs = take i xs @ x # drop i xs"

definition erase_at :: "nat \<Rightarrow> 'a list \<Rightarrow> 'a list" where
  "erase_at i xs = take i xs @ drop (Suc i) xs"

text \<open>
  The recursion goes down one depth at a time; depth 5 is the last one, whose children are
  collision nodes.
\<close>

function sub_getp :: "nat \<Rightarrow> Hash \<Rightarrow> 'k \<Rightarrow> ('k, 'v) champ_node \<Rightarrow> 'v option" where
  "sub_getp depth hash k sn =
     (let idx = champ_mask hash depth;
          c_idx = compressed_idx sn idx
      in if c_idx = no_index then None
         else let child = sub_nodes sn ! c_idx in
           if bm_check (data_map sn) idx
           then (if k = entry_key child then Some (entry_value child) else None)
           else if depth \<ge> collision_depth - 1 then coll_getp hash k child
           else sub_getp (depth + 1) hash k child)"
  by pat_completeness auto

termination
  by (relation "measure (\<lambda>(depth, hash, k, sn). collision_depth - depth)") (auto simp: collision_depth_def)

declare sub_getp.simps [simp del]

function sub_put ::
  "('k \<Rightarrow> Hash) \<Rightarrow> ('k \<Rightarrow> nat) \<Rightarrow> ('v \<Rightarrow> nat) \<Rightarrow> nat \<Rightarrow> 'k \<Rightarrow> 'v \<Rightarrow> ('k, 'v) champ_node
   \<Rightarrow> ('k, 'v) champ_node \<times> nat"
where
  "sub_put h ks vs depth k v sn =
     (let idx = champ_mask (h k) depth;
          c_idx = compressed_idx sn idx;
          ns = sub_nodes sn; nm = node_map sn; dm = data_map sn
      in if c_idx = no_index
         then let dm' = bm_set dm idx;
                  c_idx = compressed_idx (SubNodes ns nm dm') idx
              in (SubNodes (insert_at c_idx (Entry k v) ns) nm dm', 0)
         else if bm_check nm idx
         then let (child, r) =
                    (if depth < collision_depth - 1
                     then sub_put h ks vs (depth + 1) k v (ns ! c_idx)
                     else coll_put ks vs (h k) k v (ns ! c_idx))
              in (SubNodes (ns[c_idx := child]) nm dm, r)
         else
           let entry0 = ns ! c_idx in
           if k = entry_key entry0
           then (SubNodes (ns[c_idx := Entry k v]) nm dm,
                 get_size_with_padding ks (entry_key entry0) + get_size_with_padding vs (entry_value entry0))
           else
             let sub_node =
                   (if depth < collision_depth - 1
                    then fst (sub_put h ks vs (depth + 1) k v
                           (SubNodes [entry0] 0 (bm_set 0 (champ_mask (h (entry_key entry0)) (depth + 1)))))
                    else
                      let bins = replicate collision_bins [];
                          idx0 = champ_mask (h (entry_key entry0)) collision_depth;
                          bins = bins[idx0 := bins ! idx0 @ [(entry_key entry0, entry_value entry0)]];
                          idx1 = champ_mask (h k) collision_depth
                      in Collisions (bins[idx1 := bins ! idx1 @ [(k, v)]]));
                 ns = erase_at c_idx ns;
                 dm = bm_clear dm idx;
                 nm = bm_set nm idx;
                 c_idx = compressed_idx (SubNodes ns nm dm) idx
             in (SubNodes (insert_at c_idx sub_node ns) nm dm, 0))"
  by pat_completeness auto

termination
  by (relation "measure (\<lambda>(h, ks, vs, depth, k, v, sn). collision_depth - depth)")
    (auto simp: collision_depth_def)

declare sub_put.simps [simp del]

function sub_remove ::
  "('k \<Rightarrow> Hash) \<Rightarrow> ('k \<Rightarrow> nat) \<Rightarrow> ('v \<Rightarrow> nat) \<Rightarrow> nat \<Rightarrow> 'k \<Rightarrow> ('k, 'v) champ_node
   \<Rightarrow> ('k, 'v) champ_node \<times> nat"
where
  "sub_remove h ks vs depth k sn =
     (let idx = champ_mask (h k) depth;
          c_idx = compressed_idx sn idx;
          ns = sub_nodes sn; nm = node_map sn; dm = data_map sn
      in if c_idx = no_index then (sn, 0)
         else if bm_check dm idx
         then let entry = ns ! c_idx in
              if entry_key entry \<noteq> k then (sn, 0)
              else (SubNodes (erase_at c_idx ns) nm (bm_clear dm idx),
                    get_size_with_padding ks (entry_key entry) + get_size_with_padding vs (entry_value entry))
         else let (child, r) =
                    (if depth \<ge> collision_depth - 1 then coll_remove ks vs (h k) k (ns ! c_idx)
                     else sub_remove h ks vs (depth + 1) k (ns ! c_idx))
              in (SubNodes (ns[c_idx := child]) nm dm, r))"
  by pat_completeness auto

termination
  by (relation "measure (\<lambda>(h, ks, vs, depth, k, sn). collision_depth - depth)")
    (auto simp: collision_depth_def)

declare sub_remove.simps [simp del]

text \<open>The entries in the order \<open>foreach\<close> visits them.\<close>

fun champ_entries :: "('k, 'v) champ_node \<Rightarrow> ('k \<times> 'v) list" where
  "champ_entries (Entry k v) = [(k, v)]"
| "champ_entries (Collisions bins) = concat bins"
| "champ_entries (SubNodes ns nm dm) = concat (map champ_entries ns)"

section \<open>The map\<close>

record ('k, 'v) champ_map =
  root :: "('k, 'v) champ_node"
  map_size :: nat
  serialized_size :: "64 word"

definition champ_empty :: "('k, 'v) champ_map" where
  "champ_empty = \<lparr>root = SubNodes [] 0 0, map_size = 0, serialized_size = 0\<rparr>"

definition champ_get :: "('k \<Rightarrow> Hash) \<Rightarrow> ('k, 'v) champ_map \<Rightarrow> 'k \<Rightarrow> 'v option" where
  "champ_get h m k = sub_getp 0 (h k) k (root m)"

definition champ_put ::
  "('k \<Rightarrow> Hash) \<Rightarrow> ('k \<Rightarrow> nat) \<Rightarrow> ('v \<Rightarrow> nat) \<Rightarrow> 'k \<Rightarrow> 'v \<Rightarrow> ('k, 'v) champ_map \<Rightarrow> ('k, 'v) champ_map"
where
  "champ_put h ks vs k v m =
     (let (r, replaced) = sub_put h ks vs 0 k v (root m);
          size_change = word_of_nat (get_size_with_padding ks k + get_size_with_padding vs v)
                        - word_of_nat replaced
      in \<lparr>root = r, map_size = (if replaced = 0 then map_size m + 1 else map_size m),
          serialized_size = size_change + serialized_size m\<rparr>)"

definition champ_remove ::
  "('k \<Rightarrow> Hash) \<Rightarrow> ('k \<Rightarrow> nat) \<Rightarrow> ('v \<Rightarrow> nat) \<Rightarrow> 'k \<Rightarrow> ('k, 'v) champ_map \<Rightarrow> ('k, 'v) champ_map"
where
  "champ_remove h ks vs k m =
     (let (r, removed) = sub_remove h ks vs 0 k (root m)
      in \<lparr>root = r, map_size = (if removed > 0 then map_size m - 1 else map_size m),
          serialized_size = serialized_size m - word_of_nat removed\<rparr>)"

section \<open>Bits\<close>

lemma bm_check_bit: "bm_check b i \<longleftrightarrow> bit b i"
proof
  assume "bm_check b i"
  then obtain j where "bit (b AND push_bit i 1) j" by (auto simp: bm_check_def bit_eq_iff)
  then show "bit b i" by (auto simp: bit_simps)
next
  assume b: "bit b i"
  then have "i < 32" using bit_imp_le_length [of b i] by simp
  with b have "bit (b AND push_bit i 1) i" by (simp add: bit_simps)
  then show "bm_check b i" unfolding bm_check_def by (metis bit_0_eq bot_apply bot_bool_def)
qed

lemma bit_bm_set: "i < 32 \<Longrightarrow> bit (bm_set b i) j \<longleftrightarrow> bit b j \<or> j = i"
  by (auto simp: bm_set_def bit_simps)

lemma bit_bm_clear: "bit (bm_clear b i) j \<longleftrightarrow> bit b j \<and> j \<noteq> i"
  by (auto simp: bm_clear_def bit_simps dest: bit_imp_le_length)

lemma bit_low: "bit (b AND mask i) j \<longleftrightarrow> bit b j \<and> j < i" for b :: Bitmap
  by (auto simp: bit_simps dest: bit_imp_le_length)

lemma champ_mask_less: "champ_mask hash d < 32"
proof -
  have "(31 :: 32 word) = mask 5" by (simp add: mask_eq_exp_minus_1)
  then have "drop_bit n hash AND 31 = take_bit 5 (drop_bit n hash)" for n by (simp add: take_bit_eq_mask)
  then have "champ_mask hash d = take_bit 5 (unat (drop_bit (d * index_mask_bits) hash))"
    by (simp add: champ_mask_def unsigned_take_bit_eq)
  also have "\<dots> < 2 ^ 5" by (rule take_bit_nat_less_exp)
  finally show ?thesis by simp
qed

lemma champ_mask_bins: "champ_mask hash collision_depth < collision_bins"
proof -
  have "unat (drop_bit 30 hash) = unat hash div 2 ^ 30"
    by (simp add: unat_div drop_bit_eq_div)
  moreover have "unat hash < 2 ^ 32" using unsigned_less [of hash] by simp
  ultimately have "unat (drop_bit 30 hash) < 4" by simp
  moreover have "unat (drop_bit 30 hash AND 31) \<le> unat (drop_bit 30 hash)"
    by (simp add: word_and_le2 word_le_nat_alt [symmetric])
  ultimately show ?thesis
    by (simp add: champ_mask_def collision_depth_def index_mask_bits_def collision_bins_def)
qed

section \<open>Slots\<close>

text \<open>A packed node is a finite map from the 32 indices to its children.\<close>

definition idxs :: "Bitmap \<Rightarrow> nat list" where
  "idxs b = filter (bit b) [0 ..< 32]"

definition sub_idxs :: "('k, 'v) champ_node \<Rightarrow> nat list" where
  "sub_idxs sn = idxs (data_map sn) @ idxs (node_map sn)"

definition slots :: "('k, 'v) champ_node \<Rightarrow> nat \<Rightarrow> ('k, 'v) champ_node option" where
  "slots sn = map_of (zip (sub_idxs sn) (sub_nodes sn))"

definition shape :: "('k, 'v) champ_node \<Rightarrow> bool" where
  "shape sn \<longleftrightarrow> (\<exists>ns nm dm. sn = SubNodes ns nm dm) \<and> length (sub_nodes sn) = length (sub_idxs sn)
     \<and> (\<forall>i. \<not> (bit (node_map sn) i \<and> bit (data_map sn) i))"

lemma upt_split: "i < n \<Longrightarrow> [0 ..< n] = [0 ..< i] @ i # [Suc i ..< n]"
  by (metis less_imp_le_nat upt_add_eq_append upt_conv_Cons le_add_diff_inverse zero_le)

lemma idxs_split:
  assumes "bit b i"
  shows "idxs b = filter (bit b) [0 ..< i] @ i # filter (bit b) [Suc i ..< 32]"
proof -
  have "i < 32" using bit_imp_le_length [OF assms] by simp
  with assms show ?thesis by (simp add: idxs_def upt_split)
qed

lemma pop_low:
  assumes "i < 32"
  shows "bm_pop (b AND mask i) = length (filter (bit b) [0 ..< i])"
proof -
  have "filter (\<lambda>j. bit b j \<and> j < i) [0 ..< 32] = filter (bit b) [0 ..< i]"
    by (simp add: upt_split [OF assms]) (auto intro!: filter_cong simp: filter_empty_conv)
  moreover have "bit (b AND mask i) = (\<lambda>j. bit b j \<and> j < i)" by (rule ext) (rule bit_low)
  ultimately show ?thesis by (simp add: bm_pop_def)
qed

lemma bm_pop_idxs: "bm_pop b = length (idxs b)"
  by (simp add: bm_pop_def idxs_def)

lemma distinct_idxs: "distinct (idxs b)"
  by (simp add: idxs_def)

lemma set_idxs: "set (idxs b) = {i. bit b i}"
  by (auto simp: idxs_def dest: bit_imp_le_length)

lemma distinct_sub_idxs: "shape sn \<Longrightarrow> distinct (sub_idxs sn)"
  by (auto simp: sub_idxs_def distinct_idxs set_idxs shape_def)

lemma compressed_idx_split:
  assumes "bit (data_map sn) i \<or> bit (node_map sn) i" and "shape sn"
  obtains P Q where "sub_idxs sn = P @ i # Q" and "compressed_idx sn i = length P"
proof -
  have i: "i < 32" using assms(1) bit_imp_le_length by fastforce
  show ?thesis
  proof (cases "bit (data_map sn) i")
    case True
    with i idxs_split [OF True] show ?thesis
      by (intro that [of "filter (bit (data_map sn)) [0 ..< i]"
            "filter (bit (data_map sn)) [Suc i ..< 32] @ idxs (node_map sn)"])
        (simp_all add: compressed_idx_def bm_check_bit pop_low sub_idxs_def)
  next
    case False
    with assms(1) have n: "bit (node_map sn) i" by simp
    with i False idxs_split [OF n] show ?thesis
      by (intro that [of "idxs (data_map sn) @ filter (bit (node_map sn)) [0 ..< i]"
            "filter (bit (node_map sn)) [Suc i ..< 32]"])
        (simp_all add: compressed_idx_def bm_check_bit pop_low sub_idxs_def bm_pop_idxs [of "data_map sn"])
  qed
qed

text \<open>Reading and changing one slot of a packed vector.\<close>

lemma zip_at:
  "length ns = length (P @ i # Q) \<Longrightarrow>
    zip (P @ i # Q) ns = zip P (take (length P) ns) @ (i, ns ! length P) # zip Q (drop (Suc (length P)) ns)"
proof -
  assume len: "length ns = length (P @ i # Q)"
  then have "ns = take (length P) ns @ ns ! length P # drop (Suc (length P)) ns"
    by (simp add: id_take_nth_drop)
  then have "zip (P @ i # Q) ns
      = zip (P @ i # Q) (take (length P) ns @ ns ! length P # drop (Suc (length P)) ns)" by simp
  also have "\<dots> = zip P (take (length P) ns) @ (i, ns ! length P) # zip Q (drop (Suc (length P)) ns)"
    using len by (simp add: zip_append)
  finally show ?thesis .
qed

lemma map_of_middle:
  "map_of ps i = None \<Longrightarrow> map_of (ps @ (i, x) # qs) = (map_of (ps @ qs))(i \<mapsto> x)"
  "map_of ps i = None \<Longrightarrow> map_of qs i = None \<Longrightarrow> map_of (ps @ qs) = (map_of (ps @ (i, x) # qs))(i := None)"
  by (auto simp: map_add_def fun_eq_iff split: option.split)

lemma map_of_insert_zip:
  assumes "i \<notin> set P" and "length ns = length P + length Q"
  shows "map_of (zip (P @ i # Q) (insert_at (length P) x ns)) = (map_of (zip (P @ Q) ns))(i \<mapsto> x)"
proof -
  have "zip (P @ Q) ns = zip P (take (length P) ns) @ zip Q (drop (length P) ns)"
    using assms(2) zip_append [of P "take (length P) ns" Q "drop (length P) ns"] by simp
  moreover have "zip (P @ i # Q) (insert_at (length P) x ns)
      = zip P (take (length P) ns) @ (i, x) # zip Q (drop (length P) ns)"
    using assms(2) by (simp add: insert_at_def zip_append)
  moreover have "map_of (zip P (take (length P) ns)) i = None"
    using assms by (simp add: map_of_zip_is_None)
  ultimately show ?thesis by (simp only: map_of_middle)
qed

lemma map_of_erase_zip:
  assumes "i \<notin> set P" and "i \<notin> set Q" and "length ns = length P + length Q + 1"
  shows "map_of (zip (P @ Q) (erase_at (length P) ns)) = (map_of (zip (P @ i # Q) ns))(i := None)"
proof -
  have "zip (P @ Q) (erase_at (length P) ns) = zip P (take (length P) ns) @ zip Q (drop (Suc (length P)) ns)"
    using assms(3) by (simp add: erase_at_def zip_append)
  moreover have "map_of (zip P (take (length P) ns)) i = None" "map_of (zip Q (drop (Suc (length P)) ns)) i = None"
    using assms by (simp_all add: map_of_zip_is_None)
  moreover have "zip (P @ i # Q) ns
      = zip P (take (length P) ns) @ (i, ns ! length P) # zip Q (drop (Suc (length P)) ns)"
    using assms(3) by (intro zip_at) simp
  ultimately show ?thesis by (simp only: map_of_middle(2))
qed

lemma slots_None: "shape sn \<Longrightarrow> slots sn i = None \<longleftrightarrow> \<not> bit (data_map sn) i \<and> \<not> bit (node_map sn) i"
  by (simp add: slots_def shape_def map_of_zip_is_None sub_idxs_def set_idxs)

lemma compressed_idx_None:
  assumes "shape sn" and "i < 32"
  shows "compressed_idx sn i = no_index \<longleftrightarrow> slots sn i = None"
proof (cases "bit (data_map sn) i \<or> bit (node_map sn) i")
  case True
  then obtain P Q where "sub_idxs sn = P @ i # Q" "compressed_idx sn i = length P"
    using assms(1) by (rule compressed_idx_split)
  moreover have "length (sub_idxs sn) \<le> 64"
    unfolding sub_idxs_def idxs_def length_append
    using length_filter_le [of "bit (data_map sn)" "[0..<32]"] length_filter_le [of "bit (node_map sn)" "[0..<32]"]
    by simp
  ultimately show ?thesis using True assms by (auto simp: slots_None)
qed (simp add: slots_None assms compressed_idx_def bm_check_bit)

lemma slots_Some:
  assumes "shape sn" and "slots sn i = Some x"
  shows "sub_nodes sn ! compressed_idx sn i = x" and "compressed_idx sn i < length (sub_nodes sn)"
proof -
  have "bit (data_map sn) i \<or> bit (node_map sn) i" using slots_None [OF assms(1), of i] assms(2) by auto
  then obtain P Q where pq: "sub_idxs sn = P @ i # Q" "compressed_idx sn i = length P"
    using assms(1) by (rule compressed_idx_split)
  have len: "length (sub_nodes sn) = length (P @ i # Q)" using assms(1) pq by (simp add: shape_def)
  have "i \<notin> set P" using distinct_sub_idxs [OF assms(1)] pq(1) by simp
  then have "map_of (zip P (take (length P) (sub_nodes sn))) i = None"
    using len by (simp add: map_of_zip_is_None)
  then have "slots sn i = Some (sub_nodes sn ! length P)"
    by (simp only: slots_def pq zip_at [OF len] map_of_middle(1) fun_upd_same)
  with assms(2) pq(2) show "sub_nodes sn ! compressed_idx sn i = x" by simp
  from len pq(2) show "compressed_idx sn i < length (sub_nodes sn)" by simp
qed

lemma slots_update:
  assumes "shape (SubNodes ns nm dm)" and "slots (SubNodes ns nm dm) i = Some y"
  defines "c \<equiv> compressed_idx (SubNodes ns nm dm) i"
  shows "shape (SubNodes (ns[c := x]) nm dm)"
    and "slots (SubNodes (ns[c := x]) nm dm) = (slots (SubNodes ns nm dm))(i \<mapsto> x)"
proof -
  let ?sn = "SubNodes ns nm dm"
  show "shape (SubNodes (ns[c := x]) nm dm)" using assms(1) by (simp add: shape_def sub_idxs_def)
  have "bit dm i \<or> bit nm i" using assms(1,2) slots_None [of ?sn i] by auto
  then obtain P Q where pq: "sub_idxs ?sn = P @ i # Q" "c = length P"
    unfolding c_def using assms(1) compressed_idx_split [of ?sn i] by auto
  have len: "length ns = length (P @ i # Q)" using assms(1) pq by (simp add: shape_def)
  have "i \<notin> set P" using distinct_sub_idxs [OF assms(1)] pq(1) by simp
  then have "map_of (zip P (take (length P) ns)) i = None" using len by (simp add: map_of_zip_is_None)
  note m = map_of_middle(1) [OF this]
  have "sub_idxs (SubNodes (ns[c := x]) nm dm) = P @ i # Q" using pq(1) by (simp add: sub_idxs_def)
  moreover have "zip (P @ i # Q) (ns[c := x])
      = zip P (take (length P) ns) @ (i, x) # zip Q (drop (Suc (length P)) ns)"
    using zip_at [of "ns[c := x]" P i Q] len pq(2) by simp
  ultimately show "slots (SubNodes (ns[c := x]) nm dm) = (slots ?sn)(i \<mapsto> x)"
    using pq(1) by (simp only: slots_def champ_node.sel zip_at [OF len] m fun_upd_upd)
qed

lemma idxs_without:
  assumes "i < 32" and "\<not> bit b i"
  shows "idxs b = filter (bit b) [0 ..< i] @ filter (bit b) [Suc i ..< 32]"
  using assms by (simp add: idxs_def upt_split)

lemma filter_others:
  assumes "\<And>j. j \<noteq> i \<Longrightarrow> bit b j \<longleftrightarrow> bit c j"
  shows "filter (bit b) [0 ..< i] = filter (bit c) [0 ..< i]"
    and "filter (bit b) [Suc i ..< 32] = filter (bit c) [Suc i ..< 32]"
  using assms by (auto intro!: filter_cong)

lemma idxs_set:
  assumes "i < 32" and "\<not> bit b i"
  shows "idxs (bm_set b i) = filter (bit b) [0 ..< i] @ i # filter (bit b) [Suc i ..< 32]"
  using assms idxs_split [of "bm_set b i" i] filter_others [of i "bm_set b i" b]
  by (simp add: bit_bm_set)

lemma idxs_clear:
  assumes "i < 32"
  shows "idxs (bm_clear b i) = filter (bit b) [0 ..< i] @ filter (bit b) [Suc i ..< 32]"
  using assms idxs_without [of i "bm_clear b i"] filter_others [of i "bm_clear b i" b]
  by (simp add: bit_bm_clear)

lemma slots_grow:
  assumes "shape (SubNodes ns nm dm)" and "sub_idxs (SubNodes ns nm dm) = P @ Q"
    and "sub_idxs (SubNodes ns nm' dm') = P @ i # Q" and "i \<notin> set P"
    and "\<And>j. \<not> (bit nm' j \<and> bit dm' j)"
  shows "shape (SubNodes (insert_at (length P) x ns) nm' dm')"
    and "slots (SubNodes (insert_at (length P) x ns) nm' dm') = (slots (SubNodes ns nm dm))(i \<mapsto> x)"
proof -
  have len: "length ns = length P + length Q" using assms(1,2) by (simp add: shape_def)
  have new: "sub_idxs (SubNodes (insert_at (length P) x ns) nm' dm') = P @ i # Q"
    using assms(3) by (simp add: sub_idxs_def)
  with len assms(5) show "shape (SubNodes (insert_at (length P) x ns) nm' dm')"
    by (simp add: shape_def insert_at_def)
  from map_of_insert_zip [OF assms(4) len]
  show "slots (SubNodes (insert_at (length P) x ns) nm' dm') = (slots (SubNodes ns nm dm))(i \<mapsto> x)"
    by (simp only: slots_def new assms(2) champ_node.sel)
qed

lemma slots_insert_data:
  assumes "shape (SubNodes ns nm dm)" and "slots (SubNodes ns nm dm) i = None" and "i < 32"
  defines "c \<equiv> compressed_idx (SubNodes ns nm (bm_set dm i)) i"
  shows "shape (SubNodes (insert_at c x ns) nm (bm_set dm i))"
    and "slots (SubNodes (insert_at c x ns) nm (bm_set dm i)) = (slots (SubNodes ns nm dm))(i \<mapsto> x)"
proof -
  let ?A = "filter (bit dm) [0 ..< i]" and ?B = "filter (bit dm) [Suc i ..< 32]"
  have nb: "\<not> bit dm i" "\<not> bit nm i" using assms(1,2) slots_None [of "SubNodes ns nm dm" i] by auto
  have o: "sub_idxs (SubNodes ns nm dm) = ?A @ (?B @ idxs nm)"
    using idxs_without [OF assms(3) nb(1)] by (simp add: sub_idxs_def)
  have n: "sub_idxs (SubNodes ns nm (bm_set dm i)) = ?A @ i # (?B @ idxs nm)"
    using idxs_set [OF assms(3) nb(1)] by (simp add: sub_idxs_def)
  have d: "\<not> (bit nm j \<and> bit (bm_set dm i) j)" for j
    using assms(1,3) nb(2) by (auto simp: shape_def bit_bm_set)
  have "filter (bit (bm_set dm i)) [0 ..< i] = ?A"
    using assms(3) by (auto intro!: filter_cong simp: bit_bm_set)
  then have c: "c = length ?A"
    using assms(3) by (simp add: c_def compressed_idx_def bm_check_bit bit_bm_set pop_low)
  have i: "i \<notin> set ?A" by simp
  show "shape (SubNodes (insert_at c x ns) nm (bm_set dm i))"
    unfolding c by (rule slots_grow(1) [OF assms(1) o n i d])
  show "slots (SubNodes (insert_at c x ns) nm (bm_set dm i)) = (slots (SubNodes ns nm dm))(i \<mapsto> x)"
    unfolding c by (rule slots_grow(2) [OF assms(1) o n i d])
qed

lemma slots_insert_node:
  assumes "shape (SubNodes ns nm dm)" and "slots (SubNodes ns nm dm) i = None" and "i < 32"
  defines "c \<equiv> compressed_idx (SubNodes ns (bm_set nm i) dm) i"
  shows "shape (SubNodes (insert_at c x ns) (bm_set nm i) dm)"
    and "slots (SubNodes (insert_at c x ns) (bm_set nm i) dm) = (slots (SubNodes ns nm dm))(i \<mapsto> x)"
proof -
  let ?A = "filter (bit nm) [0 ..< i]" and ?B = "filter (bit nm) [Suc i ..< 32]"
  have nb: "\<not> bit dm i" "\<not> bit nm i" using assms(1,2) slots_None [of "SubNodes ns nm dm" i] by auto
  have o: "sub_idxs (SubNodes ns nm dm) = (idxs dm @ ?A) @ ?B"
    using idxs_without [OF assms(3) nb(2)] by (simp add: sub_idxs_def)
  have n: "sub_idxs (SubNodes ns (bm_set nm i) dm) = (idxs dm @ ?A) @ i # ?B"
    using idxs_set [OF assms(3) nb(2)] by (simp add: sub_idxs_def)
  have d: "\<not> (bit (bm_set nm i) j \<and> bit dm j)" for j
    using assms(1,3) nb(1) by (auto simp: shape_def bit_bm_set)
  have "filter (bit (bm_set nm i)) [0 ..< i] = ?A"
    using assms(3) by (auto intro!: filter_cong simp: bit_bm_set)
  then have c: "c = length (idxs dm @ ?A)"
    using assms(3) nb(1) by (simp add: c_def compressed_idx_def bm_check_bit bit_bm_set pop_low bm_pop_idxs [of dm])
  have i: "i \<notin> set (idxs dm @ ?A)" using nb(1) by (simp add: set_idxs)
  show "shape (SubNodes (insert_at c x ns) (bm_set nm i) dm)"
    unfolding c by (rule slots_grow(1) [OF assms(1) o n i d])
  show "slots (SubNodes (insert_at c x ns) (bm_set nm i) dm) = (slots (SubNodes ns nm dm))(i \<mapsto> x)"
    unfolding c by (rule slots_grow(2) [OF assms(1) o n i d])
qed

lemma slots_erase_data:
  assumes "shape (SubNodes ns nm dm)" and "bit dm i"
  defines "c \<equiv> compressed_idx (SubNodes ns nm dm) i"
  shows "shape (SubNodes (erase_at c ns) nm (bm_clear dm i))"
    and "slots (SubNodes (erase_at c ns) nm (bm_clear dm i)) = (slots (SubNodes ns nm dm))(i := None)"
proof -
  let ?A = "filter (bit dm) [0 ..< i]" and ?B = "filter (bit dm) [Suc i ..< 32]"
  have i: "i < 32" using bit_imp_le_length [OF assms(2)] by simp
  have nn: "\<not> bit nm i" using assms(1,2) by (auto simp: shape_def)
  have o: "sub_idxs (SubNodes ns nm dm) = ?A @ i # (?B @ idxs nm)"
    using idxs_split [OF assms(2)] by (simp add: sub_idxs_def)
  have n: "sub_idxs (SubNodes ns' nm (bm_clear dm i)) = ?A @ (?B @ idxs nm)" for ns'
    using idxs_clear [OF i] by (simp add: sub_idxs_def)
  have c: "c = length ?A"
    using i assms(2) by (simp add: c_def compressed_idx_def bm_check_bit pop_low)
  have len: "length ns = length ?A + length (?B @ idxs nm) + 1" using assms(1) o by (simp add: shape_def)
  then have "length (erase_at c ns) = length ?A + length (?B @ idxs nm)" by (simp add: erase_at_def c)
  with n [of "erase_at c ns"] assms(1) show "shape (SubNodes (erase_at c ns) nm (bm_clear dm i))"
    by (auto simp: shape_def bit_bm_clear)
  have "i \<notin> set ?A" "i \<notin> set (?B @ idxs nm)" using nn by (auto simp: set_idxs)
  from map_of_erase_zip [OF this len]
  show "slots (SubNodes (erase_at c ns) nm (bm_clear dm i)) = (slots (SubNodes ns nm dm))(i := None)"
    by (simp only: slots_def n o c champ_node.sel)
qed

lemma set_sub_nodes: "shape sn \<Longrightarrow> set (sub_nodes sn) = ran (slots sn)"
  unfolding slots_def shape_def
  by (metis (no_types, lifting) distinct_sub_idxs map_fst_zip map_snd_zip ran_map_of_zip shape_def)

section \<open>The invariant of a trie\<close>

definition coll_ok :: "('k \<Rightarrow> Hash) \<Rightarrow> ('k, 'v) champ_node \<Rightarrow> bool" where
  "coll_ok h cn \<longleftrightarrow> (\<exists>bins. cn = Collisions bins \<and> length bins = collision_bins
     \<and> (\<forall>b < collision_bins. distinct (al_keys (bins ! b))
          \<and> (\<forall>k\<in>set (al_keys (bins ! b)). champ_mask (h k) collision_depth = b)))"

text \<open>
  Every slot holds the kind of child its bitmap promises, and every key below a slot has the
  slot's index as its five bits of hash at this depth.
\<close>

function champ_ok :: "('k \<Rightarrow> Hash) \<Rightarrow> nat \<Rightarrow> ('k, 'v) champ_node \<Rightarrow> bool" where
  "champ_ok h d sn \<longleftrightarrow> shape sn \<and>
     (\<forall>i x. slots sn i = Some x \<longrightarrow>
        (\<forall>k\<in>set (al_keys (champ_entries x)). champ_mask (h k) d = i)
        \<and> (if bit (data_map sn) i then \<exists>k v. x = Entry k v
           else if d \<ge> collision_depth - 1 then coll_ok h x else champ_ok h (d + 1) x))"
  by pat_completeness auto

termination
  by (relation "measure (\<lambda>(h, d, sn). collision_depth - d)") (auto simp: collision_depth_def)

declare champ_ok.simps [simp del]

lemma champ_ok_shape: "champ_ok h d sn \<Longrightarrow> shape sn"
  by (simp add: champ_ok.simps)

lemma champ_ok_slot:
  assumes "champ_ok h d sn" and "slots sn i = Some x"
  shows "\<forall>k\<in>set (al_keys (champ_entries x)). champ_mask (h k) d = i"
    and "bit (data_map sn) i \<Longrightarrow> \<exists>k v. x = Entry k v"
    and "\<not> bit (data_map sn) i \<Longrightarrow> d \<ge> collision_depth - 1 \<Longrightarrow> coll_ok h x"
    and "\<not> bit (data_map sn) i \<Longrightarrow> \<not> d \<ge> collision_depth - 1 \<Longrightarrow> champ_ok h (d + 1) x"
proof -
  have "(\<forall>k\<in>set (al_keys (champ_entries x)). champ_mask (h k) d = i)
      \<and> (if bit (data_map sn) i then \<exists>k v. x = Entry k v
         else if d \<ge> collision_depth - 1 then coll_ok h x else champ_ok h (d + 1) x)"
    using assms unfolding champ_ok.simps [of h d sn] by blast
  then show "\<forall>k\<in>set (al_keys (champ_entries x)). champ_mask (h k) d = i"
    and "bit (data_map sn) i \<Longrightarrow> \<exists>k v. x = Entry k v"
    and "\<not> bit (data_map sn) i \<Longrightarrow> d \<ge> collision_depth - 1 \<Longrightarrow> coll_ok h x"
    and "\<not> bit (data_map sn) i \<Longrightarrow> \<not> d \<ge> collision_depth - 1 \<Longrightarrow> champ_ok h (d + 1) x"
    by simp_all
qed

text \<open>The lookup in terms of slots.\<close>

definition child_getp :: "nat \<Rightarrow> bool \<Rightarrow> Hash \<Rightarrow> 'k \<Rightarrow> ('k, 'v) champ_node \<Rightarrow> 'v option" where
  "child_getp d data hash k x =
     (if data then if k = entry_key x then Some (entry_value x) else None
      else if d \<ge> collision_depth - 1 then coll_getp hash k x
      else sub_getp (d + 1) hash k x)"

lemma sub_getp_slots:
  assumes "shape sn"
  defines "i \<equiv> \<lambda>hash d. champ_mask hash d"
  shows "sub_getp d hash k sn =
    (case slots sn (i hash d) of
       None \<Rightarrow> None
     | Some x \<Rightarrow> child_getp d (bit (data_map sn) (i hash d)) hash k x)"
proof (cases "slots sn (i hash d)")
  case None
  then have "compressed_idx sn (champ_mask hash d) = no_index"
    using assms by (simp add: compressed_idx_None champ_mask_less)
  with None show ?thesis by (simp add: sub_getp.simps [of d] Let_def)
next
  case (Some x)
  then have "compressed_idx sn (champ_mask hash d) \<noteq> no_index"
    and "sub_nodes sn ! compressed_idx sn (champ_mask hash d) = x"
    using assms by (simp_all add: compressed_idx_None champ_mask_less slots_Some)
  with Some show ?thesis
    by (simp add: sub_getp.simps [of d] Let_def child_getp_def bm_check_bit i_def)
qed

lemma bin_get_map_of: "bin_get k bin = map_of bin k"
  by (induction k bin rule: bin_get.induct) auto

lemma coll_entries_iff:
  assumes "coll_ok h cn"
  shows "(k, v) \<in> set (champ_entries cn) \<longleftrightarrow> coll_getp (h k) k cn = Some v"
proof -
  from assms obtain bins where b: "cn = Collisions bins" "length bins = collision_bins"
    and ok: "\<And>b. b < collision_bins \<Longrightarrow> distinct (al_keys (bins ! b))"
      "\<And>b k. b < collision_bins \<Longrightarrow> k \<in> set (al_keys (bins ! b)) \<Longrightarrow> champ_mask (h k) collision_depth = b"
    by (auto simp: coll_ok_def)
  let ?i = "champ_mask (h k) collision_depth"
  have "(k, v) \<in> set (concat bins) \<longleftrightarrow> (k, v) \<in> set (bins ! ?i)"
  proof
    assume "(k, v) \<in> set (concat bins)"
    then obtain j where j: "j < collision_bins" "(k, v) \<in> set (bins ! j)"
      using b(2) by (auto simp: in_set_conv_nth [of _ bins])
    then have "k \<in> set (al_keys (bins ! j))" by (force simp: al_keys_def)
    with ok(2) j show "(k, v) \<in> set (bins ! ?i)" by auto
  next
    assume "(k, v) \<in> set (bins ! ?i)"
    then show "(k, v) \<in> set (concat bins)"
      using b(2) champ_mask_bins by auto
  qed
  also have "\<dots> \<longleftrightarrow> map_of (bins ! ?i) k = Some v"
    using ok(1) [OF champ_mask_bins] by (simp add: al_keys_def)
  finally show ?thesis by (simp add: b(1) coll_getp_def bin_get_map_of)
qed

lemma keys_entries: "k \<in> set (al_keys m) \<longleftrightarrow> (\<exists>v. (k, v) \<in> set m)"
  by (force simp: al_keys_def)

lemma child_entries_iff:
  assumes "champ_ok h d sn" and "slots sn i = Some x"
    and "\<not> bit (data_map sn) i \<Longrightarrow> \<not> d \<ge> collision_depth - 1 \<Longrightarrow>
      (k, v) \<in> set (champ_entries x) \<longleftrightarrow> sub_getp (d + 1) (h k) k x = Some v"
  shows "(k, v) \<in> set (champ_entries x) \<longleftrightarrow> child_getp d (bit (data_map sn) i) (h k) k x = Some v"
  using champ_ok_slot [OF assms(1,2)] assms(3)
  by (cases "bit (data_map sn) i"; cases "d \<ge> collision_depth - 1")
    (auto simp: child_getp_def coll_entries_iff)

lemma champ_entries_iff:
  "champ_ok h d sn \<Longrightarrow> (k, v) \<in> set (champ_entries sn) \<longleftrightarrow> sub_getp d (h k) k sn = Some v"
proof (induction h d sn arbitrary: k v rule: champ_ok.induct)
  case (1 h d sn)
  have sh: "shape sn" using 1(2) by (rule champ_ok_shape)
  have child: "(k, v) \<in> set (champ_entries x) \<longleftrightarrow> child_getp d (bit (data_map sn) i) (h k) k x = Some v"
    if x: "slots sn i = Some x" for i x
  proof (rule child_entries_iff [OF 1(2) x])
    assume c: "\<not> bit (data_map sn) i" "\<not> d \<ge> collision_depth - 1"
    show "(k, v) \<in> set (champ_entries x) \<longleftrightarrow> sub_getp (d + 1) (h k) k x = Some v"
      by (rule 1(1) [OF x c champ_ok_slot(4) [OF 1(2) x c]])
  qed
  obtain ns nm dm where sn: "sn = SubNodes ns nm dm" using sh by (auto simp: shape_def)
  have "(k, v) \<in> set (champ_entries sn) \<longleftrightarrow> (\<exists>i x. slots sn i = Some x \<and> (k, v) \<in> set (champ_entries x))"
    using set_sub_nodes [OF sh] by (auto simp: sn ran_def)
  also have "\<dots> \<longleftrightarrow> (\<exists>x. slots sn (champ_mask (h k) d) = Some x \<and> (k, v) \<in> set (champ_entries x))"
    using champ_ok_slot(1) [OF 1(2)] by (force simp: keys_entries)
  also have "\<dots> \<longleftrightarrow> sub_getp d (h k) k sn = Some v"
    unfolding sub_getp_slots [OF sh] using child by (auto split: option.split)
  finally show ?case .
qed

section \<open>Changing one slot\<close>

definition child_ok :: "('k \<Rightarrow> Hash) \<Rightarrow> nat \<Rightarrow> bool \<Rightarrow> ('k, 'v) champ_node \<Rightarrow> bool" where
  "child_ok h d data x =
     (if data then \<exists>k v. x = Entry k v
      else if d \<ge> collision_depth - 1 then coll_ok h x else champ_ok h (d + 1) x)"

lemma child_ok_slot: "champ_ok h d sn \<Longrightarrow> slots sn i = Some x \<Longrightarrow> child_ok h d (bit (data_map sn) i) x"
  using champ_ok_slot [of h d sn i x] by (simp add: child_ok_def)

lemma child_ok_entries:
  "child_ok h d data x \<Longrightarrow> (k, v) \<in> set (champ_entries x) \<longleftrightarrow> child_getp d data (h k) k x = Some v"
  by (auto simp: child_ok_def child_getp_def coll_entries_iff champ_entries_iff split: if_splits)

definition slot_getp :: "('k \<Rightarrow> Hash) \<Rightarrow> nat \<Rightarrow> ('k, 'v) champ_node \<Rightarrow> nat \<Rightarrow> 'k \<Rightarrow> 'v option" where
  "slot_getp h d sn i k =
     (case slots sn i of None \<Rightarrow> None | Some x \<Rightarrow> child_getp d (bit (data_map sn) i) (h k) k x)"

lemma sub_getp_slot: "shape sn \<Longrightarrow> sub_getp d (h k) k sn = slot_getp h d sn (champ_mask (h k) d) k"
  by (simp add: sub_getp_slots slot_getp_def)

text \<open>
  The shared step of \<open>put\<close> and \<open>remove\<close>: the slot of \<open>k\<close> is replaced by a child that
  differs from the old one at \<open>k\<close> only.
\<close>

lemma champ_ok_update:
  assumes ok: "champ_ok h d sn" and sh: "shape sn'"
    and sl: "slots sn' = (slots sn)(champ_mask (h k) d := x')"
    and bits: "\<And>j. j \<noteq> champ_mask (h k) d \<Longrightarrow> bit (data_map sn') j = bit (data_map sn) j"
    and child: "\<And>x. x' = Some x \<Longrightarrow> child_ok h d (bit (data_map sn') (champ_mask (h k) d)) x"
    and get: "\<And>k'. slot_getp h d sn' (champ_mask (h k) d) k' =
      (if k' = k then r else slot_getp h d sn (champ_mask (h k) d) k')"
  shows "champ_ok h d sn' \<and> (\<forall>k'. sub_getp d (h k') k' sn' = (if k' = k then r else sub_getp d (h k') k' sn))"
proof
  let ?i = "champ_mask (h k) d"
  have shs: "shape sn" using ok by (rule champ_ok_shape)
  have keys: "champ_mask (h k') d = ?i" if "x' = Some x" "k' \<in> set (al_keys (champ_entries x))" for x k'
  proof -
    from that(2) obtain v' where v': "(k', v') \<in> set (champ_entries x)" by (auto simp: keys_entries)
    then have "slot_getp h d sn' ?i k' = Some v'"
      using child_ok_entries [OF child [OF that(1)]] sl that(1) by (simp add: slot_getp_def)
    with get [of k'] have "k' = k \<or> slot_getp h d sn ?i k' = Some v'" by (auto split: if_splits)
    then show ?thesis
    proof
      assume "slot_getp h d sn ?i k' = Some v'"
      then obtain y where y: "slots sn ?i = Some y" and "child_getp d (bit (data_map sn) ?i) (h k') k' y = Some v'"
        by (auto simp: slot_getp_def split: option.splits)
      then have "(k', v') \<in> set (champ_entries y)" using child_ok_entries [OF child_ok_slot [OF ok y]] by simp
      then show ?thesis using champ_ok_slot(1) [OF ok y] by (auto simp: keys_entries)
    qed simp
  qed
  show "champ_ok h d sn'"
    unfolding champ_ok.simps [of h d sn'] child_ok_def [symmetric]
  proof (intro conjI allI impI sh)
    fix j x assume x: "slots sn' j = Some x"
    show "\<forall>k\<in>set (al_keys (champ_entries x)). champ_mask (h k) d = j"
      using x keys champ_ok_slot(1) [OF ok] by (cases "j = ?i") (auto simp: sl)
    show "child_ok h d (bit (data_map sn') j) x"
      using x child bits child_ok_slot [OF ok] by (cases "j = ?i") (auto simp: sl)
  qed
  show "\<forall>k'. sub_getp d (h k') k' sn' = (if k' = k then r else sub_getp d (h k') k' sn)"
  proof
    fix k'
    show "sub_getp d (h k') k' sn' = (if k' = k then r else sub_getp d (h k') k' sn)"
    proof (cases "champ_mask (h k') d = ?i")
      case True
      with get [of k'] show ?thesis by (simp add: sub_getp_slot [OF sh] sub_getp_slot [OF shs])
    next
      case False
      then have "k' \<noteq> k" by auto
      with False show ?thesis
        by (simp add: sub_getp_slot [OF sh] sub_getp_slot [OF shs] slot_getp_def sl bits [OF False] split: option.split)
    qed
  qed
qed

section \<open>Collision nodes\<close>

lemma bin_put_spec:
  "map_of (fst (bin_put k v bin)) = (map_of bin)(k \<mapsto> v)"
  "al_keys (fst (bin_put k v bin)) = (if k \<in> set (al_keys bin) then al_keys bin else al_keys bin @ [k])"
  "snd (bin_put k v bin) \<longleftrightarrow> k \<in> set (al_keys bin)"
  by (induction bin) (auto simp: case_prod_beta Let_def split: if_splits)

lemma bin_remove_spec:
  "distinct (al_keys bin) \<Longrightarrow> map_of (fst (bin_remove k bin)) = (map_of bin)(k := None)
    \<and> al_keys (fst (bin_remove k bin)) = filter (\<lambda>k'. k' \<noteq> k) (al_keys bin)
    \<and> snd (bin_remove k bin) = map_of bin k"
proof (induction bin)
  case (Cons p bin)
  obtain k' v' where p: "p = (k', v')" by (cases p)
  show ?case
  proof (cases "k = k'")
    case True
    have "k \<notin> set (al_keys bin)" using Cons.prems True by (simp add: p)
    then have "map_of bin k = None" "filter (\<lambda>k'. k' \<noteq> k) (al_keys bin) = al_keys bin"
      by (auto simp: map_of_None_iff_keys filter_id_conv)
    with True show ?thesis by (auto simp: p fun_eq_iff)
  next
    case False
    with Cons show ?thesis by (auto simp: p case_prod_beta Let_def fun_eq_iff)
  qed
qed simp

text \<open>A collision node in which one bin is replaced.\<close>

lemma coll_ok_update:
  assumes "coll_ok h cn" and "distinct (al_keys bin)"
    and "set (al_keys bin) \<subseteq> insert k (set (al_keys (coll_bins cn ! champ_mask (h k) collision_depth)))"
    and "map_of bin = (map_of (coll_bins cn ! champ_mask (h k) collision_depth))(k := r)"
  defines "cn' \<equiv> Collisions ((coll_bins cn)[champ_mask (h k) collision_depth := bin])"
  shows "coll_ok h cn'"
    and "coll_getp (h k') k' cn' = (if k' = k then r else coll_getp (h k') k' cn)"
proof -
  let ?i = "champ_mask (h k) collision_depth"
  from assms(1) obtain bins where b: "cn = Collisions bins" "length bins = collision_bins"
    and ok: "\<And>b. b < collision_bins \<Longrightarrow> distinct (al_keys (bins ! b))"
      "\<And>b k. b < collision_bins \<Longrightarrow> k \<in> set (al_keys (bins ! b)) \<Longrightarrow> champ_mask (h k) collision_depth = b"
    by (auto simp: coll_ok_def)
  note i = champ_mask_bins [of "h k"]
  show "coll_ok h cn'"
    unfolding coll_ok_def cn'_def
  proof (intro exI conjI allI impI ballI)
    show "length ((coll_bins cn)[?i := bin]) = collision_bins" using b by simp
    fix c assume c: "c < collision_bins"
    show "distinct (al_keys ((coll_bins cn)[?i := bin] ! c))"
      using c b ok(1) assms(2) by (cases "c = ?i") auto
    fix x assume "x \<in> set (al_keys ((coll_bins cn)[?i := bin] ! c))"
    then show "champ_mask (h x) collision_depth = c"
      using c b ok(2) assms(3) by (cases "c = ?i") auto
  qed simp
  show "coll_getp (h k') k' cn' = (if k' = k then r else coll_getp (h k') k' cn)"
    using b i assms(4) champ_mask_bins [of "h k'"]
    by (cases "champ_mask (h k') collision_depth = ?i")
      (auto simp: cn'_def coll_getp_def bin_get_map_of)
qed

lemma coll_put_ok:
  assumes "coll_ok h cn"
  shows "coll_ok h (fst (coll_put ks vs (h k) k v cn))"
    and "coll_getp (h k') k' (fst (coll_put ks vs (h k) k v cn))
      = (if k' = k then Some v else coll_getp (h k') k' cn)"
proof -
  let ?bin = "coll_bins cn ! champ_mask (h k) collision_depth"
  let ?new = "fst (bin_put k v ?bin)"
  have "distinct (al_keys ?bin)" using assms champ_mask_bins by (auto simp: coll_ok_def)
  then have d: "distinct (al_keys ?new)" by (simp add: bin_put_spec)
  have s: "set (al_keys ?new) \<subseteq> insert k (set (al_keys ?bin))" by (auto simp: bin_put_spec)
  have "fst (coll_put ks vs (h k) k v cn)
      = Collisions ((coll_bins cn)[champ_mask (h k) collision_depth := ?new])"
    by (simp add: coll_put_def Let_def case_prod_beta)
  with coll_ok_update [OF assms d s bin_put_spec(1)]
  show "coll_ok h (fst (coll_put ks vs (h k) k v cn))"
    and "coll_getp (h k') k' (fst (coll_put ks vs (h k) k v cn))
      = (if k' = k then Some v else coll_getp (h k') k' cn)"
    by simp_all
qed

lemma coll_remove_ok:
  assumes "coll_ok h cn"
  shows "coll_ok h (fst (coll_remove ks vs (h k) k cn))"
    and "coll_getp (h k') k' (fst (coll_remove ks vs (h k) k cn))
      = (if k' = k then None else coll_getp (h k') k' cn)"
proof -
  let ?bin = "coll_bins cn ! champ_mask (h k) collision_depth"
  let ?new = "fst (bin_remove k ?bin)"
  have d: "distinct (al_keys ?bin)" using assms champ_mask_bins by (auto simp: coll_ok_def)
  note r = bin_remove_spec [OF d, of k]
  have d': "distinct (al_keys ?new)" using d r by simp
  have s: "set (al_keys ?new) \<subseteq> insert k (set (al_keys ?bin))" using r by auto
  have "fst (coll_remove ks vs (h k) k cn)
      = Collisions ((coll_bins cn)[champ_mask (h k) collision_depth := ?new])"
    by (simp add: coll_remove_def Let_def case_prod_beta)
  with coll_ok_update [OF assms d' s r [THEN conjunct1]]
  show "coll_ok h (fst (coll_remove ks vs (h k) k cn))"
    and "coll_getp (h k') k' (fst (coll_remove ks vs (h k) k cn))
      = (if k' = k then None else coll_getp (h k') k' cn)"
    by simp_all
qed

section \<open>Putting and removing\<close>

text \<open>\<open>sn'\<close> is a trie that answers like \<open>sn\<close>, except that \<open>k\<close> now gives \<open>r\<close>.\<close>

definition sub_upd ::
  "('k \<Rightarrow> Hash) \<Rightarrow> nat \<Rightarrow> ('k, 'v) champ_node \<Rightarrow> 'k \<Rightarrow> 'v option \<Rightarrow> ('k, 'v) champ_node \<Rightarrow> bool"
where
  "sub_upd h d sn k r sn' \<longleftrightarrow>
     champ_ok h d sn' \<and> (\<forall>k'. sub_getp d (h k') k' sn' = (if k' = k then r else sub_getp d (h k') k' sn))"

definition child_upd ::
  "('k \<Rightarrow> Hash) \<Rightarrow> nat \<Rightarrow> ('k, 'v) champ_node \<Rightarrow> 'k \<Rightarrow> 'v option \<Rightarrow> ('k, 'v) champ_node \<Rightarrow> bool"
where
  "child_upd h d x k r x' \<longleftrightarrow> child_ok h d False x'
     \<and> (\<forall>k'. child_getp d False (h k') k' x' = (if k' = k then r else child_getp d False (h k') k' x))"

lemma child_upd_sub: "\<not> d \<ge> collision_depth - 1 \<Longrightarrow> child_upd h d x k r x' \<longleftrightarrow> sub_upd h (d + 1) x k r x'"
  by (simp add: child_upd_def sub_upd_def child_ok_def child_getp_def)

lemma child_upd_coll:
  "d \<ge> collision_depth - 1 \<Longrightarrow> coll_ok h x \<Longrightarrow> child_upd h d x k (Some v) (fst (coll_put ks vs (h k) k v x))"
  "d \<ge> collision_depth - 1 \<Longrightarrow> coll_ok h x \<Longrightarrow> child_upd h d x k None (fst (coll_remove ks vs (h k) k x))"
  by (simp_all add: child_upd_def child_ok_def child_getp_def coll_put_ok coll_remove_ok)

lemma update_child:
  assumes "champ_ok h d (SubNodes ns nm dm)" and "slots (SubNodes ns nm dm) (champ_mask (h k) d) = Some x"
    and "\<not> bit dm (champ_mask (h k) d)" and "child_upd h d x k r x'"
  shows "sub_upd h d (SubNodes ns nm dm) k r
    (SubNodes (ns[compressed_idx (SubNodes ns nm dm) (champ_mask (h k) d) := x']) nm dm)"
  unfolding sub_upd_def
proof (rule champ_ok_update [OF assms(1)])
  note u = slots_update [OF champ_ok_shape [OF assms(1)] assms(2), of x']
  show "shape (SubNodes (ns[compressed_idx (SubNodes ns nm dm) (champ_mask (h k) d) := x']) nm dm)"
    by (rule u(1))
  show sl: "slots (SubNodes (ns[compressed_idx (SubNodes ns nm dm) (champ_mask (h k) d) := x']) nm dm)
    = (slots (SubNodes ns nm dm))(champ_mask (h k) d := Some x')" by (rule u(2))
  show "slot_getp h d (SubNodes (ns[compressed_idx (SubNodes ns nm dm) (champ_mask (h k) d) := x']) nm dm)
      (champ_mask (h k) d) k' = (if k' = k then r else slot_getp h d (SubNodes ns nm dm) (champ_mask (h k) d) k')" for k'
    using assms(2-4) by (simp add: slot_getp_def sl child_upd_def)
qed (insert assms(3,4), simp_all add: child_upd_def)

lemma replace_entry:
  assumes "champ_ok h d (SubNodes ns nm dm)" and "slots (SubNodes ns nm dm) (champ_mask (h k) d) = Some (Entry k v)"
    and "bit dm (champ_mask (h k) d)"
  shows "sub_upd h d (SubNodes ns nm dm) k (Some v')
    (SubNodes (ns[compressed_idx (SubNodes ns nm dm) (champ_mask (h k) d) := Entry k v']) nm dm)"
  unfolding sub_upd_def
proof (rule champ_ok_update [OF assms(1)])
  note u = slots_update [OF champ_ok_shape [OF assms(1)] assms(2), of "Entry k v'"]
  show "shape (SubNodes (ns[compressed_idx (SubNodes ns nm dm) (champ_mask (h k) d) := Entry k v']) nm dm)"
    by (rule u(1))
  show sl: "slots (SubNodes (ns[compressed_idx (SubNodes ns nm dm) (champ_mask (h k) d) := Entry k v']) nm dm)
    = (slots (SubNodes ns nm dm))(champ_mask (h k) d := Some (Entry k v'))" by (rule u(2))
  show "slot_getp h d (SubNodes (ns[compressed_idx (SubNodes ns nm dm) (champ_mask (h k) d) := Entry k v']) nm dm)
      (champ_mask (h k) d) k' = (if k' = k then Some v' else slot_getp h d (SubNodes ns nm dm) (champ_mask (h k) d) k')" for k'
    using assms(2,3) by (simp add: slot_getp_def sl child_getp_def)
qed (insert assms(3), simp_all add: child_ok_def)

lemma insert_entry:
  assumes "champ_ok h d (SubNodes ns nm dm)" and "slots (SubNodes ns nm dm) (champ_mask (h k) d) = None"
  shows "sub_upd h d (SubNodes ns nm dm) k (Some v)
    (SubNodes (insert_at (compressed_idx (SubNodes ns nm (bm_set dm (champ_mask (h k) d))) (champ_mask (h k) d)) (Entry k v) ns)
      nm (bm_set dm (champ_mask (h k) d)))"
  unfolding sub_upd_def
proof (rule champ_ok_update [OF assms(1)])
  note u = slots_insert_data [OF champ_ok_shape [OF assms(1)] assms(2) champ_mask_less, of "Entry k v"]
  let ?sn' = "SubNodes (insert_at (compressed_idx (SubNodes ns nm (bm_set dm (champ_mask (h k) d))) (champ_mask (h k) d)) (Entry k v) ns)
      nm (bm_set dm (champ_mask (h k) d))"
  show "shape ?sn'" by (rule u(1))
  show sl: "slots ?sn' = (slots (SubNodes ns nm dm))(champ_mask (h k) d := Some (Entry k v))" by (rule u(2))
  show "slot_getp h d ?sn' (champ_mask (h k) d) k'
      = (if k' = k then Some v else slot_getp h d (SubNodes ns nm dm) (champ_mask (h k) d) k')" for k'
    using assms(2) by (simp add: slot_getp_def sl child_getp_def bit_bm_set champ_mask_less)
qed (simp_all add: child_ok_def bit_bm_set champ_mask_less)

lemma erase_entry:
  assumes "champ_ok h d (SubNodes ns nm dm)" and "slots (SubNodes ns nm dm) (champ_mask (h k) d) = Some (Entry k v)"
    and "bit dm (champ_mask (h k) d)"
  shows "sub_upd h d (SubNodes ns nm dm) k None
    (SubNodes (erase_at (compressed_idx (SubNodes ns nm dm) (champ_mask (h k) d)) ns) nm (bm_clear dm (champ_mask (h k) d)))"
  unfolding sub_upd_def
proof (rule champ_ok_update [OF assms(1)])
  note u = slots_erase_data [of ns nm dm, OF champ_ok_shape [OF assms(1)] assms(3)]
  let ?sn' = "SubNodes (erase_at (compressed_idx (SubNodes ns nm dm) (champ_mask (h k) d)) ns) nm (bm_clear dm (champ_mask (h k) d))"
  show "shape ?sn'" by (rule u(1))
  show sl: "slots ?sn' = (slots (SubNodes ns nm dm))(champ_mask (h k) d := None)" by (rule u(2))
  show "slot_getp h d ?sn' (champ_mask (h k) d) k'
      = (if k' = k then None else slot_getp h d (SubNodes ns nm dm) (champ_mask (h k) d) k')" for k'
    using assms(2,3) by (simp add: slot_getp_def sl child_getp_def)
qed (simp_all add: bit_bm_clear)

lemma slots_push:
  assumes "shape (SubNodes ns nm dm)" and "bit dm i"
  defines "ns' \<equiv> erase_at (compressed_idx (SubNodes ns nm dm) i) ns"
  defines "sn' \<equiv> \<lambda>x. SubNodes (insert_at (compressed_idx (SubNodes ns' (bm_set nm i) (bm_clear dm i)) i) x ns') (bm_set nm i) (bm_clear dm i)"
  shows "shape (sn' x)" and "slots (sn' x) = (slots (SubNodes ns nm dm))(i \<mapsto> x)"
proof -
  note e = slots_erase_data [of ns nm dm, OF assms(1,2), folded ns'_def]
  have "slots (SubNodes ns' nm (bm_clear dm i)) i = None" unfolding e(2) by simp
  moreover have "i < 32" using bit_imp_le_length [OF assms(2)] by simp
  ultimately have u: "shape (sn' x)" "slots (sn' x) = (slots (SubNodes ns' nm (bm_clear dm i)))(i \<mapsto> x)"
    unfolding sn'_def using e(1) by (blast intro: slots_insert_node)+
  show "shape (sn' x)" by (rule u(1))
  show "slots (sn' x) = (slots (SubNodes ns nm dm))(i \<mapsto> x)"
    using u(2) by (simp only: e(2) fun_upd_upd)
qed

lemma push_down:
  assumes "champ_ok h d (SubNodes ns nm dm)" and "slots (SubNodes ns nm dm) (champ_mask (h k) d) = Some (Entry k0 v0)"
    and "bit dm (champ_mask (h k) d)" and "child_ok h d False x'"
    and "\<And>k'. child_getp d False (h k') k' x' = (if k' = k then Some v else if k' = k0 then Some v0 else None)"
  defines "i \<equiv> champ_mask (h k) d"
  defines "ns' \<equiv> erase_at (compressed_idx (SubNodes ns nm dm) i) ns"
  shows "sub_upd h d (SubNodes ns nm dm) k (Some v)
    (SubNodes (insert_at (compressed_idx (SubNodes ns' (bm_set nm i) (bm_clear dm i)) i) x' ns') (bm_set nm i) (bm_clear dm i))"
  unfolding sub_upd_def
proof (rule champ_ok_update [OF assms(1)])
  let ?sn' = "SubNodes (insert_at (compressed_idx (SubNodes ns' (bm_set nm i) (bm_clear dm i)) i) x' ns') (bm_set nm i) (bm_clear dm i)"
  note u = slots_push [OF champ_ok_shape [OF assms(1)] assms(3), of x']
  show "shape ?sn'" unfolding ns'_def i_def by (rule u(1))
  show sl: "slots ?sn' = (slots (SubNodes ns nm dm))(champ_mask (h k) d := Some x')"
    unfolding ns'_def i_def by (rule u(2))
  show "slot_getp h d ?sn' (champ_mask (h k) d) k'
      = (if k' = k then Some v else slot_getp h d (SubNodes ns nm dm) (champ_mask (h k) d) k')" for k'
  proof -
    have "slot_getp h d ?sn' (champ_mask (h k) d) k' = child_getp d False (h k') k' x'"
      unfolding slot_getp_def sl by (simp add: i_def bit_bm_clear)
    moreover have "slot_getp h d (SubNodes ns nm dm) (champ_mask (h k) d) k' = (if k' = k0 then Some v0 else None)"
      unfolding slot_getp_def using assms(2,3) by (simp add: child_getp_def)
    ultimately show ?thesis using assms(5) [of k'] by simp
  qed
qed (insert assms(4), simp_all add: i_def bit_bm_clear)

lemma shape_empty: "shape (SubNodes [] 0 0)" and slots_empty: "slots (SubNodes [] 0 0) = Map.empty"
  by (simp_all add: shape_def sub_idxs_def idxs_def slots_def)

lemma champ_ok_empty: "champ_ok h d (SubNodes [] 0 0)"
  by (simp add: champ_ok.simps shape_empty slots_empty)

lemma sub_getp_empty: "sub_getp d hash k (SubNodes [] 0 0) = None"
  by (simp add: sub_getp_slots [OF shape_empty] slots_empty)

lemma singleton_node:
  shows "champ_ok h d (SubNodes [Entry k v] 0 (bm_set 0 (champ_mask (h k) d)))"
    and "sub_getp d (h k') k' (SubNodes [Entry k v] 0 (bm_set 0 (champ_mask (h k) d)))
      = (if k' = k then Some v else None)"
  using insert_entry [OF champ_ok_empty, of h k d v]
  by (simp_all add: sub_upd_def slots_empty insert_at_def sub_getp_empty)

lemma new_collisions:
  fixes h :: "'k \<Rightarrow> Hash" and v0 v :: 'v
  assumes "k0 \<noteq> k" and "d \<ge> collision_depth - 1"
  defines "bins \<equiv> (replicate collision_bins [])[champ_mask (h k0) collision_depth := [(k0, v0)]]"
  defines "cn \<equiv> Collisions (bins[champ_mask (h k) collision_depth
    := bins ! champ_mask (h k) collision_depth @ [(k, v)]])"
  shows "child_ok h d False cn"
    and "child_getp d False (h k') k' cn = (if k' = k then Some v else if k' = k0 then Some v0 else None)"
proof -
  let ?i = "champ_mask (h k) collision_depth" and ?a = "champ_mask (h k0) collision_depth"
  have i: "champ_mask (h x) collision_depth < 4" for x
    using champ_mask_bins [of "h x"] by (simp add: collision_bins_def)
  have bin: "bins ! j = (if j = ?a then [(k0, v0)] else [])" if "j < 4" for j
    using that i [of k0] by (simp add: bins_def nth_list_update collision_bins_def)
  have b: "coll_bins cn ! j = (if j = ?i then bins ! j @ [(k, v)] else bins ! j)" if "j < 4" for j
  proof -
    have "length bins = 4" by (simp add: bins_def collision_bins_def)
    with that i [of k] show ?thesis by (simp add: cn_def nth_list_update)
  qed
  have "length (coll_bins cn) = 4" by (simp add: cn_def bins_def collision_bins_def)
  then have "coll_ok h cn"
    using assms(1) bin b unfolding coll_ok_def
    by (intro exI [of _ "coll_bins cn"]) (auto simp: collision_bins_def cn_def)
  with assms(2) show "child_ok h d False cn" by (simp add: child_ok_def)
  show "child_getp d False (h k') k' cn = (if k' = k then Some v else if k' = k0 then Some v0 else None)"
    using assms(1,2) bin b i [of k'] by (auto simp: child_getp_def coll_getp_def)
qed

text \<open>The sizes the operations report are positive, so that they tell a replacement from an insertion.\<close>

definition sized :: "('t \<Rightarrow> nat) \<Rightarrow> bool" where
  "sized get_size \<longleftrightarrow> (\<forall>t. 0 < get_size t \<and> 0 < get_size_with_padding get_size t)"

lemma sub_put_ok: "champ_ok h d sn \<Longrightarrow> sub_upd h d sn k (Some v) (fst (sub_put h ks vs d k v sn))"
proof (induction h ks vs d k v sn rule: sub_put.induct)
  case (1 h ks vs d k v sn)
  let ?i = "champ_mask (h k) d"
  have sh: "shape sn" using 1(3) by (rule champ_ok_shape)
  then obtain ns nm dm where sn: "sn = SubNodes ns nm dm" by (auto simp: shape_def)
  show ?case
  proof (cases "slots sn ?i")
    case None
    then have "compressed_idx sn ?i = no_index" by (simp add: compressed_idx_None sh champ_mask_less)
    then show ?thesis
      using insert_entry [OF 1(3)[unfolded sn]] None by (simp add: sub_put.simps [of h] Let_def sn)
  next
    case (Some x)
    then have c: "compressed_idx sn ?i \<noteq> no_index" by (simp add: compressed_idx_None sh champ_mask_less)
    have x: "ns ! compressed_idx sn ?i = x" using slots_Some(1) [OF sh Some] by (simp add: sn)
    note defs = sub_put.simps [of h ks vs d] Let_def case_prod_beta bm_check_bit
    show ?thesis
    proof (cases "bit nm ?i")
      case True
      then have nd: "\<not> bit dm ?i" using sh by (auto simp: shape_def sn)
      have "child_upd h d x k (Some v) (fst (if d < collision_depth - 1 then sub_put h ks vs (d + 1) k v x
          else coll_put ks vs (h k) k v x))"
        using champ_ok_slot(3,4) [OF 1(3) Some] nd 1(1) [OF refl refl refl refl refl c]  True x
        by (auto simp: child_upd_coll child_upd_sub sn bm_check_bit not_less)
      from update_child [OF 1(3)[unfolded sn] Some[unfolded sn] nd this] show ?thesis
        using c x True by (cases "d < collision_depth - 1") (simp_all add: defs sn)
    next
      case False
      with Some have nd: "bit dm ?i" using slots_None [OF sh, of ?i] by (auto simp: sn)
      then obtain k0 v0 where e: "x = Entry k0 v0" using champ_ok_slot(2) [OF 1(3) Some] by (auto simp: sn)
      show ?thesis
      proof (cases "k = k0")
        case True
        from replace_entry [OF 1(3)[unfolded sn], of k v0 v] Some nd show ?thesis
          using c x False by (simp add: defs sn e True)
      next
        case neq: False
        let ?x' = "if d < collision_depth - 1
          then fst (sub_put h ks vs (d + 1) k v (SubNodes [Entry k0 v0] 0 (bm_set 0 (champ_mask (h k0) (d + 1)))))
          else let bins = (replicate collision_bins [])[champ_mask (h k0) collision_depth := [(k0, v0)]]
            in Collisions (bins[champ_mask (h k) collision_depth := bins ! champ_mask (h k) collision_depth @ [(k, v)]])"
        have new: "child_ok h d False ?x' \<and> (\<forall>k'. child_getp d False (h k') k' ?x'
            = (if k' = k then Some v else if k' = k0 then Some v0 else None))"
        proof (cases "d < collision_depth - 1")
          case True
          have "sub_upd h (d + 1) (SubNodes [Entry k0 v0] 0 (bm_set 0 (champ_mask (h k0) (d + 1)))) k (Some v) ?x'"
            using 1(2) [OF refl refl refl refl refl c _ refl] True False neq x singleton_node(1) [of h "d + 1" k0 v0]
            by (simp add: sn e bm_check_bit)
          with True neq show ?thesis
            by (simp add: sub_upd_def child_ok_def child_getp_def singleton_node)
        qed (insert neq, simp add: new_collisions Let_def)
        have "sub_upd h d sn k (Some v)
          (let ns' = erase_at (compressed_idx sn ?i) ns
           in SubNodes (insert_at (compressed_idx (SubNodes ns' (bm_set nm ?i) (bm_clear dm ?i)) ?i) ?x' ns')
             (bm_set nm ?i) (bm_clear dm ?i))"
          using push_down [OF 1(3)[unfolded sn] Some[unfolded sn e] nd new [THEN conjunct1] new [THEN conjunct2, rule_format]]
          by (simp only: Let_def sn)
        then show ?thesis using c x False neq champ_mask_bins [of "h k0"]
          by (cases "d < collision_depth - 1") (simp_all add: defs sn e)
      qed
    qed
  qed
qed

lemma sub_upd_absent:
  "champ_ok h d sn \<Longrightarrow> sub_getp d (h k) k sn = r \<Longrightarrow> sub_upd h d sn k r sn"
  by (simp add: sub_upd_def)

lemma sub_remove_ok: "champ_ok h d sn \<Longrightarrow> sub_upd h d sn k None (fst (sub_remove h ks vs d k sn))"
proof (induction h ks vs d k sn rule: sub_remove.induct)
  case (1 h ks vs d k sn)
  let ?i = "champ_mask (h k) d"
  note defs = sub_remove.simps [of h ks vs d] Let_def case_prod_beta bm_check_bit
  have sh: "shape sn" using 1(2) by (rule champ_ok_shape)
  then obtain ns nm dm where sn: "sn = SubNodes ns nm dm" by (auto simp: shape_def)
  show ?case
  proof (cases "slots sn ?i")
    case None
    then have "compressed_idx sn ?i = no_index" by (simp add: compressed_idx_None sh champ_mask_less)
    moreover have "sub_getp d (h k) k sn = None" using None by (simp add: sub_getp_slot [OF sh] slot_getp_def)
    ultimately show ?thesis using 1(2) by (simp add: defs sub_upd_absent)
  next
    case (Some x)
    then have c: "compressed_idx sn ?i \<noteq> no_index" by (simp add: compressed_idx_None sh champ_mask_less)
    have x: "ns ! compressed_idx sn ?i = x" using slots_Some(1) [OF sh Some] by (simp add: sn)
    show ?thesis
    proof (cases "bit dm ?i")
      case True
      then obtain k0 v0 where e: "x = Entry k0 v0" using champ_ok_slot(2) [OF 1(2) Some] by (auto simp: sn)
      show ?thesis
      proof (cases "k = k0")
        case k: True
        from erase_entry [OF 1(2)[unfolded sn], of k v0] Some True show ?thesis
          using c x by (simp add: defs sn e k)
      next
        case False
        then have "sub_getp d (h k) k sn = None"
          unfolding sub_getp_slot [OF sh] using Some True by (simp add: slot_getp_def child_getp_def e sn)
        then show ?thesis using 1(2) c x True False by (simp add: defs sn e sub_upd_absent)
      qed
    next
      case False
      have "child_upd h d x k None (fst (if d \<ge> collision_depth - 1 then coll_remove ks vs (h k) k x
          else sub_remove h ks vs (d + 1) k x))"
        using champ_ok_slot(3,4) [OF 1(2) Some] False 1(1) [OF refl refl refl refl refl c] x
        by (auto simp: child_upd_coll child_upd_sub sn bm_check_bit not_less)
      from update_child [OF 1(2)[unfolded sn] Some[unfolded sn] False this] show ?thesis
        using c x False by (cases "d \<ge> collision_depth - 1") (simp_all add: defs sn)
    qed
  qed
qed

section \<open>Entries\<close>

lemma distinct_keys_concat:
  assumes "\<And>p. p < length xss \<Longrightarrow> distinct (al_keys (xss ! p))"
    and "\<And>p k. p < length xss \<Longrightarrow> k \<in> set (al_keys (xss ! p)) \<Longrightarrow> f k = ys ! p"
    and "distinct ys" and "length ys = length xss"
  shows "distinct (al_keys (concat xss))"
  using assms
proof (induction xss arbitrary: ys)
  case (Cons xs xss)
  then obtain y ys' where ys: "ys = y # ys'" by (cases ys) auto
  have "distinct (al_keys (concat xss))"
    using Cons.prems(1,2) [of "Suc _"] Cons.prems(3,4) by (intro Cons.IH [of ys']) (auto simp: ys)
  moreover have "f k \<in> set ys'" if "k \<in> set (al_keys (concat xss))" for k
  proof -
    from that obtain zs where "zs \<in> set xss" "k \<in> set (al_keys zs)" by (auto simp: keys_entries)
    then obtain p where "p < length xss" "k \<in> set (al_keys (xss ! p))" by (auto simp: in_set_conv_nth)
    with Cons.prems(2) [of "Suc p" k] Cons.prems(4) show ?thesis by (simp add: ys)
  qed
  moreover have "f k = y" if "k \<in> set (al_keys xs)" for k using Cons.prems(2) [of 0 k] that by (simp add: ys)
  ultimately show ?case using Cons.prems(1) [of 0] Cons.prems(3) by (auto simp: ys)
qed simp

lemma coll_entries_distinct: "coll_ok h cn \<Longrightarrow> distinct (al_keys (champ_entries cn))"
  by (auto simp: coll_ok_def intro!: distinct_keys_concat [where f = "\<lambda>k. champ_mask (h k) collision_depth" and ys = "[0 ..< collision_bins]"])

lemma slots_nth:
  assumes "shape sn" and "p < length (sub_nodes sn)"
  shows "slots sn (sub_idxs sn ! p) = Some (sub_nodes sn ! p)"
proof -
  have "(sub_idxs sn ! p, sub_nodes sn ! p) \<in> set (zip (sub_idxs sn) (sub_nodes sn))"
    using assms by (auto simp: set_zip shape_def)
  then show ?thesis
    using distinct_sub_idxs [OF assms(1)] assms(1) by (simp add: slots_def shape_def)
qed

lemma champ_entries_distinct: "champ_ok h d sn \<Longrightarrow> distinct (al_keys (champ_entries sn))"
proof (induction h d sn rule: champ_ok.induct)
  case (1 h d sn)
  have sh: "shape sn" using 1(2) by (rule champ_ok_shape)
  then obtain ns nm dm where sn: "sn = SubNodes ns nm dm" by (auto simp: shape_def)
  have child: "distinct (al_keys (champ_entries x))" if x: "slots sn i = Some x" for i x
    using champ_ok_slot(2-4) [OF 1(2) x] 1(1) [OF x]
    by (cases "bit (data_map sn) i"; cases "d \<ge> collision_depth - 1") (auto simp: coll_entries_distinct)
  have nth: "slots sn (sub_idxs sn ! p) = Some (ns ! p)" if "p < length ns" for p
    using slots_nth [OF sh, of p] that by (simp add: sn)
  have "distinct (al_keys (concat (map champ_entries ns)))"
  proof (rule distinct_keys_concat)
    fix p assume p: "p < length (map champ_entries ns)"
    then show "distinct (al_keys (map champ_entries ns ! p))" using child [OF nth] by simp
    fix k assume "k \<in> set (al_keys (map champ_entries ns ! p))"
    then show "champ_mask (h k) d = sub_idxs sn ! p"
      using champ_ok_slot(1) [OF 1(2) nth] p by simp
  next
    show "distinct (sub_idxs sn)" by (rule distinct_sub_idxs [OF sh])
    show "length (sub_idxs sn) = length (map champ_entries ns)" using sh by (simp add: shape_def sn)
  qed
  then show ?case by (simp add: sn)
qed

lemma champ_entries_map_of: "champ_ok h d sn \<Longrightarrow> map_of (champ_entries sn) k = sub_getp d (h k) k sn"
  using champ_entries_iff [of h d sn k] champ_entries_distinct [of h d sn]
  by (cases "sub_getp d (h k) k sn") (auto simp: map_of_None_iff_keys keys_entries al_keys_def)

section \<open>Reported sizes\<close>

lemma coll_reports:
  assumes "coll_ok h cn" and "sized ks"
  shows "snd (coll_put ks vs (h k) k v cn) = 0 \<longleftrightarrow> coll_getp (h k) k cn = None"
    and "snd (coll_remove ks vs (h k) k cn) = 0 \<longleftrightarrow> coll_getp (h k) k cn = None"
proof -
  let ?bin = "coll_bins cn ! champ_mask (h k) collision_depth"
  have "distinct (al_keys ?bin)" using assms(1) champ_mask_bins by (auto simp: coll_ok_def)
  moreover have "ks k \<noteq> 0" using assms(2) by (metis sized_def less_numeral_extra(3))
  ultimately show "snd (coll_put ks vs (h k) k v cn) = 0 \<longleftrightarrow> coll_getp (h k) k cn = None"
    and "snd (coll_remove ks vs (h k) k cn) = 0 \<longleftrightarrow> coll_getp (h k) k cn = None"
    by (auto simp: coll_put_def coll_remove_def Let_def case_prod_beta coll_getp_def bin_get_map_of
        bin_put_spec bin_remove_spec map_of_None_iff_keys split: option.split dest: map_of_Some_keys)
qed

text \<open>One step of \<open>put\<close> and \<open>remove\<close> by the slot of the key.\<close>

lemma sub_put_snd:
  assumes "champ_ok h d sn"
  shows "snd (sub_put h ks vs d k v sn) =
    (case slots sn (champ_mask (h k) d) of
       None \<Rightarrow> 0
     | Some x \<Rightarrow>
         if bit (data_map sn) (champ_mask (h k) d)
         then if k = entry_key x then get_size_with_padding ks k + get_size_with_padding vs (entry_value x) else 0
         else if d < collision_depth - 1 then snd (sub_put h ks vs (d + 1) k v x)
         else snd (coll_put ks vs (h k) k v x))"
proof -
  let ?i = "champ_mask (h k) d"
  note sh = champ_ok_shape [OF assms]
  note c = compressed_idx_None [OF sh champ_mask_less, of "h k" d]
  have bits: "bit (node_map sn) ?i \<longleftrightarrow> \<not> bit (data_map sn) ?i" if "slots sn ?i = Some x" for x
    using that slots_None [OF sh, of ?i] sh by (auto simp: shape_def)
  show ?thesis
    using c bits slots_Some(1) [OF sh, of ?i]
    by (cases "slots sn ?i") (auto simp: sub_put.simps [of h ks vs d] Let_def case_prod_beta bm_check_bit)
qed

lemma sub_remove_snd:
  assumes "champ_ok h d sn"
  shows "snd (sub_remove h ks vs d k sn) =
    (case slots sn (champ_mask (h k) d) of
       None \<Rightarrow> 0
     | Some x \<Rightarrow>
         if bit (data_map sn) (champ_mask (h k) d)
         then if k = entry_key x then get_size_with_padding ks k + get_size_with_padding vs (entry_value x) else 0
         else if d \<ge> collision_depth - 1 then snd (coll_remove ks vs (h k) k x)
         else snd (sub_remove h ks vs (d + 1) k x))"
proof -
  let ?i = "champ_mask (h k) d"
  note sh = champ_ok_shape [OF assms]
  note c = compressed_idx_None [OF sh champ_mask_less, of "h k" d]
  show ?thesis
    using c slots_Some(1) [OF sh, of ?i]
    by (cases "slots sn ?i") (auto simp: sub_remove.simps [of h ks vs d] Let_def case_prod_beta bm_check_bit)
qed

lemma sub_reports:
  assumes "champ_ok h d sn" and "sized ks" and "sized vs"
  shows "(snd (sub_put h ks vs d k v sn) = 0 \<longleftrightarrow> sub_getp d (h k) k sn = None)
    \<and> (snd (sub_remove h ks vs d k sn) = 0 \<longleftrightarrow> sub_getp d (h k) k sn = None)"
  using assms(1)
proof (induction h d sn rule: champ_ok.induct)
  case (1 h d sn)
  let ?i = "champ_mask (h k) d"
  note sh = champ_ok_shape [OF 1(2)]
  have pos: "get_size_with_padding ks k \<noteq> 0" using assms(2) by (metis sized_def less_numeral_extra(3))
  show ?case
    unfolding sub_put_snd [OF 1(2)] sub_remove_snd [OF 1(2)] sub_getp_slot [OF sh] slot_getp_def child_getp_def
    using champ_ok_slot(3,4) [OF 1(2), of ?i] 1(1) [of ?i] pos
    by (auto simp: coll_reports [OF _ assms(2)] not_less split: option.split)
qed

section \<open>The map as a map\<close>

definition champ_inv :: "('k \<Rightarrow> Hash) \<Rightarrow> ('k, 'v) champ_map \<Rightarrow> bool" where
  "champ_inv h m \<longleftrightarrow> champ_ok h 0 (root m)"

definition map_entries :: "('k, 'v) champ_map \<Rightarrow> ('k \<times> 'v) list" where
  "map_entries m = champ_entries (root m)"

interpretation champ: removable_map "champ_inv h" champ_empty "champ_get h" "champ_put h ks vs" map_entries
  "champ_remove h ks vs" for h :: "'k \<Rightarrow> Hash" and ks :: "'k \<Rightarrow> nat" and vs :: "'v \<Rightarrow> nat"
proof
  fix m :: "('k, 'v) champ_map" and k k' :: 'k and v :: 'v
  show "champ_inv h champ_empty" by (simp add: champ_inv_def champ_empty_def champ_ok_empty)
  show "champ_get h champ_empty k = None" by (simp add: champ_get_def champ_empty_def sub_getp_empty)
  assume m: "champ_inv h m"
  then show "distinct (al_keys (map_entries m))" by (simp add: champ_inv_def map_entries_def champ_entries_distinct)
  show "map_of (map_entries m) k = champ_get h m k"
    using m by (simp add: champ_inv_def map_entries_def champ_get_def champ_entries_map_of)
  have p: "root (champ_put h ks vs k v m) = fst (sub_put h ks vs 0 k v (root m))"
    and r: "root (champ_remove h ks vs k m) = fst (sub_remove h ks vs 0 k (root m))"
    by (simp_all add: champ_put_def champ_remove_def Let_def case_prod_beta)
  have "sub_upd h 0 (root m) k (Some v) (root (champ_put h ks vs k v m))"
    using m unfolding p champ_inv_def by (rule sub_put_ok)
  then show "champ_inv h (champ_put h ks vs k v m)"
    and "champ_get h (champ_put h ks vs k v m) k' = (if k' = k then Some v else champ_get h m k')"
    by (simp_all add: champ_inv_def champ_get_def sub_upd_def)
  have "sub_upd h 0 (root m) k None (root (champ_remove h ks vs k m))"
    using m unfolding r champ_inv_def by (rule sub_remove_ok)
  then show "champ_inv h (champ_remove h ks vs k m)"
    and "champ_get h (champ_remove h ks vs k m) k' = (if k' = k then None else champ_get h m k')"
    by (simp_all add: champ_inv_def champ_get_def sub_upd_def)
qed

lemma champ_finite: "champ_inv h m \<Longrightarrow> finite (dom (champ_get h m))"
  by (simp add: champ.dom_get)

lemma champ_map_size:
  assumes "champ_inv h m" and "sized ks" and "sized vs" and "map_size m = card (dom (champ_get h m))"
  shows "map_size (champ_put h ks vs k v m) = card (dom (champ_get h (champ_put h ks vs k v m)))"
    and "map_size (champ_remove h ks vs k m) = card (dom (champ_get h (champ_remove h ks vs k m)))"
proof -
  note reports = sub_reports [OF assms(1)[unfolded champ_inv_def] assms(2,3), of k _, folded champ_get_def]
  note fin = champ_finite [OF assms(1)]
  have "champ_get h (champ_put h ks vs k v m) = (champ_get h m)(k \<mapsto> v)"
    by (rule ext) (simp add: champ.get_put [OF assms(1)])
  moreover have "map_size (champ_put h ks vs k v m)
      = (if champ_get h m k = None then map_size m + 1 else map_size m)"
    using reports [of v] by (simp add: champ_put_def Let_def case_prod_beta)
  ultimately show "map_size (champ_put h ks vs k v m) = card (dom (champ_get h (champ_put h ks vs k v m)))"
    using assms(4) fin by (auto simp: card_insert_if)
  have "champ_get h (champ_remove h ks vs k m) = (champ_get h m)(k := None)"
    by (rule ext) (simp add: champ.get_remove [OF assms(1)])
  moreover have "map_size (champ_remove h ks vs k m)
      = (if champ_get h m k = None then map_size m else map_size m - 1)"
    using reports by (auto simp: champ_remove_def Let_def case_prod_beta)
  ultimately show "map_size (champ_remove h ks vs k m) = card (dom (champ_get h (champ_remove h ks vs k m)))"
    using assms(4) fin by (auto simp: card_Diff_singleton_if)
qed

section \<open>Tries without collision nodes\<close>

definition agree :: "('k \<Rightarrow> Hash) \<Rightarrow> nat \<Rightarrow> 'k \<Rightarrow> 'k \<Rightarrow> bool" where
  "agree h d k k' \<longleftrightarrow> (\<forall>j<d. champ_mask (h k) j = champ_mask (h k') j)"

text \<open>No two keys of \<open>K\<close> have hashes that agree in their low 30 bits.\<close>

definition separated :: "('k \<Rightarrow> Hash) \<Rightarrow> 'k set \<Rightarrow> bool" where
  "separated h K \<longleftrightarrow> (\<forall>k\<in>K. \<forall>k'\<in>K. agree h collision_depth k k' \<longrightarrow> k = k')"

fun flat :: "('k, 'v) champ_node \<Rightarrow> bool" where
  "flat (Entry k v) \<longleftrightarrow> True"
| "flat (Collisions bins) \<longleftrightarrow> False"
| "flat (SubNodes ns nm dm) \<longleftrightarrow> (\<forall>n\<in>set ns. flat n)"

lemma agree_Suc: "agree h (Suc d) k k' \<longleftrightarrow> agree h d k k' \<and> champ_mask (h k) d = champ_mask (h k') d"
  by (auto simp: agree_def less_Suc_eq)

lemma flat_slot:
  assumes "flat sn" and "shape sn" and "slots sn i = Some x"
  shows "flat x" and "set (al_keys (champ_entries x)) \<subseteq> set (al_keys (champ_entries sn))"
proof -
  have "x \<in> set (sub_nodes sn)" using set_sub_nodes [OF assms(2)] assms(3) by (auto simp: ran_def)
  moreover obtain ns nm dm where "sn = SubNodes ns nm dm" using assms(2) by (auto simp: shape_def)
  ultimately show "flat x" "set (al_keys (champ_entries x)) \<subseteq> set (al_keys (champ_entries sn))"
    using assms(1) by (auto simp: keys_entries) blast
qed

lemma flat_list: "flat x \<Longrightarrow> \<forall>n\<in>set ns. flat n \<Longrightarrow> \<forall>n\<in>set (insert_at i x ns). flat n"
  "flat x \<Longrightarrow> \<forall>n\<in>set ns. flat n \<Longrightarrow> \<forall>n\<in>set (ns[i := x]). flat n"
  "\<forall>n\<in>set ns. flat n \<Longrightarrow> \<forall>n\<in>set (erase_at i ns). flat n"
  by (auto simp: insert_at_def erase_at_def dest: in_set_takeD in_set_dropD set_update_subset_insert [THEN subsetD])

definition near :: "('k \<Rightarrow> Hash) \<Rightarrow> 'k set \<Rightarrow> nat \<Rightarrow> 'k \<Rightarrow> ('k, 'v) champ_node \<Rightarrow> bool" where
  "near h K d k sn \<longleftrightarrow> champ_ok h d sn \<and> flat sn \<and> d < collision_depth \<and> k \<in> K
     \<and> set (al_keys (champ_entries sn)) \<subseteq> K \<and> (\<forall>k'\<in>set (al_keys (champ_entries sn)). agree h d k k')"

lemma near_child:
  assumes "near h K d k sn" and "slots sn (champ_mask (h k) d) = Some x" and "\<not> bit (data_map sn) (champ_mask (h k) d)"
  shows "d < collision_depth - 1 \<and> near h K (d + 1) k x"
proof -
  have ok: "champ_ok h d sn" "flat sn" "d < collision_depth" using assms(1) by (simp_all add: near_def)
  note f = flat_slot [OF ok(2) champ_ok_shape [OF ok(1)] assms(2)]
  have d: "d < collision_depth - 1"
    using champ_ok_slot(3) [OF ok(1) assms(2,3)] f(1) by (fastforce simp: coll_ok_def not_less [symmetric])
  with champ_ok_slot(1,4) [OF ok(1) assms(2)] assms(1,3) f show ?thesis
    by (auto simp: near_def agree_Suc)
qed

text \<open>There both operations report the padded size of the entry they replace.\<close>

lemma near_reports:
  "near h K d k sn \<Longrightarrow>
    snd (sub_put h ks vs d k v sn) =
      (case sub_getp d (h k) k sn of None \<Rightarrow> 0 | Some v0 \<Rightarrow> get_size_with_padding ks k + get_size_with_padding vs v0)
    \<and> snd (sub_remove h ks vs d k sn) =
      (case sub_getp d (h k) k sn of None \<Rightarrow> 0 | Some v0 \<Rightarrow> get_size_with_padding ks k + get_size_with_padding vs v0)"
proof (induction h d sn rule: champ_ok.induct)
  case (1 h d sn)
  let ?i = "champ_mask (h k) d"
  have ok: "champ_ok h d sn" using 1(2) by (simp add: near_def)
  note sh = champ_ok_shape [OF ok]
  show ?case
    unfolding sub_put_snd [OF ok] sub_remove_snd [OF ok] sub_getp_slot [OF sh] slot_getp_def child_getp_def
    using near_child [OF 1(2)] 1(1) [of ?i]
    by (auto simp: not_less split: option.split)
qed

lemma flat_put: "near h K d k sn \<Longrightarrow> separated h K \<Longrightarrow> flat (fst (sub_put h ks vs d k v sn))"
proof (induction h ks vs d k v sn rule: sub_put.induct)
  case (1 h ks vs d k v sn)
  let ?i = "champ_mask (h k) d"
  note defs = sub_put.simps [of h ks vs d] Let_def case_prod_beta bm_check_bit
  have ok: "champ_ok h d sn" "flat sn" using 1(3) by (simp_all add: near_def)
  note sh = champ_ok_shape [OF ok(1)]
  then obtain ns nm dm where sn: "sn = SubNodes ns nm dm" by (auto simp: shape_def)
  have ns: "\<forall>n\<in>set ns. flat n" using ok(2) by (simp add: sn)
  show ?case
  proof (cases "slots sn ?i")
    case None
    then have "compressed_idx sn ?i = no_index" by (simp add: compressed_idx_None sh champ_mask_less)
    then show ?thesis using flat_list(1) [OF _ ns, of "Entry k v"] by (simp add: defs sn)
  next
    case (Some x)
    then have c: "compressed_idx sn ?i \<noteq> no_index" by (simp add: compressed_idx_None sh champ_mask_less)
    have x: "ns ! compressed_idx sn ?i = x" using slots_Some(1) [OF sh Some] by (simp add: sn)
    show ?thesis
    proof (cases "bit nm ?i")
      case True
      then have nd: "\<not> bit (data_map sn) ?i" using sh by (auto simp: shape_def sn)
      note child = near_child [OF 1(3) Some nd]
      have "flat (fst (sub_put h ks vs (d + 1) k v x))"
        using 1(1) [OF refl refl refl refl refl c] child True 1(4) x by (simp add: sn bm_check_bit)
      then show ?thesis using c x True child flat_list(2) [OF _ ns] by (simp add: defs sn)
    next
      case False
      with Some have nd: "bit dm ?i" using slots_None [OF sh, of ?i] by (auto simp: sn)
      then obtain k0 v0 where e: "x = Entry k0 v0" using champ_ok_slot(2) [OF ok(1) Some] by (auto simp: sn)
      have k0: "k0 \<in> set (al_keys (champ_entries sn))" using flat_slot(2) [OF ok(2) sh Some] by (simp add: e)
      then have ag: "agree h (d + 1) k k0" "k0 \<in> K"
        using 1(3) champ_ok_slot(1) [OF ok(1) Some] by (auto simp: near_def agree_Suc e)
      show ?thesis
      proof (cases "k = k0")
        case True
        then show ?thesis using c x False flat_list(2) [OF _ ns, of "Entry k v"] by (simp add: defs sn e)
      next
        case neq: False
        have d: "d < collision_depth - 1"
        proof (rule ccontr)
          assume "\<not> d < collision_depth - 1"
          with 1(3) have "d + 1 = collision_depth" by (auto simp: near_def collision_depth_def)
          with ag 1(3,4) neq show False by (auto simp: separated_def near_def)
        qed
        let ?one = "SubNodes [Entry k0 v0] 0 (bm_set 0 (champ_mask (h k0) (d + 1)))"
        have "near h K (d + 1) k ?one"
          using singleton_node(1) [of h "d + 1" k0 v0] d ag 1(3) by (simp add: near_def)
        then have "flat (fst (sub_put h ks vs (d + 1) k v ?one))"
          using 1(2) [OF refl refl refl refl refl c _ refl] d False neq x 1(4) by (simp add: sn e bm_check_bit)
        then show ?thesis
          using c x False neq d flat_list(1) [OF _ flat_list(3) [OF ns]] by (simp add: defs sn e)
      qed
    qed
  qed
qed

lemma flat_remove: "near h K d k sn \<Longrightarrow> flat (fst (sub_remove h ks vs d k sn))"
proof (induction h ks vs d k sn rule: sub_remove.induct)
  case (1 h ks vs d k sn)
  let ?i = "champ_mask (h k) d"
  note defs = sub_remove.simps [of h ks vs d] Let_def case_prod_beta bm_check_bit
  have ok: "champ_ok h d sn" "flat sn" using 1(2) by (simp_all add: near_def)
  note sh = champ_ok_shape [OF ok(1)]
  then obtain ns nm dm where sn: "sn = SubNodes ns nm dm" by (auto simp: shape_def)
  have ns: "\<forall>n\<in>set ns. flat n" using ok(2) by (simp add: sn)
  show ?case
  proof (cases "slots sn ?i")
    case None
    then show ?thesis using ok(2) sh by (simp add: compressed_idx_None champ_mask_less defs)
  next
    case (Some x)
    then have c: "compressed_idx sn ?i \<noteq> no_index" by (simp add: compressed_idx_None sh champ_mask_less)
    have x: "ns ! compressed_idx sn ?i = x" using slots_Some(1) [OF sh Some] by (simp add: sn)
    show ?thesis
    proof (cases "bit dm ?i")
      case True
      then show ?thesis using c x ns flat_list(3) [OF ns] by (auto simp: defs sn)
    next
      case False
      then have child: "d < collision_depth - 1 \<and> near h K (d + 1) k x"
        using near_child [OF 1(2) Some] by (simp add: sn)
      then have "flat (fst (sub_remove h ks vs (d + 1) k x))"
        using 1(1) [OF refl refl refl refl refl c] False x by (simp add: sn bm_check_bit)
      then show ?thesis using c x False child flat_list(2) [OF _ ns] by (simp add: defs sn)
    qed
  qed
qed

section \<open>Runs\<close>

datatype ('k, 'v) map_op = MPut 'k 'v | MRemove 'k

fun champ_step ::
  "('k \<Rightarrow> Hash) \<Rightarrow> ('k \<Rightarrow> nat) \<Rightarrow> ('v \<Rightarrow> nat) \<Rightarrow> ('k, 'v) map_op \<Rightarrow> ('k, 'v) champ_map \<Rightarrow> ('k, 'v) champ_map"
where
  "champ_step h ks vs (MPut k v) m = champ_put h ks vs k v m"
| "champ_step h ks vs (MRemove k) m = champ_remove h ks vs k m"

fun map_step :: "('k, 'v) map_op \<Rightarrow> ('k \<rightharpoonup> 'v) \<Rightarrow> ('k \<rightharpoonup> 'v)" where
  "map_step (MPut k v) g = g(k \<mapsto> v)"
| "map_step (MRemove k) g = g(k := None)"

fun op_key :: "('k, 'v) map_op \<Rightarrow> 'k" where
  "op_key (MPut k v) = k"
| "op_key (MRemove k) = k"

definition champ_run ::
  "('k \<Rightarrow> Hash) \<Rightarrow> ('k \<Rightarrow> nat) \<Rightarrow> ('v \<Rightarrow> nat) \<Rightarrow> ('k, 'v) map_op list \<Rightarrow> ('k, 'v) champ_map"
where
  "champ_run h ks vs ops = fold (champ_step h ks vs) ops champ_empty"

definition map_run :: "('k, 'v) map_op list \<Rightarrow> ('k \<rightharpoonup> 'v)" where
  "map_run ops = fold map_step ops Map.empty"

definition entries_total :: "('k \<Rightarrow> nat) \<Rightarrow> ('v \<Rightarrow> nat) \<Rightarrow> ('k \<rightharpoonup> 'v) \<Rightarrow> nat" where
  "entries_total ks vs g = (\<Sum>k\<in>dom g. get_size_with_padding ks k + get_size_with_padding vs (the (g k)))"

lemma champ_step_get:
  assumes "champ_inv h m"
  shows "champ_inv h (champ_step h ks vs oper m)"
    and "champ_get h (champ_step h ks vs oper m) = map_step oper (champ_get h m)"
  using assms
  by (cases oper; auto simp: champ.invar_put champ.invar_remove champ.get_put champ.get_remove)+

lemma champ_step_size:
  "champ_inv h m \<Longrightarrow> sized ks \<Longrightarrow> sized vs \<Longrightarrow> map_size m = card (dom (champ_get h m)) \<Longrightarrow>
    map_size (champ_step h ks vs oper m) = card (dom (champ_get h (champ_step h ks vs oper m)))"
  by (cases oper) (simp_all add: champ_map_size)

lemma champ_run_snoc: "champ_run h ks vs (ops @ [oper]) = champ_step h ks vs oper (champ_run h ks vs ops)"
  by (simp add: champ_run_def)

lemma map_run_snoc: "map_run (ops @ [oper]) = map_step oper (map_run ops)"
  by (simp add: map_run_def)

lemma champ_run_get: "champ_inv h (champ_run h ks vs ops) \<and> champ_get h (champ_run h ks vs ops) = map_run ops"
  by (induction ops rule: rev_induct)
    (auto simp: champ_run_snoc map_run_snoc champ_step_get simp: champ_run_def map_run_def champ.invar_empty champ.get_empty)

lemma champ_run_size:
  "sized ks \<Longrightarrow> sized vs \<Longrightarrow> map_size (champ_run h ks vs ops) = card (dom (map_run ops))"
proof (induction ops rule: rev_induct)
  case Nil
  then show ?case by (simp add: champ_run_def map_run_def champ_empty_def)
next
  case (snoc oper ops)
  then show ?case
    using champ_step_size [of h "champ_run h ks vs ops" ks vs oper] champ_run_get [of h ks vs ops]
      champ_run_get [of h ks vs "ops @ [oper]"]
    by (simp add: champ_run_snoc)
qed

text \<open>The total of a map that gets, changes or loses an entry.\<close>

lemma entries_total_upd:
  fixes ks :: "'k \<Rightarrow> nat" and vs :: "'v \<Rightarrow> nat"
  assumes "finite (dom g)"
  defines "old \<equiv> \<lambda>k. case g k of None \<Rightarrow> 0 | Some v \<Rightarrow> get_size_with_padding ks k + get_size_with_padding vs v"
  shows "entries_total ks vs (g(k \<mapsto> v)) + old k = entries_total ks vs g + (get_size_with_padding ks k + get_size_with_padding vs v)"
    and "entries_total ks vs (g(k := None)) + old k = entries_total ks vs g"
proof -
  let ?f = "\<lambda>g k. get_size_with_padding ks k + get_size_with_padding vs (the (g k))"
  have eq: "sum (?f (g(k := r))) (dom g - {k}) = sum (?f g) (dom g - {k})" for r
    by (rule sum.cong) auto
  have split: "entries_total ks vs g = sum (?f g) (dom g - {k}) + old k"
  proof (cases "g k")
    case None
    then have "dom g - {k} = dom g" by auto
    with None show ?thesis by (simp add: entries_total_def old_def)
  next
    case (Some v0)
    then have "k \<in> dom g" by auto
    from sum.remove [OF assms(1) this, of "?f g"] Some show ?thesis by (simp add: entries_total_def old_def)
  qed
  have "entries_total ks vs (g(k \<mapsto> v)) = ?f (g(k \<mapsto> v)) k + sum (?f (g(k \<mapsto> v))) (dom g - {k})"
    unfolding entries_total_def dom_fun_upd using assms(1) by (simp add: sum.insert_remove)
  then show "entries_total ks vs (g(k \<mapsto> v)) + old k = entries_total ks vs g + (get_size_with_padding ks k + get_size_with_padding vs v)"
    using eq [of "Some v"] split by simp
  have "entries_total ks vs (g(k := None)) = sum (?f (g(k := None))) (dom g - {k})"
    by (simp add: entries_total_def)
  then show "entries_total ks vs (g(k := None)) + old k = entries_total ks vs g"
    using eq [of None] split by simp
qed

lemma word_of_nat_shift: "a + c = b + d \<Longrightarrow> (word_of_nat a :: 'a::len word) = word_of_nat b + word_of_nat d - word_of_nat c"
  by (metis add_diff_cancel_right' of_nat_add)

lemma champ_run_near:
  assumes "separated h K" and "op_key ` set ops \<subseteq> K"
  shows "flat (root (champ_run h ks vs ops)) \<and> dom (map_run ops) \<subseteq> K
    \<and> serialized_size (champ_run h ks vs ops) = word_of_nat (entries_total ks vs (map_run ops))"
  using assms(2)
proof (induction ops rule: rev_induct)
  case Nil
  then show ?case by (simp add: champ_run_def map_run_def champ_empty_def entries_total_def)
next
  case (snoc oper ops)
  let ?m = "champ_run h ks vs ops" and ?g = "map_run ops"
  have IH: "flat (root ?m)" "dom ?g \<subseteq> K" "serialized_size ?m = word_of_nat (entries_total ks vs ?g)" and kK: "op_key oper \<in> K"
    using snoc by auto
  have inv: "champ_inv h ?m" and get: "champ_get h ?m = ?g" using champ_run_get [of h ks vs ops] by auto
  have "set (al_keys (champ_entries (root ?m))) \<subseteq> K"
    using champ.dom_get [OF inv] IH(2) by (simp add: get map_entries_def)
  then have near: "near h K 0 (op_key oper) (root ?m)"
    using inv IH(1) kK by (simp add: near_def champ_inv_def agree_def collision_depth_def)
  have fin: "finite (dom ?g)" using champ_finite [OF inv] by (simp add: get)
  note rep = near_reports [OF near, of ks vs, folded champ_get_def, unfolded get]
  show ?case
  proof (cases oper)
    case (MPut k v)
    have "flat (root (champ_put h ks vs k v ?m))"
      using flat_put [OF near assms(1)] by (simp add: champ_put_def Let_def case_prod_beta MPut)
    moreover have "serialized_size (champ_put h ks vs k v ?m) = word_of_nat (entries_total ks vs (?g(k \<mapsto> v)))"
      using rep [of v, unfolded MPut op_key.simps] word_of_nat_shift [OF entries_total_upd(1) [OF fin, of ks vs k v], where 'a = 64]
      by (simp add: champ_put_def Let_def case_prod_beta MPut IH(3))
    ultimately show ?thesis using IH kK by (simp add: champ_run_snoc map_run_snoc MPut fun_upd_def subset_iff domIff)
  next
    case (MRemove k)
    have "flat (root (champ_remove h ks vs k ?m))"
      using flat_remove [OF near] by (simp add: champ_remove_def Let_def case_prod_beta MRemove)
    moreover have "serialized_size (champ_remove h ks vs k ?m) = word_of_nat (entries_total ks vs (?g(k := None)))"
      using rep [unfolded MRemove op_key.simps] word_of_nat_shift [of _ _ _ 0, simplified, OF entries_total_upd(2) [OF fin, of ks vs k], where 'a = 64]
      by (simp add: champ_remove_def Let_def case_prod_beta MRemove IH(3))
    ultimately show ?thesis using IH kK by (simp add: champ_run_snoc map_run_snoc MRemove fun_upd_def subset_iff domIff)
  qed
qed

text \<open>C11: Every sequence of \<open>put\<close> and \<open>remove\<close> on a CHAMP map behaves like the same
  sequence on a finite map, whatever the hash function and however its values collide: lookups
  agree, \<open>size\<close> is the number of keys, and \<open>foreach\<close> visits every entry exactly once.\<close>

theorem champ_map_refines:
  assumes "sized ks" and "sized vs"
  shows "champ_get h (champ_run h ks vs ops) = map_run ops
    \<and> map_size (champ_run h ks vs ops) = card (dom (map_run ops))
    \<and> distinct (al_keys (map_entries (champ_run h ks vs ops)))
    \<and> map_of (map_entries (champ_run h ks vs ops)) = map_run ops"
  using champ_run_get [of h ks vs ops] champ_run_size [OF assms] champ.entries_distinct champ.entries_get
  by (metis ext)

definition unit_size :: "'t \<Rightarrow> nat" where
  "unit_size t = 9"

lemma sized_unit: "sized unit_size"
  by (simp add: sized_def unit_size_def get_size_with_padding_def get_padding_def)

theorem champ_map_refines_witness:
  "champ_get (\<lambda>_. 0) (champ_run (\<lambda>_. 0) unit_size unit_size [MPut 1 ''a'', MPut (2 :: nat) ''b'', MRemove 1]) = [2 \<mapsto> ''b'']
    \<and> sized (unit_size :: nat \<Rightarrow> nat)"
  using champ_map_refines [OF sized_unit sized_unit, of "\<lambda>_. 0" "[MPut 1 ''a'', MPut (2 :: nat) ''b'', MRemove 1]"] sized_unit
  by (auto simp: map_run_def)

text \<open>C28: The serialised size a CHAMP map keeps is exact, modulo the width of a \<open>size_t\<close>,
  as long as no two of the keys have hashes that agree in 30 bits: it is the sum of the padded
  sizes of all entries, which is the number of bytes a snapshot writes.\<close>

theorem champ_serialized_size:
  assumes "separated h (op_key ` set ops)"
  shows "serialized_size (champ_run h ks vs ops) = word_of_nat (entries_total ks vs (map_run ops))"
  using champ_run_near [OF assms subset_refl] by blast

theorem champ_serialized_size_witness:
  "separated (\<lambda>k. word_of_nat k) (op_key ` set [MPut 1 ''a'', MPut (2 :: nat) ''b'', MPut 1 ''c''])
    \<and> serialized_size (champ_run (\<lambda>k. word_of_nat k) unit_size unit_size [MPut 1 ''a'', MPut (2 :: nat) ''b'', MPut 1 ''c''])
      = 64"
proof -
  have s: "separated (\<lambda>k. word_of_nat k) (op_key ` set [MPut 1 ''a'', MPut (2 :: nat) ''b'', MPut 1 ''c''])"
    by (auto simp: separated_def agree_def collision_depth_def champ_mask_def intro!: exI [of _ 0])
  with champ_serialized_size [OF s, of unit_size unit_size] show ?thesis
    by (simp add: map_run_def entries_total_def unit_size_def get_size_with_padding_def get_padding_def)
qed

text \<open>Two keys that agree in 30 bits end in one collision node.\<close>

lemma push_down_slot:
  fixes ks :: "'k \<Rightarrow> nat" and vs :: "'v \<Rightarrow> nat" and v v0 :: 'v
  assumes "agree h collision_depth k k0" and "k \<noteq> k0" and "d < collision_depth"
  defines "sn' \<equiv> fst (sub_put h ks vs d k v (SubNodes [Entry k0 v0] 0 (bm_set 0 (champ_mask (h k0) d))))"
  shows "\<exists>x. slots sn' (champ_mask (h k) d) = Some x \<and> \<not> bit (data_map sn') (champ_mask (h k) d)
    \<and> (if d < collision_depth - 1
       then x = fst (sub_put h ks vs (d + 1) k v (SubNodes [Entry k0 v0] 0 (bm_set 0 (champ_mask (h k0) (d + 1)))))
       else \<exists>bins. x = Collisions bins \<and> length bins = collision_bins
              \<and> k \<in> set (al_keys (bins ! champ_mask (h k) collision_depth)))"
proof -
  let ?i = "champ_mask (h k) d" and ?one = "SubNodes [Entry k0 v0] 0 (bm_set 0 (champ_mask (h k) d))"
  have i: "champ_mask (h k0) d = ?i" using assms(1,3) by (simp add: agree_def)
  note sh = champ_ok_shape [OF singleton_node(1) [of h d k0 v0], unfolded i]
  have b: "bit (bm_set 0 ?i) ?i" by (simp add: bit_bm_set champ_mask_less)
  then have "slots ?one ?i \<noteq> None" using slots_None [OF sh, of ?i] by simp
  then have c: "compressed_idx ?one ?i = 0"
    using slots_Some(2) [OF sh] by fastforce
  note p = slots_push [OF sh b, unfolded c]
  show ?thesis
    using b c p champ_mask_bins [of "h k"] assms(2)
    by (simp add: sn'_def i sub_put.simps [of h ks vs d] Let_def bm_check_bit bit_bm_clear collision_bins_def)
qed

lemma collision_reports:
  assumes "agree h collision_depth k k0" and "k \<noteq> k0" and "d < collision_depth"
  shows "snd (sub_put h ks vs d k v'
      (fst (sub_put h ks vs d k v (SubNodes [Entry k0 v0] 0 (bm_set 0 (champ_mask (h k0) d)))))) = ks k + vs v'"
  using assms(3)
proof (induction "collision_depth - d" arbitrary: d)
  case (Suc n)
  let ?one = "\<lambda>d. SubNodes [Entry k0 v0] 0 (bm_set 0 (champ_mask (h k0) d))"
  let ?sn = "fst (sub_put h ks vs d k v (?one d))"
  have ok: "champ_ok h d ?sn" using sub_put_ok [OF singleton_node(1) [of h d k0 v0], of k v ks vs] by (simp add: sub_upd_def)
  from push_down_slot [OF assms(1,2) Suc.prems, of ks vs v v0] obtain x
    where x: "slots ?sn (champ_mask (h k) d) = Some x" "\<not> bit (data_map ?sn) (champ_mask (h k) d)"
      and sub: "d < collision_depth - 1 \<Longrightarrow> x = fst (sub_put h ks vs (d + 1) k v (?one (d + 1)))"
      and coll: "\<not> d < collision_depth - 1 \<Longrightarrow> \<exists>bins. x = Collisions bins
        \<and> k \<in> set (al_keys (bins ! champ_mask (h k) collision_depth))"
    by (auto split: if_splits)
  show ?case
  proof (cases "d < collision_depth - 1")
    case True
    have "snd (sub_put h ks vs (d + 1) k v' x) = ks k + vs v'"
      unfolding sub [OF True] using Suc.hyps(2) True by (intro Suc.hyps(1)) auto
    then show ?thesis using True x by (simp add: sub_put_snd [OF ok])
  next
    case False
    with coll obtain bins where "x = Collisions bins" "k \<in> set (al_keys (bins ! champ_mask (h k) collision_depth))"
      by auto
    then show ?thesis using False x
      by (simp add: sub_put_snd [OF ok] coll_put_def Let_def case_prod_beta bin_put_spec)
  qed
qed simp

lemma sub_put_empty:
  "sub_put h ks vs d k v (SubNodes [] 0 0) = (SubNodes [Entry k v] 0 (bm_set 0 (champ_mask (h k) d)), 0)"
  by (simp add: sub_put.simps [of h ks vs d] Let_def insert_at_def compressed_idx_def [of "SubNodes [] 0 0"] bm_check_def)

lemma singleton_reports:
  assumes "k \<noteq> k0"
  shows "snd (sub_put h ks vs d k v (SubNodes [Entry k0 v0] 0 (bm_set 0 (champ_mask (h k0) d)))) = 0"
proof -
  let ?one = "SubNodes [Entry k0 v0] 0 (bm_set 0 (champ_mask (h k0) d))"
  have ok: "champ_ok h d ?one" by (rule singleton_node(1))
  note sh = champ_ok_shape [OF ok]
  have "x = Entry k0 v0 \<and> bit (data_map ?one) i" if x: "slots ?one i = Some x" for i x
    using slots_Some [OF sh x] slots_None [OF sh, of i] x by auto
  then have "bit (data_map ?one) (champ_mask (h k) d) \<and> entry_key x = k0"
    if "slots ?one (champ_mask (h k) d) = Some x" for x using that by fastforce
  with assms show ?thesis unfolding sub_put_snd [OF ok] by (simp split: option.split)
qed

text \<open>C29: With a collision it is not: two keys whose hashes agree in 30 bits share a collision
  node, which reports the unpadded size of the \<^emph>\<open>new\<close> value when it replaces one, so that the old
  value stays counted and the new one hardly is. With 9-byte values replaced by one of 1000 bytes
  the kept size is 984 bytes below the number of bytes a snapshot writes.\<close>

theorem champ_serialized_size_drifts:
  assumes "agree h collision_depth k k0" and "k \<noteq> k0"
  shows "serialized_size (champ_run h (\<lambda>_. 16) id [MPut k0 9, MPut k 9, MPut k 1000]) = 64
    \<and> entries_total (\<lambda>_. 16) id (map_run [MPut k0 9, MPut k 9, MPut k 1000]) = 1048"
proof -
  let ?one = "SubNodes [Entry k0 (9 :: nat)] 0 (bm_set 0 (champ_mask (h k0) 0))"
  let ?ks = "\<lambda>_. 16 :: nat" and ?vs = "id :: nat \<Rightarrow> nat"
  have "snd (sub_put h ?ks ?vs 0 k 9 ?one) = 0"
    by (rule singleton_reports [OF assms(2)])
  moreover have "snd (sub_put h ?ks ?vs 0 k 1000 (fst (sub_put h ?ks ?vs 0 k 9 ?one))) = 1016"
    using collision_reports [OF assms, of 0 ?ks ?vs 1000 9 9] by (simp add: collision_depth_def)
  ultimately have "serialized_size (champ_run h ?ks ?vs [MPut k0 9, MPut k 9, MPut k 1000]) = 64"
    by (simp add: champ_run_def champ_empty_def champ_put_def sub_put_empty Let_def case_prod_beta get_size_with_padding_def get_padding_def)
  then show ?thesis
    using assms(2) by (simp add: map_run_def entries_total_def get_size_with_padding_def get_padding_def)
qed

theorem champ_serialized_size_drifts_witness:
  "serialized_size (champ_run (\<lambda>_. 0) (\<lambda>_. 16) id [MPut 1 9, MPut (2 :: nat) 9, MPut 2 1000]) = 64
    \<and> entries_total (\<lambda>_. 16) id (map_run [MPut 1 9, MPut (2 :: nat) 9, MPut 2 1000]) = 1048"
  by (rule champ_serialized_size_drifts) (simp_all add: agree_def)

end
