(* ===== verification/Contiguous_Set.thy ===== *)
theory Contiguous_Set
  imports Serialized
begin

text \<open>
  \<open>ds::ContiguousSet\<close> (include/ccf/ds/contiguous_set.h) over \<open>uint64_t\<close>: a set of integers as a vector of
  ranges, its iterators, and that it is the set it stands for. A range is its first value and the number of
  values after it. Positions in the vector are indices, the end being the length.
  \<open>std::lower_bound\<close> is the first position whose element is not below the value, as the standard
  says of sequences that are sorted.
\<close>

section \<open>The set\<close>

definition add64 :: "nat \<Rightarrow> nat \<Rightarrow> nat" where
  "add64 x y = (x + y) mod 2 ^ 64"

definition sub64 :: "nat \<Rightarrow> nat \<Rightarrow> nat" where
  "sub64 x y = (x + 2 ^ 64 - y) mod 2 ^ 64"

type_synonym Range = "nat \<times> nat"
type_synonym Ranges = "Range list"

fun range_less :: "Range \<Rightarrow> Range \<Rightarrow> bool" where
  "range_less (a, n) (b, m) = (a < b \<or> a = b \<and> n < m)"

definition merge_with_following :: "nat \<Rightarrow> Ranges \<Rightarrow> Ranges" where
  "merge_with_following i rs =
     (if i < length rs \<and> i + 1 < length rs
         \<and> add64 (add64 (fst (rs ! i)) (snd (rs ! i))) 1 = fst (rs ! (i + 1))
      then take i rs @ [(fst (rs ! i), add64 (add64 (snd (rs ! i)) 1) (snd (rs ! (i + 1))))] @ drop (i + 2) rs
      else rs)"

text \<open>The index of the range that has the value, or the end.\<close>

definition find_internal :: "nat \<Rightarrow> Ranges \<Rightarrow> nat" where
  "find_internal t rs =
     (let i = length (takeWhile (\<lambda>r. range_less r (t, 0)) rs) in
      if i < length rs \<and> fst (rs ! i) = t then i
      else if i \<noteq> 0 \<and> add64 (fst (rs ! (i - 1))) (snd (rs ! (i - 1))) \<ge> t then i - 1
      else length rs)"

definition cset_of_range :: "nat \<Rightarrow> nat \<Rightarrow> Ranges" where
  "cset_of_range from additional = [(from, additional)]"

text \<open>The sum starts from \<open>0u\<close>, so that it is one of 32-bit integers.\<close>

definition cset_size :: "Ranges \<Rightarrow> nat" where
  "cset_size rs = foldl (\<lambda>n r. (n + snd r + 1) mod 2 ^ 32) 0 rs"

definition cset_empty :: "Ranges \<Rightarrow> bool" where
  "cset_empty rs \<longleftrightarrow> rs = []"

text \<open>
  \<open>insert\<close> searches backwards for the last range that is not above \<open>(t + 1, 0)\<close>; \<open>k\<close> is the
  position after it, zero if there is none.
\<close>

definition cset_insert :: "nat \<Rightarrow> Ranges \<Rightarrow> Ranges \<times> bool" where
  "cset_insert t rs =
     (let k = length rs - length (takeWhile (\<lambda>r. range_less (add64 t 1, 0) r) (rev rs));
          (from, additional) = rs ! (k - 1)
      in if k \<noteq> 0 \<and> from \<le> t \<and> t \<le> add64 from additional then (rs, False)
         else if k \<noteq> 0 \<and> add64 (add64 from additional) 1 = t
         then (merge_with_following (k - 1) (rs[k - 1 := (from, add64 additional 1)]), True)
         else if k \<noteq> 0 \<and> add64 t 1 = from
         then let rs = rs[k - 1 := (t, add64 additional 1)]
              in (if k = 1 then rs else merge_with_following (k - 2) rs, True)
         else (merge_with_following k (take k rs @ [(t, 0)] @ drop k rs), True))"

definition cset_erase :: "nat \<Rightarrow> Ranges \<Rightarrow> Ranges \<times> bool" where
  "cset_erase t rs =
     (let i = length (takeWhile (\<lambda>r. fst r < t) rs);
          i = (if i \<noteq> 0 \<and> (i = length rs \<or> t \<noteq> fst (rs ! i)) then i - 1 else i);
          (from, additional) = rs ! i
      in if i < length rs \<and> from \<le> t \<and> t \<le> add64 from additional
         then if from = t
              then if additional = 0 then (take i rs @ drop (i + 1) rs, True)
                   else (rs[i := (add64 from 1, sub64 additional 1)], True)
              else if t = add64 from additional then (rs[i := (from, sub64 additional 1)], True)
              else
                let before = sub64 (sub64 t from) 1; after = sub64 (sub64 (add64 from additional) t) 1
                in (take i rs @ [(from, before), (add64 t 1, after)] @ drop (i + 1) rs, True)
         else (rs, False))"

text \<open>The loop of \<open>extend\<close>; the counter wraps around.\<close>

fun extend_loop :: "nat \<Rightarrow> nat \<Rightarrow> nat \<Rightarrow> Ranges \<Rightarrow> (Ranges, unit) exec" where
  "extend_loop 0 n to rs = Diverge rs"
| "extend_loop (Suc fuel) n to rs =
     (if n \<le> to then extend_loop fuel (add64 n 1) to (fst (cset_insert n rs)) else ok rs)"

definition cset_extend :: "nat \<Rightarrow> nat \<Rightarrow> nat \<Rightarrow> Ranges \<Rightarrow> (Ranges, unit) exec" where
  "cset_extend fuel from additional rs = extend_loop fuel from (add64 from additional) rs"

definition cset_contains :: "nat \<Rightarrow> Ranges \<Rightarrow> bool" where
  "cset_contains t rs \<longleftrightarrow> find_internal t rs \<noteq> length rs"

definition cset_clear :: "Ranges \<Rightarrow> Ranges" where
  "cset_clear rs = []"

definition cset_front :: "Ranges \<Rightarrow> nat fallible" where
  "cset_front rs = (if rs = [] then Inl OutOfBounds else Inr (fst (hd rs)))"

definition cset_back :: "Ranges \<Rightarrow> nat fallible" where
  "cset_back rs = (if rs = [] then Inl OutOfBounds else Inr (add64 (fst (last rs)) (snd (last rs))))"

text \<open>
  Construction from a sequence of values. \<open>std::adjacent_find\<close> gives the first element that is not followed
  by its successor.
\<close>

fun run_length :: "nat \<Rightarrow> nat list \<Rightarrow> nat" where
  "run_length x [] = 0"
| "run_length x (y # ys) = (if add64 x 1 \<noteq> y then 0 else Suc (run_length y ys))"

lemma run_length_le: "run_length x xs \<le> length xs"
  by (induction x xs rule: run_length.induct) auto

function ranges_from :: "nat list \<Rightarrow> Ranges" where
  "ranges_from [] = []"
| "ranges_from (x # xs) = (let n = run_length x xs in (x, n) # ranges_from (drop n xs))"
  by pat_completeness auto

termination
  by (relation "measure length") auto

definition cset_of_values :: "nat list \<Rightarrow> Ranges fallible" where
  "cset_of_values xs = (if \<not> sorted xs then Inl (LogicError ''Range must be sorted'') else Inr (ranges_from xs))"

section \<open>Iterators\<close>

text \<open>An iterator is the index of a range and an offset in it; one at the end may not be dereferenced.\<close>

type_synonym cset_iterator = "nat \<times> nat"

definition iter_begin :: "Ranges \<Rightarrow> cset_iterator" where
  "iter_begin rs = (0, 0)"

definition iter_end :: "Ranges \<Rightarrow> cset_iterator" where
  "iter_end rs = (length rs, 0)"

definition cset_find :: "nat \<Rightarrow> Ranges \<Rightarrow> cset_iterator" where
  "cset_find t rs =
     (let i = find_internal t rs in if i \<noteq> length rs then (i, sub64 t (fst (rs ! i))) else iter_end rs)"

definition iter_deref :: "Ranges \<Rightarrow> cset_iterator \<Rightarrow> nat fallible" where
  "iter_deref rs x = (if fst x < length rs then Inr (add64 (fst (rs ! fst x)) (snd x)) else Inl OutOfBounds)"

definition iter_incr :: "Ranges \<Rightarrow> cset_iterator \<Rightarrow> cset_iterator fallible" where
  "iter_incr rs x =
     (if fst x < length rs
      then Inr (let offset = add64 (snd x) 1 in if offset > snd (rs ! fst x) then (fst x + 1, 0) else (fst x, offset))
      else Inl OutOfBounds)"

definition iter_decr :: "Ranges \<Rightarrow> cset_iterator \<Rightarrow> cset_iterator fallible" where
  "iter_decr rs x =
     (if snd x \<noteq> 0 then Inr (fst x, snd x - 1)
      else if fst x = 0 \<or> fst x > length rs then Inl OutOfBounds
      else Inr (fst x - 1, snd (rs ! (fst x - 1))))"

text \<open>The loop of \<open>operator+=\<close> dereferences the iterator before every test.\<close>

function iter_plus :: "Ranges \<Rightarrow> nat \<Rightarrow> nat \<Rightarrow> nat \<Rightarrow> cset_iterator fallible" where
  "iter_plus rs n i offset =
     (if i \<ge> length rs then Inl OutOfBounds
      else if add64 offset n > snd (rs ! i)
      then iter_plus rs (sub64 n (add64 (sub64 (snd (rs ! i)) offset) 1)) (i + 1) 0
      else Inr (i, add64 offset n))"
  by pat_completeness auto

termination
  by (relation "measure (\<lambda>(rs, n, i, offset). length rs - i)") auto

function iter_minus :: "Ranges \<Rightarrow> nat \<Rightarrow> nat \<Rightarrow> nat \<Rightarrow> cset_iterator fallible" where
  "iter_minus rs n i offset =
     (if n > offset
      then if i = 0 \<or> i > length rs then Inl OutOfBounds
           else iter_minus rs (n - (offset + 1)) (i - 1) (snd (rs ! (i - 1)))
      else Inr (i, offset - n))"
  by pat_completeness auto

termination
  by (relation "measure (\<lambda>(rs, n, i, offset). i)") auto

text \<open>\<open>operator-\<close> of two iterators; the difference is an unsigned number.\<close>

definition ranges_between :: "Ranges \<Rightarrow> nat \<Rightarrow> nat \<Rightarrow> Ranges" where
  "ranges_between rs i j = drop (i + 1) (take j rs)"

definition iter_distance :: "Ranges \<Rightarrow> cset_iterator \<Rightarrow> cset_iterator \<Rightarrow> nat fallible" where
  "iter_distance rs x y =
     (let after = (\<lambda>x y.
        if fst y < length rs
        then Inr (add64 (foldr (\<lambda>r acc. add64 acc (snd r + 1)) (ranges_between rs (fst y) (fst x)) (add64 (snd x) 1))
               (sub64 (snd (rs ! fst y)) (snd y)))
        else Inl OutOfBounds)
      in if fst x = fst y then Inr (sub64 (snd x) (snd y))
         else if fst x < fst y then map_sum id (sub64 0) (after y x)
         else after x y)"

text \<open>Construction from two iterators of another set.\<close>

definition cset_slice :: "Ranges \<Rightarrow> cset_iterator \<Rightarrow> cset_iterator \<Rightarrow> Ranges fallible" where
  "cset_slice rs x y =
     (let (i, o1) = x; (j, o2) = y in
      if i \<noteq> j
      then if i \<ge> length rs \<or> i > j then Inl OutOfBounds
           else if o2 \<noteq> 0 \<and> j \<ge> length rs then Inl OutOfBounds
           else Inr ([(add64 (fst (rs ! i)) o1, sub64 (snd (rs ! i)) o1)] @ ranges_between rs i j
                     @ (if o2 \<noteq> 0 then [(fst (rs ! j), o2 - 1)] else []))
      else if o1 < o2
      then if i \<ge> length rs then Inl OutOfBounds else Inr [(add64 (fst (rs ! i)) o1, o2 - o1 - 1)]
      else Inr [])"

text \<open>\<open>std::lower_bound\<close> and \<open>std::upper_bound\<close> over the iterators: \<open>len\<close> values from \<open>x\<close> on are left.\<close>

function bound_loop :: "(nat \<Rightarrow> bool) \<Rightarrow> Ranges \<Rightarrow> nat \<Rightarrow> cset_iterator \<Rightarrow> cset_iterator fallible" where
  "bound_loop before rs len x =
     (if len = 0 then Inr x
      else
        let half = len div 2 in
        case iter_plus rs half (fst x) (snd x) of
          Inl e \<Rightarrow> Inl e
        | Inr mid \<Rightarrow>
            (case iter_deref rs mid of
               Inl e \<Rightarrow> Inl e
             | Inr v \<Rightarrow>
                 if before v
                 then (case iter_incr rs mid of
                         Inl e \<Rightarrow> Inl e
                       | Inr y \<Rightarrow> bound_loop before rs (len - half - 1) y)
                 else bound_loop before rs half x))"
  by pat_completeness auto

termination
  by (relation "measure (\<lambda>(before, rs, len, x). len)") auto

definition cset_lower_bound :: "nat \<Rightarrow> Ranges \<Rightarrow> cset_iterator fallible" where
  "cset_lower_bound t rs =
     (case iter_distance rs (iter_end rs) (iter_begin rs) of
        Inl e \<Rightarrow> Inl e
      | Inr len \<Rightarrow> bound_loop (\<lambda>v. v < t) rs len (iter_begin rs))"

definition cset_upper_bound :: "nat \<Rightarrow> Ranges \<Rightarrow> cset_iterator fallible" where
  "cset_upper_bound t rs =
     (case iter_distance rs (iter_end rs) (iter_begin rs) of
        Inl e \<Rightarrow> Inl e
      | Inr len \<Rightarrow> bound_loop (\<lambda>v. \<not> t < v) rs len (iter_begin rs))"

declare iter_plus.simps [simp del] iter_minus.simps [simp del] bound_loop.simps [simp del]

section \<open>The set it stands for\<close>

definition ranges_ok :: "Ranges \<Rightarrow> bool" where
  "ranges_ok rs \<longleftrightarrow> sorted_wrt (\<lambda>r r'. fst r + snd r + 1 < fst r') rs \<and> (\<forall>r\<in>set rs. fst r + snd r < 2 ^ 64)"

definition covers :: "Ranges \<Rightarrow> nat set" where
  "covers rs = (\<Union>r\<in>set rs. {fst r..fst r + snd r})"

lemma covers_simps [simp]:
  "covers [] = {}" "covers (r # rs) = {fst r..fst r + snd r} \<union> covers rs" "covers (rs @ rs') = covers rs \<union> covers rs'"
  by (auto simp: covers_def)

lemma ranges_ok_append:
  "ranges_ok (rs @ rs') \<longleftrightarrow> ranges_ok rs \<and> ranges_ok rs' \<and> (\<forall>r\<in>set rs. \<forall>r'\<in>set rs'. fst r + snd r + 1 < fst r')"
  by (auto simp: ranges_ok_def sorted_wrt_append)

lemma ranges_ok_Cons:
  "ranges_ok (r # rs) \<longleftrightarrow> fst r + snd r < 2 ^ 64 \<and> ranges_ok rs \<and> (\<forall>r'\<in>set rs. fst r + snd r + 1 < fst r')"
  by (auto simp: ranges_ok_def)

lemma ranges_ok_Nil [simp]: "ranges_ok []"
  by (simp add: ranges_ok_def)

lemma covers_iff: "t \<in> covers rs \<longleftrightarrow> (\<exists>r\<in>set rs. fst r \<le> t \<and> t \<le> fst r + snd r)"
  by (auto simp: covers_def)

lemma add64_small [simp]: "x + y < 2 ^ 64 \<Longrightarrow> add64 x y = x + y"
  by (simp add: add64_def)

lemma sub64_small [simp]: "y \<le> x \<Longrightarrow> x < 2 ^ 64 \<Longrightarrow> sub64 x y = x - y"
  unfolding sub64_def by (metis Nat.add_diff_assoc2 less_imp_diff_less mod_add_self2 mod_less)

text \<open>Two neighbours that touch are merged.\<close>

lemma merge_end: "length rs \<le> i + 1 \<Longrightarrow> merge_with_following i rs = rs"
  by (simp add: merge_with_following_def)

lemma merge_ok:
  assumes "ranges_ok (xs @ [r])" and "ranges_ok (r' # ys)" and "fst r + snd r < fst r'"
  shows "ranges_ok (merge_with_following (length xs) (xs @ r # r' # ys))"
    and "covers (merge_with_following (length xs) (xs @ r # r' # ys)) = covers (xs @ r # r' # ys)"
proof -
  let ?m = "merge_with_following (length xs) (xs @ r # r' # ys)"
  have b: "fst r + snd r < 2 ^ 64" "fst r' + snd r' < 2 ^ 64" using assms by (simp_all add: ranges_ok_append ranges_ok_Cons)
  have eq: "?m = (if fst r + snd r + 1 = fst r' then xs @ (fst r, snd r + 1 + snd r') # ys else xs @ r # r' # ys)"
    using assms(3) b by (auto simp: merge_with_following_def nth_append)
  have lt: "fst x + snd x + 1 < fst y" if "x \<in> set xs" "y \<in> set (r' # ys)" for x y
    using that assms by (fastforce simp: ranges_ok_append ranges_ok_Cons)
  show "ranges_ok ?m"
    using assms b lt unfolding eq by (auto simp: ranges_ok_append ranges_ok_Cons)
  show "covers ?m = covers (xs @ r # r' # ys)"
    using assms(3) unfolding eq by auto
qed

lemma merge_last:
  assumes "ranges_ok (xs @ [r])" and "ranges_ok ys" and "ys = [] \<or> fst r + snd r < fst (hd ys)"
  shows "ranges_ok (merge_with_following (length xs) (xs @ r # ys))"
    and "covers (merge_with_following (length xs) (xs @ r # ys)) = covers (xs @ r # ys)"
  using assms merge_ok [of xs r "hd ys" "tl ys"] by (cases ys; simp add: merge_end)+

section \<open>Searching and changing the set\<close>

lemma sorted_starts: "ranges_ok rs \<Longrightarrow> sorted_wrt (\<lambda>r r'. fst r < fst r') rs"
  unfolding ranges_ok_def by (auto elim: sorted_wrt_mono_rel [rotated])

lemma range_less_start: "range_less r (t, 0) \<longleftrightarrow> fst r < t"
  by (cases r) simp

lemma split_below:
  assumes "ranges_ok rs"
  obtains xs ys where "rs = xs @ ys" and "takeWhile (\<lambda>r. fst r < t) rs = xs" and "\<forall>r\<in>set xs. fst r < t" and "\<forall>r\<in>set ys. t \<le> fst r"
proof -
  let ?xs = "takeWhile (\<lambda>r. fst r < t) rs" and ?ys = "dropWhile (\<lambda>r. fst r < t) rs"
  have "\<forall>r\<in>set ?ys. t \<le> fst r"
  proof (cases ?ys)
    case Nil
    then show ?thesis by (simp only: list.set) simp
  next
    case (Cons y ys)
    then have "t \<le> fst y" using hd_dropWhile [of "\<lambda>r. fst r < t" rs] by auto
    moreover have "sorted_wrt (\<lambda>r r'. fst r < fst r') (?xs @ ?ys)" using sorted_starts [OF assms] by simp
    ultimately show ?thesis using Cons by (fastforce simp: sorted_wrt_append)
  qed
  then show ?thesis using that [of ?xs ?ys] by (auto dest: set_takeWhileD)
qed

lemma find_internal_spec:
  assumes "ranges_ok rs"
  shows "if t \<in> covers rs then find_internal t rs < length rs \<and> fst (rs ! find_internal t rs) \<le> t
      \<and> t \<le> fst (rs ! find_internal t rs) + snd (rs ! find_internal t rs)
    else find_internal t rs = length rs"
proof -
  from split_below [OF assms, of t] obtain xs ys where rs: "rs = xs @ ys" and tw: "takeWhile (\<lambda>r. fst r < t) rs = xs"
    and below: "\<forall>r\<in>set xs. fst r < t" and above: "\<forall>r\<in>set ys. t \<le> fst r" .
  have "(\<lambda>r. range_less r (t, 0)) = (\<lambda>r. fst r < t)" by (rule ext) (simp add: range_less_start)
  then have i: "length (takeWhile (\<lambda>r. range_less r (t, 0)) rs) = length xs" by (simp only: tw)
  have ok: "ranges_ok xs" "ranges_ok ys" using assms by (simp_all add: rs ranges_ok_append)
  show ?thesis
  proof (cases "ys \<noteq> [] \<and> fst (hd ys) = t")
    case True
    then have "find_internal t rs = length xs"
      unfolding find_internal_def i Let_def by (auto simp: rs nth_append hd_conv_nth)
    then show ?thesis using True by (cases ys) (auto simp: rs)
  next
    case False
    then have y: "t \<notin> covers ys"
      using above ok(2) by (cases ys) (fastforce simp: covers_iff ranges_ok_Cons)+
    show ?thesis
    proof (cases xs rule: rev_cases)
      case Nil
      then show ?thesis using y False unfolding find_internal_def i Let_def by (auto simp: rs hd_conv_nth)
    next
      case (snoc zs z)
      have "t \<notin> covers zs" using ok(1) below snoc by (fastforce simp: covers_iff ranges_ok_append)
      then have c: "t \<in> covers rs \<longleftrightarrow> t \<le> fst z + snd z" using y below by (auto simp: rs snoc)
      have "fst z + snd z < 2 ^ 64" using ok(1) by (simp add: snoc ranges_ok_append ranges_ok_Cons)
      then have "find_internal t rs = (if t \<le> fst z + snd z then length zs else length rs)"
        using False unfolding find_internal_def i Let_def by (auto simp: rs snoc nth_append hd_conv_nth split: if_splits)
      then show ?thesis using c below by (auto simp: rs snoc nth_append)
    qed
  qed
qed

text \<open>The split of \<open>insert\<close>: the ranges up to \<open>(t + 1, 0)\<close> and the rest.\<close>

lemma range_less_next: "range_less (u, 0) r \<longleftrightarrow> u < fst r \<or> u = fst r \<and> 0 < snd r"
  by (cases r) simp

lemma split_insert:
  assumes "ranges_ok rs"
  obtains xs ys where "rs = xs @ ys" and "length rs - length (takeWhile (\<lambda>r. range_less (u, 0) r) (rev rs)) = length xs"
    and "\<forall>r\<in>set ys. u \<le> fst r" and "\<forall>r\<in>set xs. fst r < u \<or> r = (u, 0)"
proof -
  let ?P = "\<lambda>r. range_less (u, 0) r"
  let ?xs = "rev (dropWhile ?P (rev rs))" and ?ys = "rev (takeWhile ?P (rev rs))"
  have rs: "rs = ?xs @ ?ys" by (metis rev_append rev_rev_ident takeWhile_dropWhile_id)
  have "length rs - length (takeWhile ?P (rev rs)) = length ?xs" using rs by (metis diff_add_inverse2 length_append length_rev)
  moreover have "\<forall>r\<in>set ?ys. u \<le> fst r" by (auto simp: range_less_next dest: set_takeWhileD)
  moreover have "\<forall>r\<in>set ?xs. fst r < u \<or> r = (u, 0)"
  proof (cases "dropWhile ?P (rev rs)")
    case Nil
    then show ?thesis by (simp only: list.set rev.simps) simp
  next
    case (Cons z zs)
    then have "\<not> ?P z" using hd_dropWhile [of ?P "rev rs"] by auto
    then have z: "fst z < u \<or> z = (u, 0)" by (cases z) auto
    have "sorted_wrt (\<lambda>r r'. fst r < fst r') (?xs @ ?ys)" using sorted_starts [OF assms] rs by simp
    then have "\<forall>r\<in>set zs. fst r < fst z" using Cons by (simp add: sorted_wrt_append)
    then show ?thesis using z Cons by auto
  qed
  ultimately show ?thesis using that rs by blast
qed

text \<open>A range of one value is extended downwards, and merged with the one before it if they touch.\<close>

definition extended_down :: "Ranges \<Rightarrow> nat \<Rightarrow> Ranges \<Rightarrow> Ranges" where
  "extended_down zs t ys = (if zs = [] then (t, 1) # ys else merge_with_following (length zs - 1) (zs @ (t, 1) # ys))"

lemma extended_down_ok:
  assumes "ranges_ok (zs @ (t + 1, 0) # ys)" and "t + 1 < 2 ^ 64"
  shows "ranges_ok (extended_down zs t ys) \<and> covers (extended_down zs t ys) = insert t (covers (zs @ (t + 1, 0) # ys))
    \<and> t \<notin> covers (zs @ (t + 1, 0) # ys)"
proof -
  have b: "ranges_ok zs" "ranges_ok ys" "\<forall>r\<in>set zs. fst r + snd r < t" "\<forall>r\<in>set ys. t + 2 < fst r"
    using assms(1) by (auto simp: ranges_ok_append ranges_ok_Cons)
  have ok: "ranges_ok ((t, 1) # ys)" using b(2,4) assms(2) by (auto simp: ranges_ok_Cons)
  have new: "t \<notin> covers (zs @ (t + 1, 0) # ys)" using b(3,4) by (fastforce simp: covers_iff)
  have cov: "covers (zs @ (t, 1) # ys) = insert t (covers (zs @ (t + 1, 0) # ys))" by auto
  show ?thesis
  proof (cases zs rule: rev_cases)
    case Nil
    then show ?thesis using ok new cov by (simp add: extended_down_def)
  next
    case (snoc ws w)
    then have "fst w + snd w < t" "ranges_ok (ws @ [w])" using b(1,3) by auto
    then show ?thesis using merge_ok [of ws w "(t, 1)" ys] ok new cov by (simp add: snoc extended_down_def)
  qed
qed

lemma insert_ok:
  assumes "ranges_ok rs" and "t + 1 < 2 ^ 64"
  shows "ranges_ok (fst (cset_insert t rs)) \<and> covers (fst (cset_insert t rs)) = insert t (covers rs)
    \<and> (snd (cset_insert t rs) \<longleftrightarrow> t \<notin> covers rs)"
proof -
  from split_insert [OF assms(1), of "t + 1"] obtain xs ys where rs: "rs = xs @ ys"
    and k: "length rs - length (takeWhile (\<lambda>r. range_less (t + 1, 0) r) (rev rs)) = length xs"
    and ys: "\<forall>r\<in>set ys. t + 1 \<le> fst r" and xs: "\<forall>r\<in>set xs. fst r < t + 1 \<or> r = (t + 1, 0)" .
  have ok: "ranges_ok xs" "ranges_ok ys" using assms(1) by (simp_all add: rs ranges_ok_append)
  have out: "t \<notin> covers ys" using ys by (fastforce simp: covers_iff)
  have next_ys: "ys = [] \<or> t < fst (hd ys)" using ys by (cases ys) auto
  have t1: "add64 t 1 = t + 1" using assms(2) by simp
  note def = cset_insert_def [of t rs, unfolded t1 k Let_def]
  show ?thesis
  proof (cases xs rule: rev_cases)
    case Nil
    then have "cset_insert t rs = (merge_with_following 0 ((t, 0) # ys), True)" unfolding def by (simp add: rs case_prod_beta)
    then show ?thesis
      using merge_last [of "[]" "(t, 0)" ys] ok(2) next_ys assms(2) out by (simp add: Nil rs ranges_ok_Cons)
  next
    case (snoc zs z)
    obtain f a where z: "z = (f, a)" by (cases z)
    have b: "f + a < 2 ^ 64" "ranges_ok zs" "\<forall>r\<in>set zs. fst r + snd r + 1 < f"
      using ok(1) by (simp_all add: snoc z ranges_ok_append ranges_ok_Cons)
    have fz: "f < t + 1 \<or> z = (t + 1, 0)" using xs by (simp add: snoc z)
    have nth: "rs ! (length xs - 1) = (f, a)" by (simp add: rs snoc z nth_append)
    consider "f \<le> t \<and> t \<le> f + a" | "f + a + 1 = t" | "z = (t + 1, 0)" | "f + a + 1 < t" using fz by (fastforce simp: z)
    then show ?thesis
    proof cases
      case 1
      then have "cset_insert t rs = (rs, False)" using b(1) unfolding def nth by (simp add: snoc)
      moreover have "t \<in> covers rs" using 1 by (auto simp: rs snoc z)
      ultimately show ?thesis using assms(1) by auto
    next
      case 2
      then have eq: "cset_insert t rs = (merge_with_following (length zs) (zs @ (f, a + 1) # ys), True)"
        using b(1) assms(2) unfolding def nth snoc by (simp add: rs snoc z)
      have "ranges_ok (zs @ [(f, a + 1)])" using b 2 assms(2) by (auto simp: ranges_ok_append ranges_ok_Cons)
      moreover have "ys = [] \<or> f + (a + 1) < fst (hd ys)" using next_ys 2 by auto
      moreover have "t \<notin> covers rs" using b(3) out 2 by (fastforce simp: rs snoc z covers_iff)
      moreover have "covers (zs @ (f, a + 1) # ys) = insert t (covers rs)" using 2 by (auto simp: rs snoc z)
      ultimately show ?thesis using eq merge_last [of zs "(f, a + 1)" ys] ok(2) by simp
    next
      case 3
      have "t + 2 < 2 ^ 64 \<or> t = 2 ^ 64 - 2" using assms(2) by linarith
      then have "add64 (t + 1) 1 \<noteq> t" by (elim disjE) (simp_all add: add64_def)
      then have "cset_insert t rs = (extended_down zs t ys, True)"
        using 3 assms(2) unfolding def nth by (cases zs) (simp_all add: rs snoc z extended_down_def Let_def)
      then show ?thesis using extended_down_ok [of zs t ys] assms 3 by (simp add: rs snoc)
    next
      case 4
      then have eq: "cset_insert t rs = (merge_with_following (length xs) (xs @ (t, 0) # ys), True)"
        using b(1) assms(2) unfolding def nth snoc by (simp add: rs snoc z)
      have "ranges_ok (xs @ [(t, 0)])" using ok(1) b 4 assms(2) by (fastforce simp: snoc z ranges_ok_append ranges_ok_Cons)
      moreover have "t \<notin> covers rs" using b(3) out 4 by (fastforce simp: rs snoc z covers_iff)
      moreover have "covers (xs @ (t, 0) # ys) = insert t (covers rs)" by (auto simp: rs)
      ultimately show ?thesis using eq merge_last [of xs "(t, 0)" ys] ok(2) next_ys by simp
    qed
  qed
qed

text \<open>The range that has the value is split around it.\<close>

definition cut :: "nat \<Rightarrow> Range \<Rightarrow> Ranges" where
  "cut t r =
     (if fst r = t then if snd r = 0 then [] else [(t + 1, snd r - 1)]
      else if t = fst r + snd r then [(fst r, snd r - 1)]
      else [(fst r, t - fst r - 1), (t + 1, fst r + snd r - t - 1)])"

lemma cut_ok:
  assumes "ranges_ok (xs @ r # ys)" and "fst r \<le> t" and "t \<le> fst r + snd r"
  shows "ranges_ok (xs @ cut t r @ ys) \<and> covers (xs @ cut t r @ ys) = covers (xs @ r # ys) - {t} \<and> t \<in> covers (xs @ r # ys)"
proof -
  have b: "\<forall>x\<in>set xs. fst x + snd x + 1 < fst r" "\<forall>y\<in>set ys. fst r + snd r + 1 < fst y" "fst r + snd r < 2 ^ 64"
    "ranges_ok xs" "ranges_ok ys" "\<forall>x\<in>set xs. \<forall>y\<in>set ys. fst x + snd x + 1 < fst y"
    using assms(1) by (auto simp: ranges_ok_append ranges_ok_Cons)
  have c: "covers (cut t r) = {fst r..fst r + snd r} - {t}" "ranges_ok (cut t r)"
    using assms(2,3) b(3) by (auto simp: cut_def ranges_ok_Cons)
  have "\<forall>z\<in>set (cut t r). fst r \<le> fst z \<and> fst z + snd z \<le> fst r + snd r" using assms(2,3) by (auto simp: cut_def)
  then have "ranges_ok (xs @ cut t r @ ys)"
    using b c(2) unfolding ranges_ok_append by (fastforce simp: ranges_ok_append)
  moreover have "t \<notin> covers xs" "t \<notin> covers ys" using b(1,2) assms(2,3) by (fastforce simp: covers_iff)+
  ultimately show ?thesis using assms(2,3) c(1) by auto
qed

lemma erase_at:
  assumes "ranges_ok (xs @ r # ys)" and "fst r \<le> t" and "t \<le> fst r + snd r"
    and "(let i = length (takeWhile (\<lambda>r. fst r < t) (xs @ r # ys))
      in if i \<noteq> 0 \<and> (i = length (xs @ r # ys) \<or> t \<noteq> fst ((xs @ r # ys) ! i)) then i - 1 else i) = length xs"
  shows "cset_erase t (xs @ r # ys) = (xs @ cut t r @ ys, True)"
proof -
  have b: "fst r + snd r < 2 ^ 64" using assms(1) by (simp add: ranges_ok_append ranges_ok_Cons)
  obtain f a where r: "r = (f, a)" by (cases r)
  show ?thesis
    unfolding cset_erase_def assms(4) [unfolded Let_def] Let_def using assms(2,3) b by (auto simp: cut_def r)
qed

lemma erase_ok:
  assumes "ranges_ok rs"
  shows "ranges_ok (fst (cset_erase t rs)) \<and> covers (fst (cset_erase t rs)) = covers rs - {t}
    \<and> (snd (cset_erase t rs) \<longleftrightarrow> t \<in> covers rs)"
proof -
  from split_below [OF assms(1), of t] obtain xs ys where rs: "rs = xs @ ys" and tw: "takeWhile (\<lambda>r. fst r < t) rs = xs"
    and below: "\<forall>r\<in>set xs. fst r < t" and above: "\<forall>r\<in>set ys. t \<le> fst r" .
  have ok: "ranges_ok xs" "ranges_ok ys" using assms by (simp_all add: rs ranges_ok_append)
  have none: "?thesis" if "cset_erase t rs = (rs, False)" "t \<notin> covers rs" using that assms by auto
  show ?thesis
  proof (cases "ys \<noteq> [] \<and> fst (hd ys) = t")
    case True
    then obtain y ys' where y: "ys = y # ys'" "fst y = t" by (cases ys) auto
    have "cset_erase t rs = (xs @ cut t y @ ys', True)" unfolding rs y(1)
      by (rule erase_at) (insert assms y tw, auto simp: rs)
    then show ?thesis using cut_ok [of xs y ys' t] assms y by (simp add: rs)
  next
    case False
    then have out: "t \<notin> covers ys"
      using above ok(2) by (cases ys) (fastforce simp: covers_iff ranges_ok_Cons)+
    have i: "(let i = length (takeWhile (\<lambda>r. fst r < t) rs) in if i \<noteq> 0 \<and> (i = length rs \<or> t \<noteq> fst (rs ! i)) then i - 1 else i)
        = length xs - 1" unfolding tw Let_def using False by (auto simp: rs nth_append hd_conv_nth)
    show ?thesis
    proof (cases xs rule: rev_cases)
      case Nil
      then have "cset_erase t rs = (rs, False)"
        using above False unfolding cset_erase_def i [unfolded Let_def] Let_def by (cases ys) (auto simp: rs)
      then show ?thesis using none out by (simp add: rs Nil)
    next
      case (snoc zs z)
      have z: "rs = zs @ z # ys" "fst z < t" using below by (simp_all add: rs snoc)
      have outz: "t \<notin> covers zs" using ok(1) below snoc by (fastforce simp: covers_iff ranges_ok_append)
      show ?thesis
      proof (cases "t \<le> fst z + snd z")
        case True
        then have "cset_erase t rs = (zs @ cut t z @ ys, True)" unfolding z(1)
          by (intro erase_at) (insert assms z i snoc, auto)
        then show ?thesis using cut_ok [of zs z ys t] assms z True by simp
      next
        case no: False
        have "fst z + snd z < 2 ^ 64" using ok(1) by (simp add: snoc ranges_ok_append ranges_ok_Cons)
        then have "cset_erase t rs = (rs, False)"
          using no unfolding cset_erase_def i [unfolded Let_def] Let_def by (auto simp: z snoc split: prod.split)
        then show ?thesis using none out outz no by (simp add: z)
      qed
    qed
  qed
qed

text \<open>The largest integer: the value searched for wraps around to \<open>(0, 0)\<close>.\<close>

lemma insert_largest:
  assumes ok: "ranges_ok rs" and t: "t = 2 ^ 64 - 1"
  shows "snd (cset_insert t rs)"
    and "rs \<noteq> [] \<Longrightarrow> \<not> (ranges_ok (fst (cset_insert t rs)) \<and> covers (fst (cset_insert t rs)) = insert t (covers rs))"
proof -
  have t1: "add64 t 1 = 0" using t by (simp add: add64_def)
  consider (empty) "rs = []" | (zero) ys where "rs = (0, 0) # ys" | (other) r ys where "rs = r # ys" "r \<noteq> (0, 0)"
    by (cases rs) auto
  then have "snd (cset_insert t rs) \<and> (rs \<noteq> [] \<longrightarrow>
    \<not> (ranges_ok (fst (cset_insert t rs)) \<and> covers (fst (cset_insert t rs)) = insert t (covers rs)))"
  proof cases
    case empty
    then show ?thesis by (simp add: cset_insert_def)
  next
    case zero
    then have "\<forall>r\<in>set ys. range_less (0, 0) r" using ok by (fastforce simp: ranges_ok_Cons)
    then have "takeWhile (\<lambda>r. range_less (0, 0) r) (rev rs) = rev ys" by (simp add: zero takeWhile_tail)
    then have "cset_insert t rs = ((t, 1) # ys, True)" using t t1 by (simp add: cset_insert_def zero)
    then show ?thesis using t by (simp add: ranges_ok_Cons)
  next
    case other
    have "\<forall>r\<in>set rs. range_less (0, 0) r" using ok other by (cases r) (fastforce simp: ranges_ok_Cons)
    then have "takeWhile (\<lambda>r. range_less (0, 0) r) (rev rs) = rev rs" by simp
    then have "length (takeWhile (\<lambda>r. range_less (0, 0) r) (rev rs)) = length rs" by (simp only: length_rev)
    then have "cset_insert t rs = (merge_with_following 0 ((t, 0) # rs), True)"
      using t1 by (simp add: cset_insert_def Let_def case_prod_beta)
    then have eq: "cset_insert t rs = (merge_with_following 0 ((t, 0) # r # ys), True)" by (simp only: other(1))
    have r: "fst r + snd r < 2 ^ 64" using ok by (simp add: other(1) ranges_ok_Cons)
    show ?thesis
    proof (cases "fst r = 0")
      case True
      have m: "merge_with_following 0 ((t, 0) # r # ys) = (t, add64 1 (snd r)) # ys"
        using True t t1 by (simp add: merge_with_following_def)
      show ?thesis
      proof (cases "snd r = t")
        case full: True
        then have "ys = []" using ok True t by (cases ys) (auto simp: other(1) ranges_ok_Cons)
        then have "0 \<notin> covers (fst (cset_insert t rs))" unfolding eq m fst_conv using full t by (simp add: add64_def)
        moreover have "0 \<in> covers rs" using True by (simp add: other(1))
        ultimately show ?thesis using eq by auto
      next
        case False
        then have "add64 1 (snd r) = 1 + snd r" using r True t by simp
        then show ?thesis unfolding eq m using t by (simp add: ranges_ok_Cons)
      qed
    next
      case False
      then have m: "merge_with_following 0 ((t, 0) # r # ys) = (t, 0) # r # ys" using t t1 by (simp add: merge_with_following_def)
      show ?thesis unfolding eq m using r t by (simp add: ranges_ok_Cons)
    qed
  qed
  then show "snd (cset_insert t rs)"
    and "rs \<noteq> [] \<Longrightarrow> \<not> (ranges_ok (fst (cset_insert t rs)) \<and> covers (fst (cset_insert t rs)) = insert t (covers rs))"
    by auto
qed

lemma size_ok:
  assumes "ranges_ok rs"
  shows "cset_size rs = card (covers rs) mod 2 ^ 32"
proof -
  have "card (covers rs) = sum_list (map (\<lambda>r. snd r + 1) rs)"
    using assms
  proof (induction rs)
    case (Cons r rs)
    have "finite (covers rs)" by (simp add: covers_def)
    moreover have "{fst r..fst r + snd r} \<inter> covers rs = {}" using Cons.prems by (fastforce simp: ranges_ok_Cons covers_iff)
    ultimately show ?case using Cons by (simp add: card_Un_disjoint ranges_ok_Cons)
  qed simp
  moreover have "foldl (\<lambda>n r. (n + snd r + 1) mod 2 ^ 32) (n mod 2 ^ 32) rs = (n + sum_list (map (\<lambda>r. snd r + 1) rs)) mod 2 ^ 32" for n
  proof (induction rs arbitrary: n)
    case (Cons r rs)
    have "(n mod 2 ^ 32 + snd r + 1) mod 2 ^ 32 = (n + snd r + 1) mod 2 ^ 32" by (metis add.assoc mod_add_left_eq)
    then show ?case using Cons [of "n + snd r + 1"] by (simp add: ac_simps)
  qed simp
  from this [of 0] have "cset_size rs = sum_list (map (\<lambda>r. snd r + 1) rs) mod 2 ^ 32" by (simp add: cset_size_def)
  ultimately show ?thesis by simp
qed

lemma ends_ok:
  assumes "ranges_ok rs" and "rs \<noteq> []"
  shows "cset_front rs = Inr (Min (covers rs))" and "cset_back rs = Inr (Max (covers rs))"
proof -
  have fin: "finite (covers rs)" by (simp add: covers_def)
  obtain r rs' where r: "rs = r # rs'" using assms(2) by (cases rs) auto
  have "fst r \<le> x" if "x \<in> covers rs" for x using assms(1) that by (fastforce simp: r ranges_ok_Cons covers_iff)
  then have "Min (covers rs) = fst r" using fin by (intro Min_eqI) (auto simp: r)
  then show "cset_front rs = Inr (Min (covers rs))" by (simp add: cset_front_def r)
  obtain zs z where z: "rs = zs @ [z]" using assms(2) by (cases rs rule: rev_cases) auto
  have "x \<le> fst z + snd z" if "x \<in> covers rs" for x using assms(1) that by (fastforce simp: z ranges_ok_append covers_iff)
  then have "Max (covers rs) = fst z + snd z" using fin by (intro Max_eqI) (auto simp: z)
  moreover have "fst z + snd z < 2 ^ 64" using assms(1) by (simp add: z ranges_ok_append ranges_ok_Cons)
  ultimately show "cset_back rs = Inr (Max (covers rs))" by (simp add: cset_back_def z)
qed

section \<open>Iterators are positions\<close>

definition count :: "Ranges \<Rightarrow> nat" where
  "count rs = sum_list (map (\<lambda>r. snd r + 1) rs)"

definition elements :: "Ranges \<Rightarrow> nat list" where
  "elements rs = concat (map (\<lambda>r. [fst r..<fst r + snd r + 1]) rs)"

definition position :: "Ranges \<Rightarrow> cset_iterator \<Rightarrow> nat" where
  "position rs x = count (take (fst x) rs) + snd x"

definition in_range :: "Ranges \<Rightarrow> cset_iterator \<Rightarrow> bool" where
  "in_range rs x \<longleftrightarrow> fst x < length rs \<and> snd x \<le> snd (rs ! fst x)"

definition iter_ok :: "Ranges \<Rightarrow> cset_iterator \<Rightarrow> bool" where
  "iter_ok rs x \<longleftrightarrow> in_range rs x \<or> x = iter_end rs"

lemma count_simps [simp]: "count [] = 0" "count (r # rs) = snd r + 1 + count rs" "count (rs @ rs') = count rs + count rs'"
  by (simp_all add: count_def)

lemma elements_simps [simp]: "elements [] = []" "elements (r # rs) = [fst r..<fst r + snd r + 1] @ elements rs"
  "elements (rs @ rs') = elements rs @ elements rs'"
  by (simp_all add: elements_def)

lemma length_elements [simp]: "length (elements rs) = count rs"
  by (induction rs) simp_all

lemma set_elements: "set (elements rs) = covers rs"
  by (induction rs) (simp_all add: atLeastLessThanSuc_atLeastAtMost del: upt_Suc)

lemma sorted_elements: "ranges_ok rs \<Longrightarrow> sorted_wrt (<) (elements rs)"
proof (induction rs)
  case (Cons r rs)
  have "fst r + snd r < x" if "x \<in> covers rs" for x using Cons.prems that by (fastforce simp: ranges_ok_Cons covers_iff)
  then have "\<forall>x\<in>set [fst r..<fst r + snd r + 1]. \<forall>y\<in>set (elements rs). x < y" by (fastforce simp: set_elements)
  moreover have "sorted_wrt (<) [fst r..<fst r + snd r + 1]" by (simp only: sorted_wrt_upt)
  ultimately show ?case using Cons by (simp only: elements_simps sorted_wrt_append ranges_ok_Cons)
qed simp

lemma count_card: "ranges_ok rs \<Longrightarrow> count rs = card (covers rs)"
  using distinct_card [of "elements rs"] sorted_elements [of rs] by (simp add: set_elements strict_sorted_iff)

lemma split_nth: "i < length rs \<Longrightarrow> rs = take i rs @ rs ! i # drop (i + 1) rs"
  by (simp add: id_take_nth_drop)

lemma count_split: "i < length rs \<Longrightarrow> count rs = count (take i rs) + (snd (rs ! i) + 1) + count (drop (i + 1) rs)"
  using arg_cong [OF split_nth, of i rs count] by simp

lemma position_less: "in_range rs x \<Longrightarrow> position rs x < count rs"
  using count_split [of "fst x" rs] by (simp add: in_range_def position_def)

lemma position_end: "position rs (iter_end rs) = count rs"
  by (simp add: position_def iter_end_def)

lemma elements_nth:
  assumes "in_range rs x"
  shows "elements rs ! position rs x = fst (rs ! fst x) + snd x"
proof -
  let ?i = "fst x"
  have i: "?i < length rs" "snd x \<le> snd (rs ! ?i)" using assms by (simp_all add: in_range_def)
  have "elements rs = elements (take ?i rs) @ [fst (rs ! ?i)..<fst (rs ! ?i) + snd (rs ! ?i) + 1] @ elements (drop (?i + 1) rs)"
    using arg_cong [OF split_nth [OF i(1)], of elements] by simp
  moreover have "position rs x = length (elements (take ?i rs)) + snd x" by (simp add: position_def)
  ultimately show ?thesis using i(2) by (simp only: nth_append_length_plus) (simp add: nth_append del: upt_Suc)
qed

lemma deref_ok:
  assumes "ranges_ok rs" and "in_range rs x"
  shows "iter_deref rs x = Inr (elements rs ! position rs x)"
proof -
  have "fst (rs ! fst x) + snd (rs ! fst x) < 2 ^ 64" using assms by (simp add: ranges_ok_def in_range_def)
  then show ?thesis using assms(2) by (simp add: iter_deref_def elements_nth in_range_def)
qed

lemma iter_cases: "in_range rs x \<Longrightarrow> snd x < snd (rs ! fst x) \<or> snd x = snd (rs ! fst x)"
  by (auto simp: in_range_def)

lemma next_range: "i < length rs \<Longrightarrow> iter_ok rs (i + 1, 0) \<and> position rs (i + 1, 0) = count (take i rs) + snd (rs ! i) + 1"
  by (auto simp: iter_ok_def in_range_def iter_end_def position_def take_Suc_conv_app_nth)

lemma incr_ok:
  assumes "in_range rs x" and "count rs < 2 ^ 64"
  shows "\<exists>y. iter_incr rs x = Inr y \<and> iter_ok rs y \<and> position rs y = position rs x + 1"
proof -
  have "add64 (snd x) 1 = snd x + 1" using assms position_less [OF assms(1)] by (simp add: position_def)
  then have eq: "iter_incr rs x = Inr (if snd x + 1 > snd (rs ! fst x) then (fst x + 1, 0) else (fst x, snd x + 1))"
    using assms(1) by (simp only: iter_incr_def in_range_def Let_def if_True)
  show ?thesis
  proof (cases "snd x < snd (rs ! fst x)")
    case True
    then show ?thesis using assms(1) by (auto simp: eq in_range_def iter_ok_def position_def)
  next
    case False
    then have "snd x = snd (rs ! fst x)" using assms(1) by (simp add: in_range_def)
    then show ?thesis using assms(1) next_range [of "fst x" rs] by (auto simp: eq in_range_def position_def)
  qed
qed

lemma plus_ok:
  assumes "in_range rs (i, off)" and "position rs (i, off) + n < count rs" and "count rs < 2 ^ 64"
  shows "\<exists>y. iter_plus rs n i off = Inr y \<and> in_range rs y \<and> position rs y = position rs (i, off) + n"
  using assms
proof (induction rs n i off rule: iter_plus.induct)
  case (1 rs n i off)
  have i: "i < length rs" "off \<le> snd (rs ! i)" using "1.prems"(1) by (simp_all add: in_range_def)
  have small: "add64 off n = off + n" using "1.prems"(2,3) by (simp add: position_def)
  show ?case
  proof (cases "snd (rs ! i) < off + n")
    case True
    let ?n = "n - (snd (rs ! i) - off + 1)"
    have n: "sub64 n (add64 (sub64 (snd (rs ! i)) off) 1) = ?n"
      using True i(2) "1.prems"(2,3) count_split [OF i(1)] by (simp add: position_def)
    have p: "position rs (i + 1, 0) + ?n = position rs (i, off) + n" "iter_ok rs (i + 1, 0)"
      using next_range [OF i(1)] True i(2) by (simp_all add: position_def)
    then have "in_range rs (i + 1, 0)" using "1.prems"(2) position_end [of rs] by (auto simp: iter_ok_def iter_end_def)
    then show ?thesis using "1.IH" i True small p n "1.prems"(2,3) by (subst iter_plus.simps) simp
  next
    case False
    then show ?thesis using i small by (subst iter_plus.simps) (simp add: in_range_def position_def)
  qed
qed

lemma previous_range:
  "0 < i \<Longrightarrow> i \<le> length rs \<Longrightarrow>
    in_range rs (i - 1, snd (rs ! (i - 1))) \<and> position rs (i - 1, snd (rs ! (i - 1))) + 1 = count (take i rs)"
  using take_Suc_conv_app_nth [of "i - 1" rs] by (simp add: in_range_def position_def)

lemma iter_ok_index: "iter_ok rs x \<Longrightarrow> fst x \<le> length rs"
  by (auto simp: iter_ok_def in_range_def iter_end_def)

lemma decr_ok:
  assumes "iter_ok rs x" and "0 < position rs x"
  shows "\<exists>y. iter_decr rs x = Inr y \<and> in_range rs y \<and> position rs y + 1 = position rs x"
proof (cases "snd x = 0")
  case True
  then have "0 < fst x" using assms(2) by (cases "fst x") (simp_all add: position_def)
  then show ?thesis using True previous_range [of "fst x" rs] iter_ok_index [OF assms(1)]
    by (simp add: iter_decr_def position_def)
next
  case False
  then show ?thesis using assms(1) by (auto simp: iter_decr_def iter_ok_def in_range_def iter_end_def position_def)
qed

lemma minus_ok:
  "iter_ok rs (i, off) \<Longrightarrow> n \<le> position rs (i, off) \<Longrightarrow>
    \<exists>y. iter_minus rs n i off = Inr y \<and> iter_ok rs y \<and> position rs y + n = position rs (i, off)"
proof (induction rs n i off rule: iter_minus.induct)
  case (1 rs n i off)
  show ?case
  proof (cases "off < n")
    case True
    then have i: "0 < i" "i \<le> length rs" using "1.prems" iter_ok_index [of rs "(i, off)"] by (cases i; simp add: position_def)+
    note p = previous_range [OF i]
    have "position rs (i, off) = count (take i rs) + off" by (simp add: position_def)
    then show ?thesis using "1.IH" [OF True] True i p "1.prems"(2) by (subst iter_minus.simps) (fastforce simp: iter_ok_def)
  next
    case False
    then show ?thesis using "1.prems" by (subst iter_minus.simps) (auto simp: iter_ok_def in_range_def iter_end_def position_def)
  qed
qed

text \<open>The values of the ranges before an index, then those of its range up to an offset.\<close>

lemma elements_before:
  assumes "iter_ok rs x"
  shows "take (position rs x) (elements rs)
    = elements (take (fst x) rs) @ (if snd x = 0 then [] else [fst (rs ! fst x)..<fst (rs ! fst x) + snd x])"
proof (cases "in_range rs x")
  case True
  let ?i = "fst x"
  have i: "?i < length rs" "snd x \<le> snd (rs ! ?i)" using True by (simp_all add: in_range_def)
  have "elements rs = elements (take ?i rs) @ [fst (rs ! ?i)..<fst (rs ! ?i) + snd (rs ! ?i) + 1] @ elements (drop (?i + 1) rs)"
    using arg_cong [OF split_nth [OF i(1)], of elements] by simp
  then show ?thesis using i(2) by (simp add: position_def del: upt_Suc)
next
  case False
  then have "x = iter_end rs" using assms by (simp add: iter_ok_def)
  then show ?thesis by (simp add: position_end) (simp add: iter_end_def)
qed

lemma take_between: "i < j \<Longrightarrow> j \<le> length rs \<Longrightarrow> take j rs = take i rs @ rs ! i # ranges_between rs i j"
  using split_nth [of i "take j rs"] by (simp add: ranges_between_def min_absorb1)

lemma position_index:
  assumes "iter_ok rs x" and "iter_ok rs y" and "fst x < fst y"
  shows "position rs x < position rs y"
proof -
  have "in_range rs x" using assms iter_ok_index [OF assms(2)] by (auto simp: iter_ok_def iter_end_def)
  then have "position rs x < count (take (fst x + 1) rs)" by (simp add: in_range_def position_def take_Suc_conv_app_nth)
  also have "\<dots> \<le> count (take (fst y) rs)"
    using arg_cong [OF append_take_drop_id [of "fst x + 1" "take (fst y) rs"], of count] assms(3) by (simp add: min_absorb1)
  finally show ?thesis by (simp add: position_def)
qed

lemma slice_ok:
  assumes ok: "ranges_ok rs" and x: "iter_ok rs x" and y: "iter_ok rs y" and le: "position rs x \<le> position rs y"
  shows "\<exists>rs'. cset_slice rs x y = Inr rs' \<and> ranges_ok rs'
    \<and> elements rs' = drop (position rs x) (take (position rs y) (elements rs))"
proof -
  obtain i o1 j o2 where xy: "x = (i, o1)" "y = (j, o2)" by (cases x, cases y)
  have "i \<le> j" using position_index [OF y x] le by (intro leI notI) (simp add: xy)
  then consider (same) "i = j" | (later) "i < j" by linarith
  then show ?thesis
  proof cases
    case same
    then have o: "o1 \<le> o2" using le by (simp add: xy position_def)
    show ?thesis
    proof (cases "o1 = o2")
      case True
      then show ?thesis using same by (simp add: xy cset_slice_def)
    next
      case False
      then have j: "j < length rs" "o2 \<le> snd (rs ! j)" using y o by (auto simp: xy iter_ok_def in_range_def iter_end_def)
      moreover have "fst (rs ! j) + snd (rs ! j) < 2 ^ 64" using ok j(1) by (simp add: ranges_ok_def)
      ultimately show ?thesis using False o same elements_before [OF y]
        by (simp add: xy cset_slice_def ranges_ok_Cons position_def)
    qed
  next
    case later
    let ?r = "rs ! i" and ?B = "ranges_between rs i j"
    have j: "j \<le> length rs" using iter_ok_index [OF y] by (simp add: xy)
    have i: "i < length rs" "o1 \<le> snd ?r" using x later j by (auto simp: xy iter_ok_def in_range_def iter_end_def)
    have r: "fst ?r + snd ?r < 2 ^ 64" using ok i(1) by (simp add: ranges_ok_def)
    let ?first = "(fst ?r + o1, snd ?r - o1)" and ?last = "if o2 \<noteq> 0 then [(fst (rs ! j), o2 - 1)] else []"
    have last: "j < length rs \<and> o2 \<le> snd (rs ! j)" if "o2 \<noteq> 0"
      using y that by (auto simp: xy iter_ok_def in_range_def iter_end_def)
    have slice: "cset_slice rs x y = Inr (?first # ?B @ ?last)"
      using later i r last by (auto simp: xy cset_slice_def)
    have split: "ranges_ok ((take i rs @ ?r # ?B) @ drop j rs)"
      by (simp only: take_between [OF later j, symmetric] append_take_drop_id ok)
    have before: "ranges_ok (?r # ?B)" "\<forall>r\<in>set (?r # ?B). \<forall>r'\<in>set (drop j rs). fst r + snd r + 1 < fst r'" "ranges_ok (drop j rs)"
      using split unfolding ranges_ok_append by auto
    have "ranges_ok (?first # ?B)" using before(1) i(2) by (simp add: ranges_ok_Cons)
    moreover have "ranges_ok ?last" "\<forall>r\<in>set (?first # ?B). \<forall>r'\<in>set ?last. fst r + snd r + 1 < fst r'"
      using last before(2,3) i(2) by (auto simp: ranges_ok_Cons Cons_nth_drop_Suc [symmetric])
    ultimately have "ranges_ok (?first # ?B @ ?last)" using ranges_ok_append [of "?first # ?B" ?last] by simp
    moreover have "elements (?first # ?B @ ?last) = drop (position rs x) (take (position rs y) (elements rs))"
      using elements_before [OF y] i(2) by (simp add: xy position_def take_between [OF later j] del: upt_Suc)
    ultimately show ?thesis using slice by blast
  qed
qed

lemma passed_ranges:
  "n + count rs < 2 ^ 64 \<Longrightarrow> foldr (\<lambda>r acc. add64 acc (snd r + 1)) rs n = n + count rs"
  by (induction rs arbitrary: n) (simp_all add: add64_def)

lemma distance_ok:
  assumes x: "iter_ok rs x" and y: "iter_ok rs y" and le: "position rs y \<le> position rs x" and small: "count rs < 2 ^ 64"
  shows "iter_distance rs x y = Inr (position rs x - position rs y)"
proof -
  have px: "position rs x < 2 ^ 64" using x small position_less [of rs x] position_end [of rs] by (auto simp: iter_ok_def)
  have "fst y \<le> fst x" using position_index [OF x y] le by (intro leI notI) simp
  then consider (same) "fst y = fst x" | (later) "fst y < fst x" by linarith
  then show ?thesis
  proof cases
    case same
    then have "snd y \<le> snd x" "snd x < 2 ^ 64" using le px by (simp_all add: position_def)
    then show ?thesis using same by (simp add: iter_distance_def position_def)
  next
    case later
    let ?B = "ranges_between rs (fst y) (fst x)" and ?s = "snd (rs ! fst y)"
    have ix: "fst x \<le> length rs" by (rule iter_ok_index [OF x])
    have iy: "fst y < length rs" "snd y \<le> ?s" using y later ix by (auto simp: iter_ok_def in_range_def iter_end_def)
    have p: "position rs x = count (take (fst y) rs) + (?s + 1) + count ?B + snd x"
      using take_between [OF later ix] by (simp add: position_def)
    then have b: "snd x + 1 + count ?B + (?s - snd y) < 2 ^ 64" "?s < 2 ^ 64" using px by simp_all
    have "foldr (\<lambda>r acc. add64 acc (snd r + 1)) ?B (snd x + 1) = snd x + 1 + count ?B" using b(1) by (intro passed_ranges) simp
    moreover have "add64 (snd x) 1 = snd x + 1" "sub64 ?s (snd y) = ?s - snd y"
      "add64 (snd x + 1 + count ?B) (?s - snd y) = snd x + 1 + count ?B + (?s - snd y)"
      using b iy(2) by simp_all
    moreover have "snd x + 1 + count ?B + (?s - snd y) = position rs x - position rs y"
      using p iy(2) by (simp add: position_def)
    ultimately show ?thesis using later iy(1) by (simp only: iter_distance_def Let_def if_True if_False less_not_sym less_imp_neq [symmetric])
  qed
qed

lemma iter_begin_ok: "iter_ok rs (iter_begin rs)" "position rs (iter_begin rs) = 0"
  by (auto simp: iter_begin_def iter_ok_def in_range_def iter_end_def position_def)

lemma distance_whole:
  "count rs < 2 ^ 64 \<Longrightarrow> iter_distance rs (iter_end rs) (iter_begin rs) = Inr (count rs)"
  using distance_ok [of rs "iter_end rs" "iter_begin rs"] by (simp add: iter_begin_ok position_end) (simp add: iter_ok_def)

text \<open>The search halves what is left; \<open>before\<close> holds of the values up to some point.\<close>

lemma takeWhile_before:
  fixes vs :: "nat list"
  assumes "sorted_wrt (<) vs" and "\<forall>u v. before v \<and> u \<le> v \<longrightarrow> before u" and "m < length vs"
  shows "length (takeWhile before vs) = (if before (vs ! m)
    then m + 1 + length (takeWhile before (drop (m + 1) vs)) else length (takeWhile before (take m vs)))"
proof -
  have split: "vs = take m vs @ vs ! m # drop (m + 1) vs" using assms(3) by (simp add: id_take_nth_drop)
  show ?thesis
  proof (cases "before (vs ! m)")
    case True
    have "before v" if v: "v \<in> set (take m vs)" for v
    proof -
      obtain j where "j < m" "v = vs ! j" using v assms(3) by (auto simp: in_set_conv_nth)
      then have "v \<le> vs ! m" using assms(1,3) by (simp add: sorted_wrt_nth_less less_imp_le)
      then show ?thesis using True assms(2) by blast
    qed
    then have "takeWhile before (take m vs @ vs ! m # drop (m + 1) vs) = take m vs @ vs ! m # takeWhile before (drop (m + 1) vs)"
      using True by (subst takeWhile_append2) simp_all
    then show ?thesis using True assms(3) split by simp
  next
    case False
    then have "takeWhile before (take m vs @ vs ! m # drop (m + 1) vs) = takeWhile before (take m vs)"
      by (auto simp: takeWhile_append intro!: takeWhile_eq_all_conv [THEN iffD2, symmetric])
    then show ?thesis using False split by simp
  qed
qed

lemma bound_loop_ok:
  assumes "ranges_ok rs" and "\<forall>u v. before v \<and> u \<le> v \<longrightarrow> before u" and "iter_ok rs x" and "position rs x + len \<le> count rs"
    and "count rs < 2 ^ 64"
  shows "\<exists>y. bound_loop before rs len x = Inr y \<and> iter_ok rs y
    \<and> position rs y = position rs x + length (takeWhile before (take len (drop (position rs x) (elements rs))))"
  using assms
proof (induction before rs len x rule: bound_loop.induct)
  case (1 before rs len x)
  let ?vs = "take len (drop (position rs x) (elements rs))" and ?half = "len div 2"
  show ?case
  proof (cases "len = 0")
    case True
    then show ?thesis using "1.prems"(3) by (subst bound_loop.simps) simp
  next
    case False
    then have inr: "in_range rs x" using "1.prems"(3,4) position_end [of rs] by (auto simp: iter_ok_def)
    have half: "?half < len" using False by simp
    from plus_ok [of rs "fst x" "snd x" ?half] inr half "1.prems"(4,5) obtain mid where
      mid: "iter_plus rs ?half (fst x) (snd x) = Inr mid" "in_range rs mid" "position rs mid = position rs x + ?half" by fastforce
    have len: "length ?vs = len" using "1.prems"(4) by simp
    have d: "iter_deref rs mid = Inr (?vs ! ?half)" using deref_ok [OF "1.prems"(1) mid(2)] half "1.prems"(4) by (simp add: mid(3))
    have s: "sorted_wrt (<) ?vs" using sorted_elements [OF "1.prems"(1)] by (simp add: sorted_wrt_take sorted_wrt_drop)
    note tw = takeWhile_before [OF s "1.prems"(2), of ?half]
    show ?thesis
    proof (cases "before (?vs ! ?half)")
      case True
      from incr_ok [OF mid(2) "1.prems"(5)] obtain y where y: "iter_incr rs mid = Inr y" "iter_ok rs y" "position rs y = position rs mid + 1" by blast
      have rest: "drop (?half + 1) ?vs = take (len - ?half - 1) (drop (position rs y) (elements rs))"
        using half by (simp add: y(3) mid(3) drop_take ac_simps)
      have "\<exists>z. bound_loop before rs (len - ?half - 1) y = Inr z \<and> iter_ok rs z
        \<and> position rs z = position rs y + length (takeWhile before (drop (?half + 1) ?vs))"
        unfolding rest using "1.IH"(1) [OF False refl mid(1) d True y(1) "1.prems"(1,2) y(2)] "1.prems"(4,5) half y(3) mid(3) by simp
      then show ?thesis using False mid(1) d True y tw half len mid(3) by (subst bound_loop.simps) (auto simp: Let_def)
    next
      case no: False
      have "\<exists>z. bound_loop before rs ?half x = Inr z \<and> iter_ok rs z
        \<and> position rs z = position rs x + length (takeWhile before (take ?half (drop (position rs x) (elements rs))))"
        using "1.IH"(2) [OF False refl mid(1) d no "1.prems"(1-3)] "1.prems"(4,5) half by simp
      moreover have "take ?half ?vs = take ?half (drop (position rs x) (elements rs))" using half by (simp add: min_absorb1)
      ultimately show ?thesis using False mid(1) d no tw half len by (subst bound_loop.simps) (auto simp: Let_def)
    qed
  qed
qed

lemma takeWhile_shorter: "\<exists>x\<in>set xs. \<not> P x \<Longrightarrow> length (takeWhile P xs) < length xs"
  by (induction xs) auto

text \<open>The first value that is not before the point.\<close>

lemma bound_value:
  assumes "ranges_ok rs" and "\<forall>u v. before v \<and> u \<le> v \<longrightarrow> before u" and "count rs < 2 ^ 64"
    and "iter_distance rs (iter_end rs) (iter_begin rs) = Inr len"
  shows "\<exists>y. bound_loop before rs len (iter_begin rs) = Inr y
    \<and> (if \<exists>x\<in>covers rs. \<not> before x then iter_deref rs y = Inr (Min {x \<in> covers rs. \<not> before x}) else y = iter_end rs)"
proof -
  have len: "len = count rs" using distance_whole [OF assms(3)] assms(4) by simp
  note start = iter_begin_ok [of rs]
  let ?n = "length (takeWhile before (elements rs))"
  from bound_loop_ok [OF assms(1,2) start(1) _ assms(3), of len] start(2) len obtain y where
    y: "bound_loop before rs len (iter_begin rs) = Inr y" "iter_ok rs y" "position rs y = ?n"
    by (metis add.left_neutral drop0 length_elements order_refl take_all)
  show ?thesis
  proof (cases "\<exists>x\<in>covers rs. \<not> before x")
    case True
    then have lt: "?n < count rs" using takeWhile_shorter [of "elements rs" before] by (auto simp: set_elements)
    then have "in_range rs y" using y(2,3) position_end [of rs] by (auto simp: iter_ok_def)
    then have d: "iter_deref rs y = Inr (elements rs ! ?n)" using deref_ok [OF assms(1)] y(3) by simp
    have v: "elements rs ! ?n \<in> covers rs" "\<not> before (elements rs ! ?n)"
      using lt nth_length_takeWhile [of before "elements rs"] nth_mem [of ?n "elements rs"] by (simp_all add: set_elements)
    have "elements rs ! ?n \<le> x" if x: "x \<in> covers rs" "\<not> before x" for x
    proof -
      obtain j where j: "j < count rs" "x = elements rs ! j" using x(1) by (auto simp: set_elements [symmetric] in_set_conv_nth)
      have "\<not> j < ?n" using x(2) j(2) takeWhile_nth [of j before "elements rs"] nth_mem [of j "takeWhile before (elements rs)"]
        set_takeWhileD by fastforce
      then show ?thesis using sorted_elements [OF assms(1)] j by (auto simp: strict_sorted_iff intro: sorted_nth_mono)
    qed
    then have "Min {x \<in> covers rs. \<not> before x} = elements rs ! ?n"
      using v by (intro Min_eqI) (auto simp: covers_def)
    then show ?thesis using True y(1) d by auto
  next
    case False
    then have "?n = count rs" by (simp add: takeWhile_eq_all_conv [THEN iffD2] set_elements)
    then have "y = iter_end rs" using y(2,3) position_less [of rs y] by (auto simp: iter_ok_def)
    then show ?thesis using False y(1) by auto
  qed
qed

text \<open>Construction from strictly increasing values.\<close>

lemma run_length_upt: "sorted_wrt (<) (x # xs) \<Longrightarrow> \<forall>y\<in>set (x # xs). y < 2 ^ 64 \<Longrightarrow>
    take (run_length x xs) xs = [x + 1..<x + 1 + run_length x xs]
    \<and> (drop (run_length x xs) xs = [] \<or> x + run_length x xs + 1 < hd (drop (run_length x xs) xs))"
proof (induction x xs rule: run_length.induct)
  case (2 x y ys)
  have small: "add64 x 1 = x + 1" using "2.prems" by (simp add: add64_def)
  show ?case
  proof (cases "x + 1 = y")
    case True
    then show ?thesis using 2 small by (auto simp: upt_rec [of "Suc x"])
  next
    case False
    then show ?thesis using "2.prems"(1) small by auto
  qed
qed simp

lemma ranges_from_ok:
  "sorted_wrt (<) xs \<Longrightarrow> \<forall>x\<in>set xs. x < 2 ^ 64 \<Longrightarrow> ranges_ok (ranges_from xs) \<and> covers (ranges_from xs) = set xs"
proof (induction xs rule: ranges_from.induct)
  case (2 x xs)
  let ?n = "run_length x xs"
  note r = run_length_upt [OF "2.prems"]
  have split: "xs = [x + 1..<x + 1 + ?n] @ drop ?n xs" using r by (metis append_take_drop_id)
  have rest: "sorted_wrt (<) (drop ?n xs)" "\<forall>y\<in>set (drop ?n xs). y < 2 ^ 64"
    using "2.prems" by (auto simp: sorted_wrt_drop dest: in_set_dropD)
  note ih = "2.IH" [OF refl rest]
  have above: "x + ?n + 1 < y" if "y \<in> set (drop ?n xs)" for y
    using r rest(1) that by (cases "drop ?n xs") auto
  have "x + ?n < 2 ^ 64"
  proof (cases "?n = 0")
    case False
    then have "x + ?n \<in> set ([x + 1..<x + 1 + ?n] @ drop ?n xs)" by simp
    then show ?thesis using "2.prems"(2) split by (metis list.set_intros(2))
  qed (insert "2.prems"(2), simp)
  moreover have "fst r' \<in> set (drop ?n xs)" if "r' \<in> set (ranges_from (drop ?n xs))" for r'
    using that ih by (fastforce simp: covers_def)
  ultimately have "ranges_ok (ranges_from (x # xs))" using ih above by (auto simp: Let_def ranges_ok_Cons)
  moreover have "set (x # xs) = {x..x + ?n} \<union> set (drop ?n xs)" by (subst split) auto
  ultimately show ?case using ih by (simp add: Let_def)
qed simp

section \<open>Properties\<close>

lemma find_ok:
  assumes "ranges_ok rs"
  shows "if t \<in> covers rs then iter_deref rs (cset_find t rs) = Inr t else cset_find t rs = iter_end rs"
proof (cases "t \<in> covers rs")
  case True
  let ?i = "find_internal t rs"
  have i: "?i < length rs" "fst (rs ! ?i) \<le> t" "t \<le> fst (rs ! ?i) + snd (rs ! ?i)"
    using find_internal_spec [OF assms, of t] True by auto
  then have "fst (rs ! ?i) + snd (rs ! ?i) < 2 ^ 64" using assms by (simp add: ranges_ok_def)
  then have "t < 2 ^ 64" using i(3) by simp
  then show ?thesis using True i(1,2) by (simp add: cset_find_def iter_deref_def Let_def)
next
  case False
  then show ?thesis using find_internal_spec [OF assms, of t] by (simp add: cset_find_def Let_def)
qed

text \<open>C13: A set of ranges is the set of the values it covers. Inserting any integer but the largest, and
  erasing, change it by one value and tell whether it was there; looking up finds exactly the values it
  has; the first and the last value are its least and its greatest, and what it reports as its size is
  their number modulo 2^32. Strictly increasing values are made into the set of them. Inserting the
  largest integer is always reported as a change, and unless the set was empty the result is not a
  representation of the set with that integer in it.\<close>

theorem contiguous_set_refines:
  assumes "ranges_ok rs"
  shows "(t + 1 < 2 ^ 64 \<longrightarrow> ranges_ok (fst (cset_insert t rs)) \<and> covers (fst (cset_insert t rs)) = insert t (covers rs)
        \<and> snd (cset_insert t rs) = (t \<notin> covers rs))
    \<and> (t = 2 ^ 64 - 1 \<longrightarrow> snd (cset_insert t rs) \<and> (rs \<noteq> [] \<longrightarrow>
        \<not> (ranges_ok (fst (cset_insert t rs)) \<and> covers (fst (cset_insert t rs)) = insert t (covers rs))))
    \<and> ranges_ok (fst (cset_erase t rs)) \<and> covers (fst (cset_erase t rs)) = covers rs - {t}
    \<and> snd (cset_erase t rs) = (t \<in> covers rs)
    \<and> cset_contains t rs = (t \<in> covers rs)
    \<and> (if t \<in> covers rs then iter_deref rs (cset_find t rs) = Inr t else cset_find t rs = iter_end rs)
    \<and> cset_size rs = card (covers rs) mod 2 ^ 32
    \<and> (rs \<noteq> [] \<longrightarrow> cset_front rs = Inr (Min (covers rs)) \<and> cset_back rs = Inr (Max (covers rs)))
    \<and> (sorted_wrt (<) xs \<and> (\<forall>x\<in>set xs. x < 2 ^ 64) \<longrightarrow>
        (\<exists>rs'. cset_of_values xs = Inr rs' \<and> ranges_ok rs' \<and> covers rs' = set xs))"
proof -
  have "cset_contains t rs = (t \<in> covers rs)" using find_internal_spec [OF assms, of t]
    by (cases "t \<in> covers rs") (auto simp: cset_contains_def)
  moreover have "\<exists>rs'. cset_of_values xs = Inr rs' \<and> ranges_ok rs' \<and> covers rs' = set xs"
    if "sorted_wrt (<) xs" "\<forall>x\<in>set xs. x < 2 ^ 64"
    using ranges_from_ok [OF that] that(1) by (simp add: cset_of_values_def strict_sorted_iff)
  ultimately show ?thesis
    by (intro conjI impI insert_ok [OF assms, THEN conjunct1] insert_ok [OF assms, THEN conjunct2, THEN conjunct1]
      insert_ok [OF assms, THEN conjunct2, THEN conjunct2] insert_largest [OF assms] erase_ok [OF assms, THEN conjunct1]
      erase_ok [OF assms, THEN conjunct2, THEN conjunct1] erase_ok [OF assms, THEN conjunct2, THEN conjunct2]
      find_ok size_ok ends_ok assms) (assumption | elim conjE)+
qed

theorem contiguous_set_refines_witness:
  "covers (fst (cset_insert 5 [(2, 2), (6, 2), (10, 2)])) = insert 5 (covers [(2, 2), (6, 2), (10, 2)])
    \<and> fst (cset_insert 5 [(2, 2), (6, 2), (10, 2)]) = [(2, 6), (10, 2)]
    \<and> \<not> (ranges_ok (fst (cset_insert (2 ^ 64 - 1) [(2, 2)]))
        \<and> covers (fst (cset_insert (2 ^ 64 - 1) [(2, 2)])) = insert (2 ^ 64 - 1) (covers [(2, 2)]))"
proof -
  have ok: "ranges_ok [(2, 2), (6, 2), (10, 2)]" by (simp add: ranges_ok_Cons)
  have "fst (cset_insert 5 [(2, 2), (6, 2), (10, 2)]) = [(2, 6), (10, 2)]"
    by (simp add: cset_insert_def merge_with_following_def)
  moreover have "covers (fst (cset_insert 5 [(2, 2), (6, 2), (10, 2)])) = insert 5 (covers [(2, 2), (6, 2), (10, 2)])"
    using contiguous_set_refines [OF ok, of 5 "[]"] by simp
  moreover have "ranges_ok [(2, 2)]" by (simp add: ranges_ok_Cons)
  from contiguous_set_refines [OF this, of "2 ^ 64 - 1" "[]"]
  have "\<not> (ranges_ok (fst (cset_insert (2 ^ 64 - 1) [(2, 2)]))
    \<and> covers (fst (cset_insert (2 ^ 64 - 1) [(2, 2)])) = insert (2 ^ 64 - 1) (covers [(2, 2)]))" by blast
  ultimately show ?thesis by blast
qed

text \<open>C14: The iterators walk through the values in increasing order: each stands for a position among them,
  dereferencing gives the value there, the arithmetic moves by as many positions as it is told and the
  difference of two counts those between, as long as it stays on the values; a set made from two
  iterators has the values between them.\<close>

theorem contiguous_set_iterators:
  assumes "ranges_ok rs" and "card (covers rs) < 2 ^ 64" and "iter_ok rs x" and "iter_ok rs y"
  shows "set (elements rs) = covers rs \<and> sorted_wrt (<) (elements rs)
    \<and> position rs (iter_begin rs) = 0 \<and> position rs (iter_end rs) = card (covers rs)
    \<and> (x \<noteq> iter_end rs \<longrightarrow> iter_deref rs x = Inr (elements rs ! position rs x)
        \<and> (\<exists>z. iter_incr rs x = Inr z \<and> iter_ok rs z \<and> position rs z = position rs x + 1))
    \<and> (0 < position rs x \<longrightarrow> (\<exists>z. iter_decr rs x = Inr z \<and> in_range rs z \<and> position rs z + 1 = position rs x))
    \<and> (position rs x + n < card (covers rs) \<longrightarrow>
        (\<exists>z. iter_plus rs n (fst x) (snd x) = Inr z \<and> in_range rs z \<and> position rs z = position rs x + n))
    \<and> (n \<le> position rs x \<longrightarrow>
        (\<exists>z. iter_minus rs n (fst x) (snd x) = Inr z \<and> iter_ok rs z \<and> position rs z + n = position rs x))
    \<and> (position rs y \<le> position rs x \<longrightarrow> iter_distance rs x y = Inr (position rs x - position rs y)
        \<and> (\<exists>rs'. cset_slice rs y x = Inr rs' \<and> ranges_ok rs'
            \<and> elements rs' = drop (position rs y) (take (position rs x) (elements rs))))"
proof -
  have c: "card (covers rs) = count rs" "count rs < 2 ^ 64" using assms(1,2) by (simp_all add: count_card)
  have inr: "in_range rs x" if "x \<noteq> iter_end rs" using assms(3) that by (simp add: iter_ok_def)
  have plus: "\<exists>z. iter_plus rs n (fst x) (snd x) = Inr z \<and> in_range rs z \<and> position rs z = position rs x + n"
    if n: "position rs x + n < count rs"
  proof -
    have "in_range rs x" using n assms(3) position_end [of rs] by (auto simp: iter_ok_def)
    then show ?thesis using plus_ok [of rs "fst x" "snd x" n] n c(2) by simp
  qed
  show ?thesis unfolding c(1)
    by (intro conjI impI set_elements sorted_elements iter_begin_ok(2) position_end deref_ok incr_ok decr_ok plus
      minus_ok [of rs "fst x" "snd x", unfolded prod.collapse] distance_ok slice_ok assms(1,3,4) c(2) inr)
qed

theorem contiguous_set_iterators_witness:
  "iter_distance [(2, 1), (6, 2)] (1, 2) (0, 1) = Inr 3
    \<and> (\<exists>rs'. cset_slice [(2, 1), (6, 2)] (0, 1) (1, 2) = Inr rs' \<and> elements rs' = [3, 6, 7])"
proof -
  let ?rs = "[(2, 1), (6, 2)] :: Ranges"
  have c: "covers ?rs = {2, 3, 6, 7, 8}" by (auto simp: covers_def)
  have ok: "ranges_ok ?rs" "card (covers ?rs) < 2 ^ 64" "iter_ok ?rs (1, 2)" "iter_ok ?rs (0, 1)"
    unfolding c by (simp_all add: ranges_ok_Cons iter_ok_def in_range_def)
  have p: "position ?rs (1, 2) = 4" "position ?rs (0, 1) = 1" by (simp_all add: position_def)
  have e: "drop 1 (take 4 (elements ?rs)) = [3, 6, 7]" by (simp add: elements_def upt_rec)
  show ?thesis using contiguous_set_iterators [OF ok] unfolding p e by auto
qed

text \<open>C39: The binary searches over the iterators end at the right value: the lower bound is the least value
  that is not below the one given, the upper bound the least one above it, or the end if there is none.\<close>

theorem contiguous_set_bounds:
  assumes "ranges_ok rs" and "card (covers rs) < 2 ^ 64"
  shows "\<exists>y z. cset_lower_bound t rs = Inr y \<and> cset_upper_bound t rs = Inr z
    \<and> (if \<exists>x\<in>covers rs. t \<le> x then iter_deref rs y = Inr (Min {x \<in> covers rs. t \<le> x}) else y = iter_end rs)
    \<and> (if \<exists>x\<in>covers rs. t < x then iter_deref rs z = Inr (Min {x \<in> covers rs. t < x}) else z = iter_end rs)"
proof -
  have c: "count rs < 2 ^ 64" using assms by (simp add: count_card)
  note d = distance_whole [OF c]
  have "\<forall>u v. v < t \<and> u \<le> v \<longrightarrow> u < t" "\<forall>u v. \<not> t < v \<and> u \<le> v \<longrightarrow> \<not> t < u" by auto
  from bound_value [OF assms(1) this(1) c d] bound_value [OF assms(1) this(2) c d, unfolded not_not] obtain y z where
    "bound_loop (\<lambda>v. v < t) rs (count rs) (iter_begin rs) = Inr y" "bound_loop (\<lambda>v. \<not> t < v) rs (count rs) (iter_begin rs) = Inr z"
    "if \<exists>x\<in>covers rs. t \<le> x then iter_deref rs y = Inr (Min {x \<in> covers rs. t \<le> x}) else y = iter_end rs"
    "if \<exists>x\<in>covers rs. t < x then iter_deref rs z = Inr (Min {x \<in> covers rs. t < x}) else z = iter_end rs"
    unfolding not_less by blast
  then show ?thesis by (intro exI [of _ y] exI [of _ z]) (simp only: cset_lower_bound_def cset_upper_bound_def d sum.case simp_thms)
qed

theorem contiguous_set_bounds_witness:
  "\<exists>y. cset_lower_bound 4 [(2, 1), (6, 2)] = Inr y \<and> iter_deref [(2, 1), (6, 2)] y = Inr 6"
proof -
  have ok: "ranges_ok [(2, 1), (6, 2)]" by (simp add: ranges_ok_Cons)
  have c: "covers [(2, 1), (6, 2)] = {2, 3, 6, 7, 8}" by (auto simp: covers_def)
  have s: "{x \<in> covers [(2, 1), (6, 2)]. 4 \<le> x} = {6, 7, 8}" by (auto simp: c)
  have "\<exists>x\<in>covers [(2, 1), (6, 2)]. 4 \<le> x" "card (covers [(2, 1), (6, 2)]) < 2 ^ 64" unfolding c by simp_all
  moreover have "Min {6, 7, 8 :: nat} = 6" by simp
  ultimately show ?thesis using contiguous_set_bounds [OF ok, of 4] unfolding s by (simp only: if_True) blast
qed

text \<open>The loop of \<open>extend\<close>.\<close>

lemma extend_loop_ok:
  assumes "ranges_ok rs" and "to + 1 < 2 ^ 64" and "to + 1 - n < fuel"
  shows "\<exists>rs'. extend_loop fuel n to rs = ok rs' \<and> ranges_ok rs' \<and> covers rs' = covers rs \<union> {n..to}"
  using assms
proof (induction fuel n to rs rule: extend_loop.induct)
  case (2 fuel n to rs)
  show ?case
  proof (cases "n \<le> to")
    case True
    then have n: "add64 n 1 = n + 1" "n + 1 < 2 ^ 64" using "2.prems"(2) by simp_all
    have i: "ranges_ok (fst (cset_insert n rs))" "covers (fst (cset_insert n rs)) = insert n (covers rs)"
      using insert_ok [OF "2.prems"(1) n(2)] by auto
    have "{n..to} = insert n {n + 1..to}" using True by auto
    then show ?thesis using "2.IH" [OF True] i n(1) "2.prems"(2,3) True by simp
  qed (insert "2.prems", simp)
qed simp

lemma extend_loop_max: "n \<le> 2 ^ 64 - 1 \<Longrightarrow> \<exists>rs'. extend_loop fuel n (2 ^ 64 - 1) rs = Diverge rs'"
proof (induction fuel arbitrary: n rs)
  case (Suc fuel)
  have "add64 n 1 \<le> 2 ^ 64 - 1" using mod_less_divisor [of "2 ^ 64" "n + 1"] by (simp add: add64_def)
  then show ?case using Suc by simp
qed simp

text \<open>C40: Extending a set by a range that ends below the largest integer ends, and adds the range; by one
  that ends at the largest integer it never ends.\<close>

theorem extend_ends_below_max:
  assumes "ranges_ok rs" and "from + additional < 2 ^ 64"
  shows "if from + additional = 2 ^ 64 - 1 then \<forall>fuel. \<exists>rs'. cset_extend fuel from additional rs = Diverge rs'
    else \<forall>fuel>additional + 1. \<exists>rs'. cset_extend fuel from additional rs = ok rs' \<and> ranges_ok rs'
      \<and> covers rs' = covers rs \<union> {from..from + additional}"
proof -
  have s: "add64 from additional = from + additional" using assms(2) by simp
  show ?thesis
  proof (cases "from + additional = 2 ^ 64 - 1")
    case True
    then show ?thesis using extend_loop_max [of "from"] assms(2) by (simp add: cset_extend_def s)
  next
    case False
    then have "from + additional + 1 < 2 ^ 64" using assms(2) by linarith
    then show ?thesis using False extend_loop_ok [OF assms(1), of "from + additional" "from"] by (simp add: cset_extend_def s)
  qed
qed

theorem extend_ends_below_max_witness:
  "(\<exists>rs'. cset_extend 5 7 2 [(2, 1)] = ok rs' \<and> covers rs' = covers [(2, 1)] \<union> {7..9})
    \<and> (\<forall>fuel. \<exists>rs'. cset_extend fuel (2 ^ 64 - 3) 2 [(2, 1)] = Diverge rs')"
proof -
  have ok: "ranges_ok [(2, 1)]" by (simp add: ranges_ok_Cons)
  have "\<forall>fuel>2 + 1. \<exists>rs'. cset_extend fuel 7 2 [(2, 1)] = ok rs' \<and> ranges_ok rs' \<and> covers rs' = covers [(2, 1)] \<union> {7..7 + 2}"
    using extend_ends_below_max [OF ok, of 7 2] by (simp del: covers_simps)
  then have "\<exists>rs'. cset_extend 5 7 2 [(2, 1)] = ok rs' \<and> ranges_ok rs' \<and> covers rs' = covers [(2, 1)] \<union> {7..7 + 2}" by simp
  moreover have "\<forall>fuel. \<exists>rs'. cset_extend fuel (2 ^ 64 - 3) 2 [(2, 1)] = Diverge rs'"
    using extend_ends_below_max [OF ok, of "2 ^ 64 - 3" 2] by simp
  ultimately show ?thesis by auto
qed

end
