(* ===== verification/Siphash.thy ===== *)
theory Siphash
  imports Serialized
begin

text \<open>
  SipHash (ccf/ds/siphash.h) and the hash of a key of the key-value store built on it
  (ccf/byte_vector.h).
\<close>

unbundle bit_operations_syntax

type_synonym u64 = "64 word"

record SipState =
  s0 :: u64
  s1 :: u64
  s2 :: u64
  s3 :: u64

type_synonym SipKey = "u64 \<times> u64"

datatype OutputLength = EightBytes | SixteenBytes

section \<open>Operations\<close>

definition rotl :: "u64 \<Rightarrow> nat \<Rightarrow> u64" where
  "rotl x b = push_bit b x OR drop_bit (64 - b) x"

definition u32_to_bytes_le :: "32 word \<Rightarrow> byte list" where
  "u32_to_bytes_le v = [ucast v, ucast (drop_bit 8 v), ucast (drop_bit 16 v), ucast (drop_bit 24 v)]"

definition u64_to_bytes_le :: "u64 \<Rightarrow> byte list" where
  "u64_to_bytes_le v = u32_to_bytes_le (ucast v) @ u32_to_bytes_le (ucast (drop_bit 32 v))"

definition bytes_to_64_le :: "byte list \<Rightarrow> u64" where
  "bytes_to_64_le b =
     ucast (b ! 0) OR push_bit 8 (ucast (b ! 1)) OR push_bit 16 (ucast (b ! 2)) OR push_bit 24 (ucast (b ! 3))
     OR push_bit 32 (ucast (b ! 4)) OR push_bit 40 (ucast (b ! 5)) OR push_bit 48 (ucast (b ! 6))
     OR push_bit 56 (ucast (b ! 7))"

text \<open>One turn of the loop of \<open>sip_rounds\<close>, statement by statement.\<close>

definition sip_round :: "SipState \<Rightarrow> SipState" where
  "sip_round s =
     (let s = s\<lparr>s0 := s0 s + s1 s\<rparr>;
          s = s\<lparr>s1 := rotl (s1 s) 13\<rparr>;
          s = s\<lparr>s1 := s1 s XOR s0 s\<rparr>;
          s = s\<lparr>s0 := rotl (s0 s) 32\<rparr>;
          s = s\<lparr>s2 := s2 s + s3 s\<rparr>;
          s = s\<lparr>s3 := rotl (s3 s) 16\<rparr>;
          s = s\<lparr>s3 := s3 s XOR s2 s\<rparr>;
          s = s\<lparr>s0 := s0 s + s3 s\<rparr>;
          s = s\<lparr>s3 := rotl (s3 s) 21\<rparr>;
          s = s\<lparr>s3 := s3 s XOR s0 s\<rparr>;
          s = s\<lparr>s2 := s2 s + s1 s\<rparr>;
          s = s\<lparr>s1 := rotl (s1 s) 17\<rparr>;
          s = s\<lparr>s1 := s1 s XOR s2 s\<rparr>
      in s\<lparr>s2 := rotl (s2 s) 32\<rparr>)"

definition sip_rounds :: "SipState \<Rightarrow> nat \<Rightarrow> SipState" where
  "sip_rounds s rounds = (sip_round ^^ rounds) s"

definition sip_absorb :: "nat \<Rightarrow> u64 \<Rightarrow> SipState \<Rightarrow> SipState" where
  "sip_absorb rounds m s =
     (let s = s\<lparr>s3 := s3 s XOR m\<rparr>;
          s = sip_rounds s rounds
      in s\<lparr>s0 := s0 s XOR m\<rparr>)"

text \<open>The loop over the blocks of eight bytes; the result is the state and the bytes that are left.\<close>

fun sip_blocks :: "nat \<Rightarrow> byte list \<Rightarrow> SipState \<Rightarrow> SipState \<times> byte list" where
  "sip_blocks rounds (b0 # b1 # b2 # b3 # b4 # b5 # b6 # b7 # rest) s =
     sip_blocks rounds rest (sip_absorb rounds (bytes_to_64_le [b0, b1, b2, b3, b4, b5, b6, b7]) s)"
| "sip_blocks rounds left s = (s, left)"

text \<open>The switch that falls through, on the bytes that are left.\<close>

definition sip_last :: "nat \<Rightarrow> byte list \<Rightarrow> u64" where
  "sip_last in_len left =
     fold (\<lambda>i b. b OR push_bit (8 * i) (ucast (left ! i))) (rev [0 ..< length left])
       (push_bit 56 (word_of_nat in_len))"

definition sip_out :: "SipState \<Rightarrow> u64" where
  "sip_out s = s0 s XOR s1 s XOR s2 s XOR s3 s"

definition siphash_raw :: "nat \<Rightarrow> nat \<Rightarrow> OutputLength \<Rightarrow> byte list \<Rightarrow> SipKey \<Rightarrow> byte list" where
  "siphash_raw compression finalization out_size inp key =
     (let s = \<lparr>s0 = 0x736f6d6570736575, s1 = 0x646f72616e646f6d, s2 = 0x6c7967656e657261,
               s3 = 0x7465646279746573\<rparr>;
          (k0, k1) = key;
          s = \<lparr>s0 = s0 s XOR k0, s1 = s1 s XOR k1, s2 = s2 s XOR k0, s3 = s3 s XOR k1\<rparr>;
          s = (if out_size = SixteenBytes then s\<lparr>s1 := s1 s XOR 0xee\<rparr> else s);
          (s, left) = sip_blocks compression inp s;
          s = sip_absorb compression (sip_last (length inp) left) s;
          s = s\<lparr>s2 := s2 s XOR (if out_size = SixteenBytes then 0xee else 0xff)\<rparr>;
          s = sip_rounds s finalization;
          out = u64_to_bytes_le (sip_out s)
      in if out_size = EightBytes then out
         else let s = s\<lparr>s1 := s1 s XOR 0xdd\<rparr>;
                  s = sip_rounds s finalization
              in out @ u64_to_bytes_le (sip_out s))"

text \<open>The output is written through a pointer to a \<open>uint64_t\<close> of a little-endian machine.\<close>

definition siphash :: "nat \<Rightarrow> nat \<Rightarrow> byte list \<Rightarrow> SipKey \<Rightarrow> u64" where
  "siphash compression finalization inp key =
     word_of_nat (le_value (siphash_raw compression finalization EightBytes inp key))"

text \<open>\<open>std::hash<ByteVector>\<close>; a CHAMP map keeps the low 32 bits of it.\<close>

definition byte_vector_hash :: "byte list \<Rightarrow> u64" where
  "byte_vector_hash v = siphash 2 4 v (0x7720796f726c694b, 0x2165726568207361)"

definition kv_hash :: "byte list \<Rightarrow> 32 word" where
  "kv_hash v = ucast (byte_vector_hash v)"

lemma sip_rounds_eval: "sip_rounds s 2 = sip_round (sip_round s)"
  "sip_rounds s 4 = sip_round (sip_round (sip_round (sip_round s)))"
  by (simp_all add: sip_rounds_def numeral_eq_Suc)

lemma sip_round_vector:
  "sip_round \<lparr>s0 = 0x7469686173716475, s1 = 0x6b617f6d656e6665, s2 = 0x6b7f62616d677361, s3 = 0x7b6b696e727e6c7b\<rparr>
    = \<lparr>s0 = 0x6864848c93698c85, s1 = 0x41d43f143c94a7dc, s2 = 0xf3f94792d7121732, s3 = 0x5e52f75805987c12\<rparr>"
  "sip_round \<lparr>s0 = 0x6864848c93698c85, s1 = 0x41d43f143c94a7dc, s2 = 0xf3f94792d7121732, s3 = 0x5e52f75805987c12\<rparr>
    = \<lparr>s0 = 0x75126fd44af190b6, s1 = 0x84235164f06142b, s2 = 0x37b04f9f8026831d, s3 = 0x1b4678cde8253231\<rparr>"
  "sip_round \<lparr>s0 = 0x75126fd44af190b6, s1 = 0x84235164f06142b, s2 = 0x37b04f9f802683e2, s3 = 0x1b4678cde8253231\<rparr>
    = \<lparr>s0 = 0xc432c529d7cf523f, s1 = 0x54f98392486c0c10, s2 = 0xc3be7bfc8eed3577, s3 = 0xcd398a7c7d6a155b\<rparr>"
  "sip_round \<lparr>s0 = 0xc432c529d7cf523f, s1 = 0x54f98392486c0c10, s2 = 0xc3be7bfc8eed3577, s3 = 0xcd398a7c7d6a155b\<rparr>
    = \<lparr>s0 = 0x3abfd9623238d0a7, s1 = 0xb9354b5807b0cd1e, s2 = 0xae109fa2ba56082a, s3 = 0x58dcf8f2cf5b8028\<rparr>"
  "sip_round \<lparr>s0 = 0x3abfd9623238d0a7, s1 = 0xb9354b5807b0cd1e, s2 = 0xae109fa2ba56082a, s3 = 0x58dcf8f2cf5b8028\<rparr>
    = \<lparr>s0 = 0x3808f593fd8ef548, s1 = 0x2913fc753c3d6609, s2 = 0xa9fbd335618bbce1, s3 = 0xc1c9c6a9ec5136a2\<rparr>"
  "sip_round \<lparr>s0 = 0x3808f593fd8ef548, s1 = 0x2913fc753c3d6609, s2 = 0xa9fbd335618bbce1, s3 = 0xc1c9c6a9ec5136a2\<rparr>
    = \<lparr>s0 = 0xe738d0dfdc9b2453, s1 = 0x214ac5771e0c4cd2, s2 = 0xe2ea71f68a57ef6d, s3 = 0x56f7bf1995ce89dd\<rparr>"
  by (simp_all add: sip_round_def Let_def rotl_def)

lemma siphash_vector: "siphash 2 4 [] (0x0706050403020100, 0x0f0e0d0c0b0a0908) = 0x726fdb47dd0e0e31"
  by (simp add: siphash_def siphash_raw_def sip_last_def sip_absorb_def sip_rounds_eval sip_round_vector
      sip_out_def u64_to_bytes_le_def u32_to_bytes_le_def)

section \<open>The rounds as a permutation\<close>

lemma bit_rotl:
  assumes "b < 64" and "i < 64"
  shows "bit (rotl x b) i \<longleftrightarrow> bit x (if b \<le> i then i - b else 64 - b + i)"
  using assms by (auto simp: rotl_def bit_simps dest: bit_imp_le_length)

lemma rotl_rotl: "0 < b \<Longrightarrow> b < 64 \<Longrightarrow> rotl (rotl x b) (64 - b) = x"
  by (rule bit_word_eqI) (auto simp: bit_rotl)

lemmas rotl_inverse = rotl_rotl [of 13, simplified] rotl_rotl [of 16, simplified] rotl_rotl [of 17, simplified]
  rotl_rotl [of 21, simplified] rotl_rotl [of 32, simplified] rotl_rotl [of 51, simplified]
  rotl_rotl [of 48, simplified] rotl_rotl [of 47, simplified] rotl_rotl [of 43, simplified]

text \<open>The statements of a round undone in reverse order.\<close>

definition sip_unround :: "SipState \<Rightarrow> SipState" where
  "sip_unround s =
     (let s = s\<lparr>s2 := rotl (s2 s) 32\<rparr>;
          s = s\<lparr>s1 := s1 s XOR s2 s\<rparr>;
          s = s\<lparr>s1 := rotl (s1 s) 47\<rparr>;
          s = s\<lparr>s2 := s2 s - s1 s\<rparr>;
          s = s\<lparr>s3 := s3 s XOR s0 s\<rparr>;
          s = s\<lparr>s3 := rotl (s3 s) 43\<rparr>;
          s = s\<lparr>s0 := s0 s - s3 s\<rparr>;
          s = s\<lparr>s3 := s3 s XOR s2 s\<rparr>;
          s = s\<lparr>s3 := rotl (s3 s) 48\<rparr>;
          s = s\<lparr>s2 := s2 s - s3 s\<rparr>;
          s = s\<lparr>s0 := rotl (s0 s) 32\<rparr>;
          s = s\<lparr>s1 := s1 s XOR s0 s\<rparr>;
          s = s\<lparr>s1 := rotl (s1 s) 51\<rparr>
      in s\<lparr>s0 := s0 s - s1 s\<rparr>)"

lemma xor_twice: "(a XOR b) XOR b = a" for a b :: u64
  by (simp add: xor.assoc)

lemma sip_unround_round: "sip_unround (sip_round s) = s"
  by (cases s) (simp add: sip_unround_def sip_round_def Let_def xor_twice rotl_inverse)

lemma sip_round_unround: "sip_round (sip_unround s) = s"
  by (cases s) (simp add: sip_unround_def sip_round_def Let_def xor_twice rotl_inverse)

lemma bij_sip_round: "bij sip_round"
  by (rule o_bij [of sip_unround]) (simp_all add: fun_eq_iff sip_unround_round sip_round_unround)

lemma bij_sip_rounds: "bij (\<lambda>s. sip_rounds s n)"
proof -
  have "(\<lambda>s. sip_rounds s n) = sip_round ^^ n" by (rule ext) (simp add: sip_rounds_def)
  moreover have "bij (sip_round ^^ n)" by (rule bij_fn [OF bij_sip_round])
  ultimately show ?thesis by simp
qed

lemma bij_xor_s3: "bij (\<lambda>s. s\<lparr>s3 := s3 s XOR m\<rparr> :: SipState)"
  by (rule o_bij [of "\<lambda>s. s\<lparr>s3 := s3 s XOR m\<rparr>"]) (simp_all add: fun_eq_iff xor_twice)

lemma bij_xor_s0: "bij (\<lambda>s. s\<lparr>s0 := s0 s XOR m\<rparr> :: SipState)"
  by (rule o_bij [of "\<lambda>s. s\<lparr>s0 := s0 s XOR m\<rparr>"]) (simp_all add: fun_eq_iff xor_twice)

lemma bij_sip_absorb: "bij (sip_absorb n m)"
proof -
  have "sip_absorb n m = (\<lambda>s. s\<lparr>s0 := s0 s XOR m\<rparr>) \<circ> (\<lambda>s. sip_rounds s n) \<circ> (\<lambda>s. s\<lparr>s3 := s3 s XOR m\<rparr>)"
    by (rule ext) (simp add: sip_absorb_def Let_def)
  then show ?thesis by (simp only: bij_comp bij_xor_s3 bij_xor_s0 bij_sip_rounds)
qed

lemma bij_sip_blocks: "bij (\<lambda>s. fst (sip_blocks n inp s))"
proof (induction inp rule: length_induct)
  case (1 inp)
  show ?case
  proof (cases "\<exists>b0 b1 b2 b3 b4 b5 b6 b7 rest. inp = b0 # b1 # b2 # b3 # b4 # b5 # b6 # b7 # rest")
    case True
    then obtain b0 b1 b2 b3 b4 b5 b6 b7 rest where i: "inp = b0 # b1 # b2 # b3 # b4 # b5 # b6 # b7 # rest" by blast
    have "bij (\<lambda>s. fst (sip_blocks n rest s))" using 1 by (simp add: i)
    from bij_comp [OF bij_sip_absorb this] show ?thesis by (simp add: i comp_def)
  next
    case False
    then have "sip_blocks n inp s = (s, inp)" for s
      by (cases "(n, inp, s)" rule: sip_blocks.cases) auto
    then show ?thesis by (simp add: bij_def inj_on_def)
  qed
qed

text \<open>SipHash loses nothing before its last step: the rounds, the absorption of one block and
  of any message are permutations of the internal state, so that a chosen message cannot drive two
  different keys into the same state. The first vector of the reference implementation comes out.\<close>

theorem siphash_permutes:
  "bij (\<lambda>s. sip_rounds s n) \<and> bij (sip_absorb n m) \<and> bij (\<lambda>s. fst (sip_blocks n inp s))
    \<and> siphash 2 4 [] (0x0706050403020100, 0x0f0e0d0c0b0a0908) = 0x726fdb47dd0e0e31"
  using bij_sip_rounds bij_sip_absorb bij_sip_blocks siphash_vector by blast

end
