(* ===== verification/Kv_Map.thy ===== *)
theory Kv_Map
  imports Champ_Map Siphash "HOL-Library.List_Lexorder"
begin

text \<open>
  One map of the transactional key-value store: change sets and the handles over them
  (kv/untyped_change_set.h, kv/untyped_map_handle.cpp) and the versioned map with its roll of
  local commits (kv/untyped_map.h). \<open>std::map\<close>s are association lists in the order of their
  keys. A version is a \<open>uint64_t\<close>, the version of a key an \<open>int64_t\<close> that is negative when
  the key is deleted.
\<close>

section \<open>Data\<close>

type_synonym Key = "byte list"
type_synonym Value = "byte list"
type_synonym DeletableVersion = int

definition is_deleted :: "DeletableVersion \<Rightarrow> bool" where
  "is_deleted v \<longleftrightarrow> v < 0"

text \<open>\<open>static_cast<DeletableVersion>\<close>\<close>

definition to_deletable :: "Version \<Rightarrow> DeletableVersion" where
  "to_deletable v = (if v < 2 ^ 63 then int v else int v - 2 ^ 64)"

record VersionV =
  vv_version :: DeletableVersion
  vv_read_version :: Version
  vv_value :: Value

definition key_size :: "Key \<Rightarrow> nat" where
  "key_size k = 8 + length k"

definition versionv_size :: "VersionV \<Rightarrow> nat" where
  "versionv_size t = 8 + 8 + length (vv_value t)"

type_synonym kv_state = "(Key, VersionV) champ_map"

definition state_get :: "kv_state \<Rightarrow> Key \<Rightarrow> VersionV option" where
  "state_get = champ_get kv_hash"

definition state_put :: "Key \<Rightarrow> VersionV \<Rightarrow> kv_state \<Rightarrow> kv_state" where
  "state_put = champ_put kv_hash key_size versionv_size"

type_synonym Write = "(Key \<times> Value option) list"
type_synonym Read = "(Key \<times> (DeletableVersion \<times> Version)) list"

record ChangeSet =
  cs_rollback_counter :: nat
  cs_state :: kv_state
  cs_committed :: kv_state
  start_version :: Version
  read_version :: Version
  reads :: Read
  writes :: Write

definition make_change_set :: "nat \<Rightarrow> kv_state \<Rightarrow> kv_state \<Rightarrow> Version \<Rightarrow> ChangeSet" where
  "make_change_set rollbacks current committed v =
     \<lparr>cs_rollback_counter = rollbacks, cs_state = current, cs_committed = committed,
      start_version = v, read_version = NoVersion, reads = [], writes = []\<rparr>"

definition has_writes :: "ChangeSet \<Rightarrow> bool" where
  "has_writes cs \<longleftrightarrow> writes cs \<noteq> []"

record SnapshotChangeSet =
  ss_state :: kv_state
  ss_version :: Version

section \<open>Handles\<close>

text \<open>\<open>reads.insert\<close> keeps what is there.\<close>

definition insert_read :: "Key \<Rightarrow> DeletableVersion \<times> Version \<Rightarrow> Read \<Rightarrow> Read" where
  "insert_read k r rs = (if k \<in> set (al_keys rs) then rs else upd_sorted k r rs)"

definition erase_key :: "Key \<Rightarrow> Write \<Rightarrow> Write" where
  "erase_key k w = filter (\<lambda>p. fst p \<noteq> k) w"

text \<open>The dependency both readers of the state record.\<close>

definition read_state :: "Key \<Rightarrow> ChangeSet \<Rightarrow> ChangeSet \<times> VersionV option" where
  "read_state key cs =
     (case state_get (cs_state cs) key of
        None \<Rightarrow> (cs\<lparr>reads := insert_read key (int NoVersion, NoVersion) (reads cs)\<rparr>, None)
      | Some search \<Rightarrow>
          (cs\<lparr>reads := insert_read key (vv_version search, vv_read_version search) (reads cs)\<rparr>,
           if is_deleted (vv_version search) then None else Some search))"

definition read_key :: "Key \<Rightarrow> ChangeSet \<Rightarrow> ChangeSet \<times> Value option" where
  "read_key key cs =
     (case map_of (writes cs) key of
        Some w \<Rightarrow> (cs, w)
      | None \<Rightarrow> (let (cs, r) = read_state key cs in (cs, map_option vv_value r)))"

definition handle_get :: "Key \<Rightarrow> ChangeSet \<Rightarrow> ChangeSet \<times> Value option" where
  "handle_get key cs = read_key key cs"

definition handle_has :: "Key \<Rightarrow> ChangeSet \<Rightarrow> ChangeSet \<times> bool" where
  "handle_has key cs = (let (cs, v) = read_key key cs in (cs, v \<noteq> None))"

definition get_version_of_previous_write :: "Key \<Rightarrow> ChangeSet \<Rightarrow> ChangeSet \<times> Version option" where
  "get_version_of_previous_write key cs =
     (let (cs, r) = read_state key cs in (cs, map_option (\<lambda>s. nat (vv_version s)) r))"

definition get_globally_committed :: "Key \<Rightarrow> ChangeSet \<Rightarrow> Value option" where
  "get_globally_committed key cs =
     (case state_get (cs_committed cs) key of
        None \<Rightarrow> None
      | Some found \<Rightarrow> if is_deleted (vv_version found) then None else Some (vv_value found))"

definition handle_put :: "Key \<Rightarrow> Value \<Rightarrow> ChangeSet \<Rightarrow> ChangeSet" where
  "handle_put key v cs = cs\<lparr>writes := upd_sorted key (Some v) (writes cs)\<rparr>"

definition handle_remove :: "Key \<Rightarrow> ChangeSet \<Rightarrow> ChangeSet \<times> bool" where
  "handle_remove key cs =
     (let exists_in_state = state_get (cs_state cs) key \<noteq> None in
      if key \<in> set (al_keys (writes cs))
      then (if \<not> exists_in_state then cs\<lparr>writes := erase_key key (writes cs)\<rparr>
            else cs\<lparr>writes := upd_sorted key None (writes cs)\<rparr>, True)
      else if \<not> exists_in_state then (cs, False)
      else (cs\<lparr>writes := upd_sorted key None (writes cs)\<rparr>, True))"

text \<open>
  Iteration. The callback gets the change set, which it may change through a handle, and a
  state of its own; it answers whether to go on.
\<close>

type_synonym 's visitor = "Key \<Rightarrow> Value \<Rightarrow> ChangeSet \<times> 's \<Rightarrow> (ChangeSet \<times> 's) \<times> bool"

fun foreach_writes :: "'s visitor \<Rightarrow> Write \<Rightarrow> ChangeSet \<times> 's \<Rightarrow> bool \<Rightarrow> (ChangeSet \<times> 's) \<times> bool" where
  "foreach_writes f [] x continue = (x, continue)"
| "foreach_writes f ((k, vo) # w) x continue =
     (let (x, continue) = (case vo of Some v \<Rightarrow> f k v x | None \<Rightarrow> (x, continue))
      in if continue then foreach_writes f w x continue else (x, continue))"

definition foreach_state_and_writes :: "'s visitor \<Rightarrow> bool \<Rightarrow> ChangeSet \<times> 's \<Rightarrow> ChangeSet \<times> 's" where
  "foreach_state_and_writes f always_consider_writes x =
     (let (cs, s) = x;
          cs = cs\<lparr>read_version := start_version cs\<rparr>;
          w = writes cs;
          (x, continue) =
            foreach_list
              (\<lambda>k v x. if map_of w k = None \<and> \<not> is_deleted (vv_version v) then f k (vv_value v) x
                       else (x, True))
              (map_entries (cs_state cs)) (cs, s)
      in if always_consider_writes \<or> continue then fst (foreach_writes f w x continue) else x)"

definition handle_foreach :: "'s visitor \<Rightarrow> ChangeSet \<times> 's \<Rightarrow> ChangeSet \<times> 's" where
  "handle_foreach f x = foreach_state_and_writes f False x"

definition remove_visitor :: "unit visitor" where
  "remove_visitor k v x = ((fst (handle_remove k (fst x)), snd x), True)"

definition handle_clear :: "ChangeSet \<Rightarrow> ChangeSet" where
  "handle_clear cs = fst (handle_foreach remove_visitor (cs, ()))"

definition count_visitor :: "nat visitor" where
  "count_visitor k v x = ((fst x, snd x + 1), True)"

definition handle_size :: "ChangeSet \<Rightarrow> ChangeSet \<times> nat" where
  "handle_size cs = handle_foreach count_visitor (cs, 0)"

text \<open>\<open>range\<close> with a hash map as the state; the value is the list of the entries it visits.\<close>

definition range_visitor :: "Key \<Rightarrow> Key \<Rightarrow> (Key \<times> Value) list visitor" where
  "range_visitor from to k v x =
     (if k < from then (x, True)
      else if k = to \<or> to < k then (x, True)
      else ((fst x, upd_sorted k v (snd x)), True))"

definition handle_range :: "Key \<Rightarrow> Key \<Rightarrow> ChangeSet \<Rightarrow> ChangeSet \<times> (Key \<times> Value) list" where
  "handle_range from to cs =
     (if from = to \<or> to < from then (cs, [])
      else foreach_state_and_writes (range_visitor from to) True (cs, []))"

section \<open>The roll of local commits\<close>

record LocalCommit =
  lc_version :: Version
  lc_state :: kv_state
  lc_writes :: Write

record Roll =
  commits :: "LocalCommit list"
  rollback_counter :: nat

datatype SecurityDomain = PUBLIC | PRIVATE

text \<open>Of the hooks only their presence is part of the map; what they are called with are results.\<close>

record kv_map =
  map_name :: string
  roll :: Roll
  global_hook :: bool
  map_hook :: bool
  commit_deltas :: "(Version \<times> Write) list"
  security_domain :: SecurityDomain
  replicated :: bool

definition initial_commit :: LocalCommit where
  "initial_commit = \<lparr>lc_version = 0, lc_state = champ_empty, lc_writes = []\<rparr>"

definition reset_commits :: "Roll \<Rightarrow> Roll" where
  "reset_commits r = r\<lparr>commits := [initial_commit]\<rparr>"

definition new_map :: "string \<Rightarrow> SecurityDomain \<Rightarrow> bool \<Rightarrow> kv_map" where
  "new_map name domain repl =
     \<lparr>map_name = name, roll = reset_commits \<lparr>commits = [], rollback_counter = 0\<rparr>,
      global_hook = False, map_hook = False, commit_deltas = [], security_domain = domain,
      replicated = repl\<rparr>"

definition get_tail :: "kv_map \<Rightarrow> LocalCommit" where
  "get_tail m = last (commits (roll m))"

definition get_head :: "kv_map \<Rightarrow> LocalCommit" where
  "get_head m = hd (commits (roll m))"

definition insert_back :: "LocalCommit \<Rightarrow> kv_map \<Rightarrow> kv_map" where
  "insert_back c m = m\<lparr>roll := (roll m)\<lparr>commits := commits (roll m) @ [c]\<rparr>\<rparr>"

section \<open>Committing a change set\<close>

definition read_still_valid :: "bool \<Rightarrow> kv_state \<Rightarrow> Key \<times> (DeletableVersion \<times> Version) \<Rightarrow> bool" where
  "read_still_valid track_read_versions current r =
     (let (k, (version, rv)) = r; search = state_get current k in
      if version = int NoVersion then search = None
      else (case search of
         None \<Rightarrow> False
       | Some s \<Rightarrow> version = vv_version s \<and> (track_read_versions \<longrightarrow> rv = vv_read_version s)))"

definition prepare :: "bool \<Rightarrow> kv_map \<Rightarrow> ChangeSet \<Rightarrow> bool" where
  "prepare track_read_versions m cs =
     (if writes cs = [] then True
      else if cs_rollback_counter cs \<noteq> rollback_counter (roll m) then False
      else if read_version cs \<noteq> NoVersion \<and> read_version cs \<noteq> lc_version (get_tail m) then False
      else list_all (read_still_valid track_read_versions (lc_state (get_tail m))) (reads cs))"

definition track_reads :: "Version \<Rightarrow> Read \<Rightarrow> kv_state \<Rightarrow> kv_state" where
  "track_reads v rs state =
     fold (\<lambda>(k, r) state. case state_get state k of
             None \<Rightarrow> state
           | Some search \<Rightarrow> state_put k (search\<lparr>vv_read_version := v\<rparr>) state) rs state"

definition apply_write :: "Version \<Rightarrow> Key \<times> Value option \<Rightarrow> kv_state \<times> bool \<Rightarrow> kv_state \<times> bool" where
  "apply_write v w x =
     (let (k, vo) = w; (state, changes) = x in
      case vo of
        Some value \<Rightarrow>
          (state_put k \<lparr>vv_version = to_deletable v, vv_read_version = v, vv_value = value\<rparr> state, True)
      | None \<Rightarrow>
          (case state_get state k of
             None \<Rightarrow> (state, changes)
           | Some search \<Rightarrow>
               (state_put k \<lparr>vv_version = - to_deletable v, vv_read_version = v, vv_value = []\<rparr> state,
                True)))"

text \<open>\<open>HandleCommitter::commit\<close>: the map, the commit version and the flag \<open>committed_writes\<close>.\<close>

definition handle_commit :: "Version \<Rightarrow> bool \<Rightarrow> kv_map \<Rightarrow> ChangeSet \<Rightarrow> kv_map \<times> Version \<times> bool" where
  "handle_commit v track_read_versions m cs =
     (if writes cs = [] \<and> \<not> track_read_versions then (m, start_version cs, False)
      else
        let state = lc_state (get_tail m);
            state = (if track_read_versions then track_reads v (reads cs) state else state)
        in if track_read_versions \<and> writes cs = []
           then (insert_back \<lparr>lc_version = start_version cs, lc_state = state, lc_writes = writes cs\<rparr> m,
                 start_version cs, False)
           else
             let (state, changes) = fold (apply_write v) (writes cs) (state, False)
             in (if changes
                 then insert_back \<lparr>lc_version = v, lc_state = state, lc_writes = writes cs\<rparr> m else m,
                 v, True))"

text \<open>The call of the map hook a transaction collects, if there is one.\<close>

definition trigger_map_hook :: "Version \<Rightarrow> Write \<Rightarrow> kv_map \<Rightarrow> (string \<times> Version \<times> Write) option" where
  "trigger_map_hook v w m = (if map_hook m \<and> w \<noteq> [] then Some (map_name m, v, w) else None)"

definition snapshot_writes :: "kv_state \<Rightarrow> Write" where
  "snapshot_writes s =
     fold (\<lambda>(k, v). upd_sorted k (if is_deleted (vv_version v) then None else Some (vv_value v)))
       (map_entries s) []"

definition snapshot_commit :: "kv_map \<Rightarrow> SnapshotChangeSet \<Rightarrow> kv_map" where
  "snapshot_commit m ss =
     m\<lparr>roll := \<lparr>commits = [\<lparr>lc_version = ss_version ss, lc_state = ss_state ss,
                             lc_writes = (if map_hook m \<or> global_hook m
                                          then snapshot_writes (ss_state ss) else [])\<rparr>],
                rollback_counter = rollback_counter (roll m) + 1\<rparr>\<rparr>"

section \<open>Versions of the map\<close>

definition commit_at :: "Version \<Rightarrow> kv_map \<Rightarrow> LocalCommit option" where
  "commit_at v m = find (\<lambda>c. lc_version c \<le> v) (rev (commits (roll m)))"

text \<open>\<open>None\<close> is the null pointer of a version earlier than everything in the roll.\<close>

definition create_change_set :: "Version \<Rightarrow> kv_map \<Rightarrow> ChangeSet option" where
  "create_change_set v m =
     map_option (\<lambda>c. make_change_set (rollback_counter (roll m)) (lc_state c)
       (lc_state (get_head m)) (lc_version c)) (commit_at v m)"

text \<open>Version and state of a snapshot, which falls back on the oldest commit.\<close>

definition map_snapshot :: "Version \<Rightarrow> kv_map \<Rightarrow> Version \<times> kv_state" where
  "map_snapshot v m =
     (let c = (case commit_at v m of None \<Rightarrow> get_head m | Some c \<Rightarrow> c) in (lc_version c, lc_state c))"

text \<open>
  \<open>compact\<close> moves write sets out of the roll; a \<open>std::map\<close> is empty after its contents have
  been moved. The result is the roll and the deltas for the global hook.
\<close>

fun compact_commits :: "bool \<Rightarrow> Version \<Rightarrow> LocalCommit list \<Rightarrow> LocalCommit list \<times> (Version \<times> Write) list" where
  "compact_commits hook v (r # r' # rs) =
     (if lc_version r = v
      then if hook then (r\<lparr>lc_writes := []\<rparr> # r' # rs, [(lc_version r, lc_writes r)]) else (r # r' # rs, [])
      else
        let (r, deltas) = (if hook \<and> lc_writes r \<noteq> []
                           then (r\<lparr>lc_writes := []\<rparr>, [(lc_version r, lc_writes r)]) else (r, []))
        in if lc_version r' > v then (r # r' # rs, deltas)
           else let (commits, deltas') = compact_commits hook v (r' # rs) in (commits, deltas @ deltas'))"
| "compact_commits hook v [r] =
     (if hook \<and> lc_writes r \<noteq> [] then ([r\<lparr>lc_writes := []\<rparr>], [(lc_version r, lc_writes r)]) else ([r], []))"
| "compact_commits hook v [] = ([], [])"

definition map_compact :: "Version \<Rightarrow> kv_map \<Rightarrow> kv_map" where
  "map_compact v m =
     (let (cs, deltas) = compact_commits (global_hook m) v (commits (roll m))
      in m\<lparr>roll := (roll m)\<lparr>commits := cs\<rparr>, commit_deltas := commit_deltas m @ deltas\<rparr>)"

text \<open>The map afterwards, and the calls of the global hook.\<close>

definition post_compact :: "kv_map \<Rightarrow> kv_map \<times> (Version \<times> Write) list" where
  "post_compact m = (m\<lparr>commit_deltas := []\<rparr>, if global_hook m then commit_deltas m else [])"

text \<open>\<open>pop_tail\<close> until the last commit is at most \<open>v\<close> or the only one; the newest comes first here.\<close>

fun pop_above :: "Version \<Rightarrow> LocalCommit list \<Rightarrow> LocalCommit list" where
  "pop_above v (r # r' # rs) = (if lc_version r \<le> v then r # r' # rs else pop_above v (r' # rs))"
| "pop_above v rs = rs"

definition map_rollback :: "Version \<Rightarrow> kv_map \<Rightarrow> kv_map" where
  "map_rollback v m =
     (let old = commits (roll m); new = rev (pop_above v (rev old)) in
      m\<lparr>roll := \<lparr>commits = new,
                rollback_counter = rollback_counter (roll m) + (if length new < length old then 1 else 0)\<rparr>\<rparr>)"

definition map_clear :: "kv_map \<Rightarrow> kv_map" where
  "map_clear m = m\<lparr>roll := (reset_commits (roll m))\<lparr>rollback_counter := 0\<rparr>\<rparr>"

definition map_swap :: "kv_map \<Rightarrow> kv_map \<Rightarrow> kv_map \<times> kv_map" where
  "map_swap m m' = (m\<lparr>roll := roll m'\<rparr>, m'\<lparr>roll := roll m\<rparr>)"

text \<open>\<open>operator==\<close>\<close>

definition map_equal :: "kv_map \<Rightarrow> kv_map \<Rightarrow> bool" where
  "map_equal m m' =
     (let c = get_tail m; c' = get_tail m' in
      if map_name m \<noteq> map_name m' then False
      else if lc_version c \<noteq> lc_version c' then False
      else
        let count = length (map_entries (lc_state c'));
            (i, ok) = foreach_list
              (\<lambda>k v i. case state_get (lc_state c') k of
                 None \<Rightarrow> (i, False)
               | Some found \<Rightarrow>
                   if vv_version found \<noteq> vv_version v then (i, False)
                   else if vv_value found \<noteq> vv_value v then (i, False)
                   else (i + 1, True)) (map_entries (lc_state c)) 0
        in if i \<noteq> count then False else ok)"

end
