(* ===== verification/Kv_Handles.thy ===== *)
theory Kv_Handles
  imports Kv_Map
begin

text \<open>
  What a transaction sees through its handles: the state it started from under its own writes.
\<close>

section \<open>States\<close>

interpretation kvs: persistent_map "champ_inv kv_hash" champ_empty state_get state_put map_entries
  unfolding state_get_def state_put_def by (rule champ.persistent_map_axioms)

definition visible :: "kv_state \<Rightarrow> Key \<Rightarrow> Value option" where
  "visible s k =
     (case state_get s k of
        None \<Rightarrow> None
      | Some v \<Rightarrow> if is_deleted (vv_version v) then None else Some (vv_value v))"

definition view :: "ChangeSet \<Rightarrow> Key \<Rightarrow> Value option" where
  "view cs k = (case map_of (writes cs) k of Some w \<Rightarrow> w | None \<Rightarrow> visible (cs_state cs) k)"

definition cs_ok :: "ChangeSet \<Rightarrow> bool" where
  "cs_ok cs \<longleftrightarrow> champ_inv kv_hash (cs_state cs) \<and> sorted_wrt (<) (al_keys (writes cs))"

lemma sorted_keys_distinct: "sorted_wrt (<) (al_keys m) \<Longrightarrow> distinct (al_keys m)"
  for m :: "('k::linorder \<times> 'v) list"
  by (simp add: strict_sorted_iff)

lemma cs_ok_make: "champ_inv kv_hash s \<Longrightarrow> cs_ok (make_change_set n s c v)"
  by (simp add: cs_ok_def make_change_set_def)

section \<open>Reading and writing\<close>

lemma map_of_erase_key: "map_of (erase_key k w) = (map_of w)(k := None)"
  by (induction w) (auto simp: erase_key_def fun_eq_iff)

lemma keys_erase_key: "al_keys (erase_key k w) = filter (\<lambda>x. x \<noteq> k) (al_keys w)"
  by (induction w) (auto simp: erase_key_def)

lemma sorted_erase_key: "sorted_wrt (<) (al_keys w) \<Longrightarrow> sorted_wrt (<) (al_keys (erase_key k w))"
  by (simp add: keys_erase_key sorted_wrt_filter)

lemma read_state_fields [simp]:
  "writes (fst (read_state k cs)) = writes cs" "cs_state (fst (read_state k cs)) = cs_state cs"
  "cs_rollback_counter (fst (read_state k cs)) = cs_rollback_counter cs"
  "start_version (fst (read_state k cs)) = start_version cs"
  "read_version (fst (read_state k cs)) = read_version cs"
  by (auto simp: read_state_def split: option.split)

lemma read_state_value: "map_option vv_value (snd (read_state k cs)) = visible (cs_state cs) k"
  by (auto simp: read_state_def visible_def split: option.split)

lemma read_key_fields [simp]:
  "writes (fst (read_key k cs)) = writes cs" "cs_state (fst (read_key k cs)) = cs_state cs"
  "cs_rollback_counter (fst (read_key k cs)) = cs_rollback_counter cs"
  "start_version (fst (read_key k cs)) = start_version cs"
  "read_version (fst (read_key k cs)) = read_version cs"
  by (auto simp: read_key_def case_prod_beta Let_def split: option.split)

lemma read_key_value: "snd (read_key k cs) = view cs k"
  by (auto simp: read_key_def view_def case_prod_beta Let_def read_state_value split: option.split)

lemma view_cong: "writes cs' = writes cs \<Longrightarrow> cs_state cs' = cs_state cs \<Longrightarrow> view cs' = view cs"
  by (rule ext) (simp add: view_def split: option.split)

lemma handle_put_fields [simp]:
  "cs_state (handle_put k v cs) = cs_state cs" "reads (handle_put k v cs) = reads cs"
  "cs_rollback_counter (handle_put k v cs) = cs_rollback_counter cs"
  "start_version (handle_put k v cs) = start_version cs" "read_version (handle_put k v cs) = read_version cs"
  by (simp_all add: handle_put_def)

lemma handle_remove_fields [simp]:
  "cs_state (fst (handle_remove k cs)) = cs_state cs" "reads (fst (handle_remove k cs)) = reads cs"
  "cs_rollback_counter (fst (handle_remove k cs)) = cs_rollback_counter cs"
  "start_version (fst (handle_remove k cs)) = start_version cs"
  "read_version (fst (handle_remove k cs)) = read_version cs"
  by (simp_all add: handle_remove_def Let_def)

lemma view_put: "view (handle_put k v cs) = (view cs)(k \<mapsto> v)"
  by (rule ext) (simp add: view_def handle_put_def map_of_upd_sorted split: option.split)

lemma cs_ok_put: "cs_ok cs \<Longrightarrow> cs_ok (handle_put k v cs)"
  by (simp add: cs_ok_def handle_put_def sorted_upd_sorted)

lemma visible_absent: "state_get s k = None \<Longrightarrow> visible s k = None"
  by (simp add: visible_def)

lemma view_remove: "view (fst (handle_remove k cs)) = (view cs)(k := None)"
proof
  fix k'
  show "view (fst (handle_remove k cs)) k' = ((view cs)(k := None)) k'"
    by (auto simp: view_def handle_remove_def Let_def map_of_upd_sorted map_of_erase_key visible_absent
        map_of_None_iff_keys [symmetric] split: option.split)
qed

lemma cs_ok_remove: "cs_ok cs \<Longrightarrow> cs_ok (fst (handle_remove k cs))"
  by (auto simp: cs_ok_def handle_remove_def Let_def sorted_upd_sorted sorted_erase_key)

section \<open>Iterating\<close>

text \<open>The entries a traversal visits, in its order.\<close>

definition state_part :: "Write \<Rightarrow> kv_state \<Rightarrow> (Key \<times> Value) list" where
  "state_part w s =
     map (\<lambda>(k, v). (k, vv_value v))
       (filter (\<lambda>(k, v). map_of w k = None \<and> \<not> is_deleted (vv_version v)) (map_entries s))"

definition write_part :: "Write \<Rightarrow> (Key \<times> Value) list" where
  "write_part w = map (\<lambda>(k, v). (k, the v)) (filter (\<lambda>(k, v). v \<noteq> None) w)"

definition view_list :: "ChangeSet \<Rightarrow> (Key \<times> Value) list" where
  "view_list cs = state_part (writes cs) (cs_state cs) @ write_part (writes cs)"

lemma foreach_list_filter:
  "foreach_list (\<lambda>k v x. if P k v then f k (g v) x else (x, True)) kvs x
    = foreach_list f (map (\<lambda>(k, v). (k, g v)) (filter (\<lambda>(k, v). P k v) kvs)) x"
  by (induction kvs arbitrary: x) (auto split: prod.split bool.split)

lemma foreach_writes_list: "foreach_writes f w x True = foreach_list f (write_part w) x"
  by (induction f w x True rule: foreach_writes.induct)
    (auto simp: write_part_def Let_def split: prod.split bool.split option.split)

lemma foreach_state_part:
  "foreach_list (\<lambda>k v x. if map_of w k = None \<and> \<not> is_deleted (vv_version v) then f k (vv_value v) x else (x, True))
    (map_entries s) x = foreach_list f (state_part w s) x"
  unfolding state_part_def by (rule foreach_list_filter)

lemma foreach_view_list:
  "handle_foreach f (cs, s) = fst (foreach_list f (view_list cs) (cs\<lparr>read_version := start_version cs\<rparr>, s))"
  unfolding handle_foreach_def foreach_state_and_writes_def view_list_def foreach_list_append
  by (simp add: Let_def foreach_state_part foreach_writes_list split: prod.split bool.split)

text \<open>A visitor that never stops is folded over the entries.\<close>

definition visits :: "'s visitor \<Rightarrow> (Key \<times> Value) list \<Rightarrow> ChangeSet \<times> 's \<Rightarrow> ChangeSet \<times> 's" where
  "visits f kvs x = fold (\<lambda>(k, v) x. fst (f k v x)) kvs x"

lemma visits_simps [simp]:
  "visits f [] x = x" "visits f ((k, v) # kvs) x = visits f kvs (fst (f k v x))"
  by (simp_all add: visits_def)

lemma foreach_list_visits:
  assumes "\<And>k v x. snd (f k v x)"
  shows "foreach_list f kvs x = (visits f kvs x, True)"
  using assms by (induction kvs arbitrary: x) (auto split: prod.split bool.split, (metis snd_conv fst_conv)+)

lemma foreach_visits:
  assumes "\<And>k v x. snd (f k v x)"
  shows "foreach_state_and_writes f always (cs, s) = visits f (view_list cs) (cs\<lparr>read_version := start_version cs\<rparr>, s)"
  unfolding foreach_state_and_writes_def view_list_def
  by (simp add: Let_def foreach_state_part foreach_list_visits [OF assms] foreach_writes_list visits_def)

lemma keys_write_part: "set (al_keys (write_part w)) \<subseteq> set (al_keys w)"
  by (force simp: write_part_def al_keys_def)

lemma distinct_write_part: "distinct (al_keys w) \<Longrightarrow> distinct (al_keys (write_part w))"
  by (auto simp: write_part_def al_keys_def case_prod_beta comp_def distinct_map intro: inj_on_subset)

lemma distinct_state_part: "champ_inv kv_hash s \<Longrightarrow> distinct (al_keys (state_part w s))"
  using kvs.entries_distinct [of s]
  by (auto simp: state_part_def al_keys_def case_prod_beta comp_def distinct_map intro: inj_on_subset)

lemma state_part_keys: "k \<in> set (al_keys (state_part w s)) \<Longrightarrow> k \<notin> set (al_keys w)"
  by (force simp: state_part_def al_keys_def map_of_eq_None_iff)

lemma view_list_distinct:
  assumes "cs_ok cs"
  shows "distinct (al_keys (view_list cs))"
proof -
  have "distinct (al_keys (writes cs))" "champ_inv kv_hash (cs_state cs)"
    using assms sorted_keys_distinct by (auto simp: cs_ok_def)
  moreover have "set (al_keys (state_part (writes cs) (cs_state cs))) \<inter> set (al_keys (write_part (writes cs))) = {}"
    using state_part_keys keys_write_part by blast
  ultimately show ?thesis
    by (simp add: view_list_def distinct_write_part distinct_state_part)
qed

lemma view_list_iff:
  assumes "cs_ok cs"
  shows "(k, v) \<in> set (view_list cs) \<longleftrightarrow> view cs k = Some v"
proof -
  have s: "(k, x) \<in> set (map_entries (cs_state cs)) \<longleftrightarrow> state_get (cs_state cs) k = Some x" for x
    using assms kvs.entries_get [of "cs_state cs" k] kvs.entries_distinct [of "cs_state cs"]
    by (auto simp: cs_ok_def al_keys_def)
  have w: "(k, x) \<in> set (writes cs) \<longleftrightarrow> map_of (writes cs) k = Some x" for x
    using assms sorted_keys_distinct [of "writes cs"] by (simp add: cs_ok_def al_keys_def)
  have "(k, v) \<in> set (state_part (writes cs) (cs_state cs)) \<longleftrightarrow>
      map_of (writes cs) k = None \<and> visible (cs_state cs) k = Some v"
    using s by (auto simp: state_part_def visible_def image_iff split: option.split if_splits)
  moreover have "(k, v) \<in> set (write_part (writes cs)) \<longleftrightarrow> map_of (writes cs) k = Some (Some v)"
    using w by (force simp: write_part_def image_iff)
  ultimately show ?thesis by (auto simp: view_list_def view_def split: option.split)
qed

lemma view_list_map_of: "cs_ok cs \<Longrightarrow> map_of (view_list cs) = view cs"
proof
  fix k assume ok: "cs_ok cs"
  show "map_of (view_list cs) k = view cs k"
    using view_list_iff [OF ok, of k] view_list_distinct [OF ok]
    by (cases "view cs k") (auto simp: al_keys_def map_of_eq_None_iff)
qed

text \<open>Clearing, counting and ranges.\<close>

lemma visits_remove:
  "view (fst (visits remove_visitor kvs x)) = (\<lambda>k. if k \<in> set (al_keys kvs) then None else view (fst x) k)"
  by (induction kvs arbitrary: x) (auto simp: remove_visitor_def view_remove fun_eq_iff)

lemma view_clear:
  assumes "cs_ok cs"
  shows "view (handle_clear cs) = Map.empty"
proof -
  have "handle_clear cs = fst (visits remove_visitor (view_list cs) (cs\<lparr>read_version := start_version cs\<rparr>, ()))"
    unfolding handle_clear_def handle_foreach_def by (subst foreach_visits) (simp_all add: remove_visitor_def)
  moreover have "view (cs\<lparr>read_version := start_version cs\<rparr>) = view cs" by (rule view_cong) simp_all
  moreover have "view cs k = None" if "k \<notin> set (al_keys (view_list cs))" for k
    using that by (simp add: view_list_map_of [OF assms, symmetric] map_of_None_iff_keys)
  ultimately show ?thesis by (auto simp: visits_remove fun_eq_iff)
qed

lemma visits_count: "snd (visits count_visitor kvs x) = snd x + length kvs"
  by (induction kvs arbitrary: x) (auto simp: count_visitor_def)

lemma handle_size_card:
  assumes "cs_ok cs"
  shows "snd (handle_size cs) = card (dom (view cs))"
proof -
  have "snd (handle_size cs) = length (view_list cs)"
    unfolding handle_size_def handle_foreach_def
    by (subst foreach_visits) (simp_all add: count_visitor_def visits_count)
  also have "\<dots> = card (set (al_keys (view_list cs)))"
    by (simp add: distinct_card [OF view_list_distinct [OF assms]])
  also have "set (al_keys (view_list cs)) = dom (view cs)"
    unfolding view_list_map_of [OF assms, symmetric] by (auto simp: dom_map_of_conv_image_fst al_keys_def)
  finally show ?thesis .
qed

lemma visits_range:
  fixes "from" to :: Key
  assumes "distinct (al_keys kvs)"
  defines "res' \<equiv> \<lambda>x. snd (visits (range_visitor from to) kvs x)"
  shows "sorted_wrt (<) (al_keys (snd x)) \<longrightarrow> sorted_wrt (<) (al_keys (res' x))"
    and "map_of (res' x) k = (if from \<le> k \<and> k < to \<and> k \<in> set (al_keys kvs) then map_of kvs k else map_of (snd x) k)"
proof -
  show "sorted_wrt (<) (al_keys (snd x)) \<longrightarrow> sorted_wrt (<) (al_keys (res' x))"
    unfolding res'_def by (induction kvs arbitrary: x) (auto simp: range_visitor_def sorted_upd_sorted)
  show "map_of (res' x) k = (if from \<le> k \<and> k < to \<and> k \<in> set (al_keys kvs) then map_of kvs k else map_of (snd x) k)"
    unfolding res'_def using assms(1)
    by (induction kvs arbitrary: x) (auto simp: range_visitor_def map_of_upd_sorted)
qed

lemma handle_range_spec:
  assumes "cs_ok cs"
  shows "sorted_wrt (<) (al_keys (snd (handle_range from to cs)))
    \<and> map_of (snd (handle_range from to cs)) k = (if from \<le> k \<and> k < to then view cs k else None)"
proof (cases "from = to \<or> to < from")
  case True
  then show ?thesis by (auto simp: handle_range_def)
next
  case False
  have "snd (handle_range from to cs)
      = snd (visits (range_visitor from to) (view_list cs) (cs\<lparr>read_version := start_version cs\<rparr>, []))"
    using False unfolding handle_range_def by (subst foreach_visits) (simp_all add: range_visitor_def)
  then show ?thesis
    using visits_range [OF view_list_distinct [OF assms]] view_list_map_of [OF assms]
    by (simp add: map_of_None_iff_keys [symmetric])
qed

text \<open>A key for which there is an entry, be it a value or the mark of a deletion.\<close>

definition has_entry :: "Key \<Rightarrow> ChangeSet \<Rightarrow> bool" where
  "has_entry k cs \<longleftrightarrow> map_of (writes cs) k \<noteq> None \<or> state_get (cs_state cs) k \<noteq> None"

text \<open>C31: Through its handle a transaction sees the state it started from under its own writes:
  \<open>get\<close> and \<open>has\<close> answer from that view and do not change it, \<open>put\<close> and \<open>remove\<close> change it
  at their key, \<open>clear\<close> empties it, \<open>size\<close> counts it, \<open>range\<close> visits its keys from
  \<open>from\<close> up to but not including \<open>to\<close>, in order, and \<open>foreach\<close> calls its visitor on each of its
  entries once, until the visitor stops it. \<open>remove\<close> answers true for every key that has a value, and
  also for one that has none but whose removal is recorded, by this transaction or in the state.\<close>

theorem handle_view:
  assumes "cs_ok cs"
  shows "snd (handle_get k cs) = view cs k \<and> view (fst (handle_get k cs)) = view cs
    \<and> snd (handle_has k cs) = (view cs k \<noteq> None) \<and> view (fst (handle_has k cs)) = view cs
    \<and> view (handle_put k v cs) = (view cs)(k \<mapsto> v)
    \<and> view (fst (handle_remove k cs)) = (view cs)(k := None)
    \<and> snd (handle_remove k cs) = has_entry k cs \<and> (view cs k \<noteq> None \<longrightarrow> has_entry k cs)
    \<and> view (handle_clear cs) = Map.empty
    \<and> snd (handle_size cs) = card (dom (view cs))
    \<and> sorted_wrt (<) (al_keys (snd (handle_range from to cs)))
    \<and> map_of (snd (handle_range from to cs)) = (\<lambda>k. if from \<le> k \<and> k < to then view cs k else None)
    \<and> (\<exists>kvs. distinct (map fst kvs) \<and> map_of kvs = view cs
        \<and> (\<forall>f s. handle_foreach f (cs, s) = fst (foreach_list f kvs (cs\<lparr>read_version := start_version cs\<rparr>, s))))"
proof -
  have reading: "snd (handle_get k cs) = view cs k" "view (fst (handle_get k cs)) = view cs"
    "snd (handle_has k cs) = (view cs k \<noteq> None)" "view (fst (handle_has k cs)) = view cs"
    using view_cong [of "fst (read_key k cs)" cs]
    by (simp_all add: handle_get_def handle_has_def case_prod_beta Let_def read_key_value)
  have answer: "snd (handle_remove k cs) = has_entry k cs"
    using map_of_None_iff_keys [of "writes cs" k] by (auto simp: handle_remove_def has_entry_def Let_def)
  have present: "view cs k \<noteq> None \<longrightarrow> has_entry k cs"
    by (auto simp: has_entry_def view_def visible_def split: option.splits)
  have range: "sorted_wrt (<) (al_keys (snd (handle_range from to cs)))"
    "map_of (snd (handle_range from to cs)) = (\<lambda>k. if from \<le> k \<and> k < to then view cs k else None)"
    using handle_range_spec [OF assms] by auto
  have each: "\<exists>kvs. distinct (map fst kvs) \<and> map_of kvs = view cs
      \<and> (\<forall>f s. handle_foreach f (cs, s) = fst (foreach_list f kvs (cs\<lparr>read_version := start_version cs\<rparr>, s)))"
    using view_list_distinct [OF assms]
    by (intro exI [of _ "view_list cs"]) (simp add: al_keys_def view_list_map_of [OF assms] foreach_view_list)
  show ?thesis
    by (intro conjI reading view_put view_remove answer present view_clear [OF assms] handle_size_card [OF assms] range each)
qed

definition empty_change_set :: ChangeSet where
  "empty_change_set = make_change_set 0 champ_empty champ_empty 0"

lemma cs_ok_empty: "cs_ok empty_change_set"
  unfolding empty_change_set_def by (rule cs_ok_make [OF kvs.invar_empty])

theorem handle_view_witness:
  "view (fst (handle_remove [2] (handle_put [1] [7] (handle_put [2] [8] empty_change_set)))) [1] = Some [7]
    \<and> snd (handle_get [2] (fst (handle_remove [2] (handle_put [2] [8] empty_change_set)))) = None"
proof -
  let ?two = "handle_put [1] [7] (handle_put [2] [8] empty_change_set)"
    and ?none = "fst (handle_remove [2] (handle_put [2] [8] empty_change_set))"
  have ok: "cs_ok ?two" "cs_ok ?none" by (simp_all add: cs_ok_put cs_ok_remove cs_ok_empty)
  have "view (fst (handle_remove [2] ?two)) = (view ?two)([2] := None)" 
    using handle_view [OF ok(1), of "[2]" "[]" "[]" "[]"] by (elim conjE)
  moreover have "snd (handle_get [2] ?none) = view ?none [2]" using handle_view [OF ok(2), of "[2]" "[]" "[]" "[]"] by (elim conjE)
  ultimately show ?thesis by (simp add: view_put view_remove)
qed

text \<open>\<open>remove\<close> does not tell a key that has a value from one that has been removed: on a key
  whose entry in the state is a deletion it answers true, and it records no read.\<close>

theorem remove_reports_deleted_key:
  assumes "state_get (cs_state cs) k = Some v" and "is_deleted (vv_version v)" and "writes cs = []"
  shows "view cs k = None \<and> snd (handle_remove k cs) \<and> reads (fst (handle_remove k cs)) = reads cs"
  using assms by (simp add: view_def visible_def handle_remove_def)

theorem remove_reports_deleted_key_witness:
  defines "s \<equiv> state_put [1] \<lparr>vv_version = - 5, vv_read_version = 5, vv_value = []\<rparr> champ_empty"
  shows "view (make_change_set 0 s s 5) [1] = None \<and> snd (handle_remove [1] (make_change_set 0 s s 5))"
  using remove_reports_deleted_key [of "make_change_set 0 s s 5" "[1]"]
  by (simp add: s_def make_change_set_def is_deleted_def kvs.get_put kvs.invar_empty)

end
