(* ===== verification/Kv_Commit.thy ===== *)
theory Kv_Commit
  imports Kv_Handles
begin

text \<open>
  The roll of a map under interleaved transactions: the invariant of the roll, what a rollback
  and a compaction keep, and that a change set whose preparation succeeds may be applied as if
  the transaction had run at the moment it commits.
\<close>

section \<open>Histories\<close>

text \<open>A roll as versions and states, oldest first; write sets are what compaction moves away.\<close>

type_synonym snapshot = "Version \<times> kv_state"

definition strip :: "LocalCommit \<Rightarrow> snapshot" where
  "strip c = (lc_version c, lc_state c)"

definition hist :: "kv_map \<Rightarrow> snapshot list" where
  "hist m = map strip (commits (roll m))"

definition vabs :: "VersionV \<Rightarrow> Version" where
  "vabs vv = nat \<bar>vv_version vv\<bar>"

definition stamped :: "snapshot \<Rightarrow> bool" where
  "stamped c \<longleftrightarrow> champ_inv kv_hash (snd c)
     \<and> (\<forall>k vv. state_get (snd c) k = Some vv \<longrightarrow> vv_version vv \<noteq> 0 \<and> vabs vv \<le> fst c)"

text \<open>\<open>c'\<close> is later than \<open>c\<close>, and every key in which it differs carries a later version.\<close>

definition newer :: "snapshot \<Rightarrow> snapshot \<Rightarrow> bool" where
  "newer c c' \<longleftrightarrow> fst c < fst c'
     \<and> (\<forall>k. state_get (snd c') k \<noteq> state_get (snd c) k \<longrightarrow>
          (\<exists>vv. state_get (snd c') k = Some vv \<and> fst c < vabs vv))"

definition hist_ok :: "snapshot list \<Rightarrow> bool" where
  "hist_ok h \<longleftrightarrow> h \<noteq> [] \<and> sorted_wrt newer h \<and> (\<forall>c\<in>set h. stamped c)"

lemma newer_trans: "newer a b \<Longrightarrow> newer b c \<Longrightarrow> newer a c"
proof -
  assume ab: "newer a b" and bc: "newer b c"
  have "\<exists>vv. state_get (snd c) k = Some vv \<and> fst a < vabs vv" if "state_get (snd c) k \<noteq> state_get (snd a) k" for k
  proof (cases "state_get (snd c) k = state_get (snd b) k")
    case True
    with that ab show ?thesis by (simp add: newer_def)
  next
    case False
    with bc obtain vv where "state_get (snd c) k = Some vv" "fst b < vabs vv" by (auto simp: newer_def)
    with ab show ?thesis by (auto simp: newer_def)
  qed
  with ab bc show ?thesis by (simp add: newer_def)
qed

lemma hist_ok_drop: "hist_ok h \<Longrightarrow> n < length h \<Longrightarrow> hist_ok (drop n h)"
  by (auto simp: hist_ok_def sorted_wrt_drop dest: in_set_dropD)

lemma hist_ok_take: "hist_ok h \<Longrightarrow> 0 < n \<Longrightarrow> hist_ok (take n h)"
  by (auto simp: hist_ok_def sorted_wrt_take dest: in_set_takeD)

lemma hist_ok_last: "hist_ok h \<Longrightarrow> c \<in> set h \<Longrightarrow> c = last h \<or> newer c (last h)"
  by (cases h rule: rev_cases) (auto simp: hist_ok_def sorted_wrt_append)

lemma hist_ok_snoc:
  assumes "hist_ok h" and "newer (last h) c" and "stamped c"
  shows "hist_ok (h @ [c])"
proof -
  have "newer x c" if "x \<in> set h" for x
    using hist_ok_last [OF assms(1) that] assms(2) newer_trans [of x "last h" c] by auto
  with assms show ?thesis by (simp add: hist_ok_def sorted_wrt_append)
qed

lemma get_tail_hist: "commits (roll m) \<noteq> [] \<Longrightarrow> (lc_version (get_tail m), lc_state (get_tail m)) = last (hist m)"
  by (simp add: get_tail_def hist_def strip_def last_map)

lemma hist_nonempty: "hist m \<noteq> [] \<longleftrightarrow> commits (roll m) \<noteq> []"
  by (simp add: hist_def)

section \<open>Applying writes\<close>

lemma to_deletable_small: "v < 2 ^ 63 \<Longrightarrow> to_deletable v = int v"
  by (simp add: to_deletable_def)

lemma apply_write_state:
  assumes "champ_inv kv_hash s"
  shows "champ_inv kv_hash (fst (apply_write v w (s, b)))"
    and "state_get (fst (apply_write v w (s, b))) k =
      (if k = fst w
       then case snd w of
              Some value \<Rightarrow> Some \<lparr>vv_version = to_deletable v, vv_read_version = v, vv_value = value\<rparr>
            | None \<Rightarrow> map_option (\<lambda>_. \<lparr>vv_version = - to_deletable v, vv_read_version = v, vv_value = []\<rparr>)
                (state_get s k)
       else state_get s k)"
    and "snd (apply_write v w (s, b)) = (b \<or> snd w \<noteq> None \<or> state_get s (fst w) \<noteq> None)"
  using assms
  by (auto simp: apply_write_def case_prod_beta Let_def kvs.invar_put kvs.get_put split: option.split)

text \<open>The entry a write leaves behind.\<close>

definition written :: "Version \<Rightarrow> Value option \<Rightarrow> VersionV option \<Rightarrow> VersionV option" where
  "written v w old =
     (case w of
        Some value \<Rightarrow> Some \<lparr>vv_version = to_deletable v, vv_read_version = v, vv_value = value\<rparr>
      | None \<Rightarrow> map_option (\<lambda>_. \<lparr>vv_version = - to_deletable v, vv_read_version = v, vv_value = []\<rparr>) old)"

lemma apply_write_get:
  "champ_inv kv_hash s \<Longrightarrow> state_get (fst (apply_write v w (s, b))) k =
    (if k = fst w then written v (snd w) (state_get s k) else state_get s k)"
  by (auto simp: apply_write_state(2) written_def)

text \<open>All writes of a change set, each key once.\<close>

lemma apply_writes:
  assumes "champ_inv kv_hash s" and "distinct (al_keys w)"
  shows "champ_inv kv_hash (fst (fold (apply_write v) w (s, b)))
    \<and> (\<forall>k. state_get (fst (fold (apply_write v) w (s, b))) k =
      (case map_of w k of None \<Rightarrow> state_get s k | Some x \<Rightarrow> written v x (state_get s k)))"
  using assms
proof (induction w arbitrary: s b)
  case (Cons x w)
  let ?s = "fst (apply_write v x (s, b))" and ?b = "snd (apply_write v x (s, b))"
  have x: "map_of w (fst x) = None" using Cons.prems(2) by (simp add: map_of_None_iff_keys)
  have "champ_inv kv_hash (fst (fold (apply_write v) w (?s, ?b)))
    \<and> (\<forall>k. state_get (fst (fold (apply_write v) w (?s, ?b))) k =
      (case map_of w k of None \<Rightarrow> state_get ?s k | Some x \<Rightarrow> written v x (state_get ?s k)))"
    using Cons.prems by (intro Cons.IH) (simp_all add: apply_write_state(1))
  with x Cons.prems(1) show ?case
    by (auto simp: apply_write_get split: option.split)
qed simp

lemma apply_write_flag: "snd (apply_write v w x) \<or> apply_write v w x = x"
  by (auto simp: apply_write_def case_prod_beta Let_def split: option.split)

lemma apply_write_sticky: "snd x \<Longrightarrow> snd (apply_write v w x)"
  by (auto simp: apply_write_def case_prod_beta Let_def split: option.split)

lemma apply_writes_sticky: "snd x \<Longrightarrow> snd (fold (apply_write v) w x)"
proof (induction w arbitrary: x)
  case (Cons w ws)
  show ?case unfolding fold_Cons comp_apply by (rule Cons.IH [OF apply_write_sticky [OF Cons.prems]])
qed simp

lemma apply_writes_flag: "snd (fold (apply_write v) w x) \<or> fold (apply_write v) w x = x"
proof (induction w arbitrary: x)
  case (Cons w ws)
  from apply_write_flag [of v w x] show ?case
  proof
    assume "snd (apply_write v w x)"
    then show ?thesis unfolding fold_Cons comp_apply by (simp add: apply_writes_sticky)
  next
    assume "apply_write v w x = x"
    then show ?thesis using Cons.IH [of x] by simp
  qed
qed simp

section \<open>The effect of a commit\<close>

lemma hist_insert_back: "hist (insert_back c m) = hist m @ [strip c]"
  by (simp add: hist_def insert_back_def)

lemma counter_insert_back [simp]: "rollback_counter (roll (insert_back c m)) = rollback_counter (roll m)"
  by (simp add: insert_back_def)

text \<open>A commit without tracked reads appends the state with its writes, if they change anything.\<close>

lemma handle_commit_hist:
  assumes "cs_ok cs" and "hist_ok (hist m)" and "fst (last (hist m)) < v" and "v < 2 ^ 63" and "writes cs \<noteq> []"
  defines "m' \<equiv> fst (handle_commit v False m cs)"
  shows "rollback_counter (roll m') = rollback_counter (roll m)"
    and "hist m' = hist m \<or> (\<exists>s. hist m' = hist m @ [(v, s)] \<and> newer (last (hist m)) (v, s) \<and> stamped (v, s))"
    and "state_get (snd (last (hist m'))) k =
      (case map_of (writes cs) k of
         None \<Rightarrow> state_get (snd (last (hist m))) k
       | Some x \<Rightarrow> written v x (state_get (snd (last (hist m))) k))"
proof -
  have ne: "commits (roll m) \<noteq> []" using assms(2) by (simp add: hist_ok_def hist_nonempty)
  let ?s = "snd (last (hist m))"
  have tail: "lc_state (get_tail m) = ?s" using get_tail_hist [OF ne] by (metis snd_conv)
  obtain s ch where sch: "fold (apply_write v) (writes cs) (?s, False) = (s, ch)" by fastforce
  have m': "m' = (if ch then insert_back \<lparr>lc_version = v, lc_state = s, lc_writes = writes cs\<rparr> m else m)"
    using assms(5) sch by (simp add: m'_def handle_commit_def tail Let_def)
  have st: "stamped (last (hist m))" using assms(2) by (simp add: hist_ok_def)
  have get: "champ_inv kv_hash s" "\<And>k. state_get s k =
      (case map_of (writes cs) k of None \<Rightarrow> state_get ?s k | Some x \<Rightarrow> written v x (state_get ?s k))"
    using apply_writes [of ?s "writes cs" v False] st assms(1) sorted_keys_distinct
    by (auto simp: sch stamped_def cs_ok_def)
  have fl: "ch \<or> s = ?s" using apply_writes_flag [of v "writes cs" "(?s, False)"] by (auto simp: sch)
  show "rollback_counter (roll m') = rollback_counter (roll m)" by (simp add: m')
  have wr: "vv_version vv \<noteq> 0 \<and> vabs vv = v" if "written v x old = Some vv" for x old vv
    using that assms(3,4) by (auto simp: written_def vabs_def to_deletable_small split: option.splits)
  have keep: "written v x old = None \<Longrightarrow> old = None" for x old
    by (simp add: written_def split: option.splits)
  have "\<exists>vv. state_get s k = Some vv \<and> fst (last (hist m)) < vabs vv" if "state_get s k \<noteq> state_get ?s k" for k
  proof -
    from that obtain x where x: "state_get s k = written v x (state_get ?s k)"
      by (auto simp: get(2) split: option.splits)
    with that keep obtain vv where "state_get s k = Some vv" by (metis option.exhaust)
    then show ?thesis using wr x assms(3) by auto
  qed
  then have "newer (last (hist m)) (v, s)" unfolding newer_def using assms(3) by simp
  moreover have "vv_version vv \<noteq> 0 \<and> vabs vv \<le> v" if "state_get s k = Some vv" for k vv
    using that st wr assms(3) unfolding get(2) stamped_def by (force split: option.splits)
  then have "stamped (v, s)" using get(1) by (simp add: stamped_def)
  ultimately show "hist m' = hist m \<or> (\<exists>s. hist m' = hist m @ [(v, s)] \<and> newer (last (hist m)) (v, s) \<and> stamped (v, s))"
    by (auto simp: m' hist_insert_back strip_def)
  show "state_get (snd (last (hist m'))) k =
      (case map_of (writes cs) k of None \<Rightarrow> state_get ?s k | Some x \<Rightarrow> written v x (state_get ?s k))"
    using fl get(2) [of k] by (auto simp: m' hist_insert_back strip_def)
qed

section \<open>Versions of the roll\<close>

definition state_at :: "Version \<Rightarrow> snapshot list \<Rightarrow> snapshot option" where
  "state_at v h = find (\<lambda>c. fst c \<le> v) (rev h)"

lemma find_map_strip: "map_option strip (find (\<lambda>c. lc_version c \<le> v) cs) = find (\<lambda>c. fst c \<le> v) (map strip cs)"
  by (induction cs) (auto simp: strip_def)

lemma commit_at_hist: "map_option strip (commit_at v m) = state_at v (hist m)"
  by (simp add: commit_at_def state_at_def hist_def find_map_strip rev_map)

lemma find_append: "find P (xs @ ys) = (case find P xs of None \<Rightarrow> find P ys | Some x \<Rightarrow> Some x)"
  by (induction xs) auto

lemma state_at_append: "state_at v (h @ h') = (case state_at v h' of None \<Rightarrow> state_at v h | Some c \<Rightarrow> Some c)"
  by (simp add: state_at_def find_append split: option.split)

lemma state_at_None: "state_at v h = None \<longleftrightarrow> (\<forall>c\<in>set h. v < fst c)"
  by (auto simp: state_at_def find_None_iff not_le)

lemma state_at_Some: "state_at v h = Some c \<Longrightarrow> c \<in> set h \<and> fst c \<le> v"
  by (auto simp: state_at_def find_Some_iff rev_nth)

lemma state_at_last: "h \<noteq> [] \<Longrightarrow> fst (last h) \<le> v \<Longrightarrow> state_at v h = Some (last h)"
  by (cases h rule: rev_cases) (auto simp: state_at_def)

text \<open>Rollback drops commits above the version from the end and keeps at least one.\<close>

lemma pop_above_drop:
  "cs \<noteq> [] \<Longrightarrow> \<exists>n<length cs. pop_above v cs = drop n cs \<and> (\<forall>c\<in>set (take n cs). v < lc_version c)
    \<and> (lc_version (cs ! n) \<le> v \<or> Suc n = length cs)"
proof (induction v cs rule: pop_above.induct)
  case (1 v r r' rs)
  show ?case
  proof (cases "lc_version r \<le> v")
    case True
    then show ?thesis by (intro exI [of _ 0]) simp
  next
    case False
    with 1 obtain n where "n < length (r' # rs)" "pop_above v (r' # rs) = drop n (r' # rs)"
      "\<forall>c\<in>set (take n (r' # rs)). v < lc_version c" "lc_version ((r' # rs) ! n) \<le> v \<or> Suc n = length (r' # rs)" by auto
    with False show ?thesis by (intro exI [of _ "Suc n"]) auto
  qed
qed auto

lemma map_rollback_hist:
  assumes "hist m \<noteq> []"
  shows "\<exists>n. 0 < n \<and> n \<le> length (hist m) \<and> hist (map_rollback v m) = take n (hist m)
    \<and> (\<forall>c\<in>set (drop n (hist m)). v < fst c)
    \<and> (fst (hist m ! (n - 1)) \<le> v \<or> n = 1)
    \<and> rollback_counter (roll (map_rollback v m)) = rollback_counter (roll m) + (if n < length (hist m) then 1 else 0)"
proof -
  let ?cs = "commits (roll m)"
  have "rev ?cs \<noteq> []" using assms by (simp add: hist_nonempty)
  then obtain n where n: "n < length ?cs" "pop_above v (rev ?cs) = drop n (rev ?cs)"
    "\<forall>c\<in>set (take n (rev ?cs)). v < lc_version c" "lc_version (rev ?cs ! n) \<le> v \<or> Suc n = length ?cs"
    using pop_above_drop [of "rev ?cs" v] by auto
  let ?n = "length ?cs - n"
  have "rev (drop n (rev ?cs)) = take ?n ?cs" by (simp add: rev_drop)
  moreover have "set (drop ?n ?cs) = set (take n (rev ?cs))" by (simp add: take_rev)
  moreover have "rev ?cs ! n = ?cs ! (?n - 1)" using n(1) by (simp add: rev_nth)
  ultimately show ?thesis
    using n by (intro exI [of _ ?n])
      (auto simp: hist_def map_rollback_def Let_def take_map drop_map strip_def)
qed

text \<open>Compaction drops commits from the front.\<close>

lemma compact_commits_drop:
  "cs \<noteq> [] \<Longrightarrow> \<exists>n<length cs. map strip (fst (compact_commits hook v cs)) = drop n (map strip cs)
    \<and> (0 < n \<longrightarrow> lc_version (cs ! n) \<le> v)
    \<and> (Suc n < length cs \<longrightarrow> lc_version (cs ! n) = v \<or> v < lc_version (cs ! Suc n))"
proof (induction cs)
  case (Cons r cs)
  show ?case
  proof (cases cs)
    case Nil
    then show ?thesis by (auto simp: strip_def)
  next
    case r': (Cons r' rs)
    show ?thesis
    proof (cases "lc_version r = v \<or> lc_version r' > v")
      case True
      then show ?thesis by (intro exI [of _ 0]) (auto simp: r' strip_def Let_def split: if_splits)
    next
      case False
      from Cons.IH obtain n where n: "n < length cs"
        "map strip (fst (compact_commits hook v cs)) = drop n (map strip cs)" "0 < n \<longrightarrow> lc_version (cs ! n) \<le> v"
        "Suc n < length cs \<longrightarrow> lc_version (cs ! n) = v \<or> v < lc_version (cs ! Suc n)" by (auto simp: r')
      moreover have "lc_version (cs ! n) \<le> v" using n(3) False by (cases n) (auto simp: r')
      ultimately show ?thesis using False
        by (intro exI [of _ "Suc n"]) (auto simp: r' case_prod_beta Let_def)
    qed
  qed
qed simp

lemma map_compact_hist:
  assumes "hist m \<noteq> []"
  shows "\<exists>n<length (hist m). hist (map_compact v m) = drop n (hist m)
    \<and> (0 < n \<longrightarrow> fst (hist m ! n) \<le> v)
    \<and> (Suc n < length (hist m) \<longrightarrow> fst (hist m ! n) = v \<or> v < fst (hist m ! Suc n))
    \<and> rollback_counter (roll (map_compact v m)) = rollback_counter (roll m)"
  using compact_commits_drop [of "commits (roll m)" "global_hook m" v] assms
  by (auto simp: hist_def map_compact_def Let_def case_prod_beta strip_def)

lemma hist_ok_versions: "hist_ok h \<Longrightarrow> sorted_wrt (<) (map fst h)"
  unfolding sorted_wrt_map hist_ok_def
  by (metis (mono_tags, lifting) newer_def sorted_wrt_mono_rel)

lemma set_drop_conv: "x \<in> set (drop n xs) \<longleftrightarrow> (\<exists>i<length xs. n \<le> i \<and> x = xs ! i)"
proof
  assume "x \<in> set (drop n xs)"
  then obtain j where "j < length (drop n xs)" "x = drop n xs ! j" by (auto simp: in_set_conv_nth)
  then show "\<exists>i<length xs. n \<le> i \<and> x = xs ! i" by (intro exI [of _ "n + j"]) simp
next
  assume "\<exists>i<length xs. n \<le> i \<and> x = xs ! i"
  then obtain i where i: "i < length xs" "n \<le> i" "x = drop n xs ! (i - n)" by auto
  then have "i - n < length (drop n xs)" by auto
  with i(3) show "x \<in> set (drop n xs)" by (simp only: nth_mem)
qed

lemma state_at_nth:
  assumes "hist_ok h" and "n < length h" and "fst (h ! n) \<le> v"
    and "Suc n < length h \<longrightarrow> fst (h ! n) = v \<or> v < fst (h ! Suc n)"
  shows "state_at v h = Some (h ! n)"
proof -
  note s = hist_ok_versions [OF assms(1)]
  have "v < fst c" if "c \<in> set (drop (Suc n) h)" for c
  proof -
    from that obtain i where i: "i < length h" "Suc n \<le> i" "c = h ! i" by (auto simp: set_drop_conv)
    from s have lt: "\<And>i j. i < j \<Longrightarrow> j < length h \<Longrightarrow> fst (h ! i) < fst (h ! j)"
      by (simp add: sorted_wrt_iff_nth_less)
    have "fst (h ! Suc n) \<le> fst (h ! i)" using lt [of "Suc n" i] i by (cases "i = Suc n") auto
    moreover have "fst (h ! n) < fst (h ! i)" using lt i by simp
    ultimately show ?thesis using assms(4) i by auto
  qed
  then have "state_at v (drop (Suc n) h) = None" by (simp add: state_at_None)
  moreover have "h = (take n h @ [h ! n]) @ drop (Suc n) h" using assms(2) by (simp add: id_take_nth_drop)
  ultimately have "state_at v h = state_at v (take n h @ [h ! n])" by (metis option.simps(4) state_at_append)
  then show ?thesis using assms(3) by (simp add: state_at_append) (simp add: state_at_def)
qed

text \<open>C32: The roll keeps the versions that may still be asked for. A rollback to \<open>v\<close> leaves every
  version up to \<open>v\<close> as it was and makes the state at \<open>v\<close> the current one; a compaction at \<open>v\<close>
  leaves every version from \<open>v\<close> on and the current state as they were, and makes the state at
  \<open>v\<close> the globally committed one. Both keep the roll well formed.\<close>

theorem roll_versions:
  assumes "hist_ok (hist m)"
  shows "hist_ok (hist (map_rollback v m)) \<and> hist_ok (hist (map_compact v m))
    \<and> (w \<le> v \<longrightarrow> map_option strip (commit_at w (map_rollback v m)) = map_option strip (commit_at w m))
    \<and> (commit_at v m \<noteq> None \<longrightarrow> strip (get_tail (map_rollback v m)) = strip (the (commit_at v m)))
    \<and> strip (get_tail (map_compact v m)) = strip (get_tail m)
    \<and> (v \<le> w \<longrightarrow> map_option strip (commit_at w (map_compact v m)) = map_option strip (commit_at w m))
    \<and> (commit_at v m \<noteq> None \<longrightarrow> strip (get_head (map_compact v m)) = strip (the (commit_at v m)))"
proof -
  let ?h = "hist m"
  have ne: "?h \<noteq> []" using assms by (simp add: hist_ok_def)
  obtain n where n: "0 < n" "n \<le> length ?h" and rb: "hist (map_rollback v m) = take n ?h"
    and above: "\<forall>c\<in>set (drop n ?h). v < fst c" and le: "fst (?h ! (n - 1)) \<le> v \<or> n = 1"
    using map_rollback_hist [OF ne, of v] by auto
  obtain i where i: "i < length ?h" and cp: "hist (map_compact v m) = drop i ?h"
    and lei: "0 < i \<longrightarrow> fst (?h ! i) \<le> v" and nxt: "Suc i < length ?h \<longrightarrow> fst (?h ! i) = v \<or> v < fst (?h ! Suc i)"
    using map_compact_hist [OF ne, of v] by auto
  have at: "map_option strip (commit_at w m') = state_at w (hist m')" for w m' by (rule commit_at_hist)
  have tl: "strip (get_tail m') = last (hist m')" if "hist m' \<noteq> []" for m'
    using that by (simp add: get_tail_def hist_def last_map)
  have hd: "strip (get_head m') = hd (hist m')" if "hist m' \<noteq> []" for m'
    using that by (simp add: get_head_def hist_def hd_map)
  have "state_at w (take n ?h) = state_at w ?h" if "w \<le> v"
  proof -
    have "state_at w (drop n ?h) = None" using above that by (force simp: state_at_None)
    then show ?thesis using state_at_append [of w "take n ?h" "drop n ?h"] by simp
  qed
  moreover have "state_at w (drop i ?h) = state_at w ?h" if "v \<le> w"
  proof (cases "i = 0")
    case False
    then have "?h ! i \<in> set (drop i ?h)" "fst (?h ! i) \<le> w" using i lei that by (auto simp: set_drop_conv)
    then have "state_at w (drop i ?h) \<noteq> None" unfolding state_at_None by (metis leD)
    then show ?thesis using state_at_append [of w "take i ?h" "drop i ?h"] by auto
  qed simp
  moreover have "last (take n ?h) = the (state_at v ?h) \<and> hd (drop i ?h) = the (state_at v ?h)" if "state_at v ?h \<noteq> None"
  proof
    from that obtain c where "state_at v ?h = Some c" by auto
    then have c: "c \<in> set ?h" "fst c \<le> v" using state_at_Some by auto
    then have least: "fst (?h ! 0) \<le> v"
      using hist_ok_versions [OF assms] ne by (cases ?h) auto
    have "fst (?h ! (n - 1)) \<le> v" using le least by auto
    moreover have "Suc (n - 1) < length ?h \<longrightarrow> v < fst (?h ! Suc (n - 1))"
    proof
      assume "Suc (n - 1) < length ?h"
      then have "?h ! n \<in> set (drop n ?h)" using n by (auto simp: set_drop_conv)
      with above n show "v < fst (?h ! Suc (n - 1))" by simp
    qed
    ultimately have "state_at v ?h = Some (?h ! (n - 1))" using n by (intro state_at_nth [OF assms]) auto
    then show "last (take n ?h) = the (state_at v ?h)" using n ne by (subst last_conv_nth) auto
    have "fst (?h ! i) \<le> v" using lei least by (cases i) auto
    then show "hd (drop i ?h) = the (state_at v ?h)"
      using state_at_nth [OF assms i _ nxt] i by (simp add: hd_drop_conv_nth)
  qed
  moreover have "commit_at v m \<noteq> None \<longrightarrow> strip (the (commit_at v m)) = the (state_at v ?h) \<and> state_at v ?h \<noteq> None"
    using at [of v m, symmetric] by (cases "commit_at v m") auto
  moreover have "hist (map_rollback v m) \<noteq> []" "hist (map_compact v m) \<noteq> []" using n i ne by (simp_all add: rb cp)
  moreover have "last (drop i ?h) = last ?h" using i by (simp add: last_drop)
  ultimately show ?thesis
    using hist_ok_take [OF assms n(1)] hist_ok_drop [OF assms i] tl [OF ne]
    unfolding at by (simp add: tl hd) (simp add: rb cp)
qed

lemma initial_stamped: "stamped (v, champ_empty)"
  by (simp add: stamped_def kvs.invar_empty kvs.get_empty)

lemma hist_new_map: "hist (new_map n d r) = [(0, champ_empty)]"
  by (simp add: hist_def new_map_def reset_commits_def initial_commit_def strip_def)

lemma hist_ok_new_map: "hist_ok (hist (new_map n d r))"
  by (simp add: hist_new_map hist_ok_def initial_stamped)

text \<open>Three commits, for the witnesses.\<close>

definition sample_map :: kv_map where
  "sample_map = (new_map ''m'' PRIVATE True)
     \<lparr>roll := \<lparr>commits = [initial_commit, initial_commit\<lparr>lc_version := 3, lc_writes := [([1], None)]\<rparr>,
                         initial_commit\<lparr>lc_version := 5, lc_writes := [([2], None)]\<rparr>],
               rollback_counter = 0\<rparr>, global_hook := True\<rparr>"

lemma hist_sample: "hist sample_map = [(0, champ_empty), (3, champ_empty), (5, champ_empty)]"
  by (simp add: sample_map_def hist_def initial_commit_def strip_def)

lemma hist_ok_sample: "hist_ok (hist sample_map)"
  by (simp add: hist_sample hist_ok_def initial_stamped newer_def)

theorem roll_versions_witness:
  "strip (get_tail (map_rollback 4 sample_map)) = (3, champ_empty)
    \<and> strip (get_head (map_compact 4 sample_map)) = (3, champ_empty)"
proof -
  have "strip (the (commit_at 4 sample_map)) = (3, champ_empty)" "commit_at 4 sample_map \<noteq> None"
    by (simp_all add: commit_at_def sample_map_def initial_commit_def strip_def)
  with roll_versions [OF hist_ok_sample, of 4] show ?thesis by simp
qed

section \<open>Hooks\<close>

text \<open>The write sets that wait for the global hook.\<close>

definition pending :: "LocalCommit list \<Rightarrow> (Version \<times> Write) list" where
  "pending cs = map (\<lambda>c. (lc_version c, lc_writes c)) (filter (\<lambda>c. lc_writes c \<noteq> []) cs)"

lemma pending_Cons:
  "pending (c # cs) = (if lc_writes c \<noteq> [] then (lc_version c, lc_writes c) # pending cs else pending cs)"
  by (simp add: pending_def)

lemma pending_above: "\<forall>c\<in>set cs. v < lc_version c \<Longrightarrow>
    filter (\<lambda>p. fst p \<le> v) (pending cs) = [] \<and> filter (\<lambda>p. v < fst p) (pending cs) = pending cs"
  by (auto simp: pending_def filter_empty_conv filter_id_conv)

text \<open>A commit at the version whose write set is empty, with another one after it.\<close>

definition empty_at :: "Version \<Rightarrow> LocalCommit list \<Rightarrow> bool" where
  "empty_at v cs \<longleftrightarrow> (\<exists>c\<in>set (butlast cs). lc_version c = v \<and> lc_writes c = [])"

lemma compact_commits_hooks:
  assumes "sorted_wrt (<) (map lc_version cs)" and "cs \<noteq> []" and "lc_version (hd cs) \<le> v"
  shows "snd (compact_commits True v cs) = filter (\<lambda>p. fst p \<le> v) (pending cs) @ (if empty_at v cs then [(v, [])] else [])
    \<and> pending (fst (compact_commits True v cs)) = filter (\<lambda>p. v < fst p) (pending cs)"
  using assms
proof (induction cs)
  case (Cons r cs)
  show ?case
  proof (cases cs)
    case Nil
    then show ?thesis using Cons.prems by (simp add: pending_def empty_at_def)
  next
    case r': (Cons r' rs)
    show ?thesis
    proof (cases "lc_version r = v \<or> lc_version r' > v")
      case True
      then have "\<forall>c\<in>set cs. v < lc_version c" using Cons.prems(1) by (auto simp: r')
      moreover from this have "empty_at v (r # cs) \<longleftrightarrow> lc_version r = v \<and> lc_writes r = []"
        by (auto simp: empty_at_def r' dest: in_set_butlastD)
      ultimately show ?thesis using pending_above [of cs v] True Cons.prems(3)
        by (auto simp: r' pending_Cons Let_def)
    next
      case False
      then have "empty_at v (r # cs) = empty_at v cs" by (simp add: empty_at_def r')
      moreover from False Cons r' have "snd (compact_commits True v cs)
          = filter (\<lambda>p. fst p \<le> v) (pending cs) @ (if empty_at v cs then [(v, [])] else [])
        \<and> pending (fst (compact_commits True v cs)) = filter (\<lambda>p. v < fst p) (pending cs)" by auto
      ultimately show ?thesis using False Cons.prems(3)
        by (auto simp: r' pending_Cons [of r] Let_def case_prod_beta)
    qed
  qed
qed simp

text \<open>C33: The global hook sees every write set that is not empty exactly once and in the order of the
  versions: the calls of a compaction at \<open>v\<close> are the waiting write sets up to \<open>v\<close>, and those
  above \<open>v\<close> are the ones that still wait afterwards. There is one more call, with an empty write set,
  exactly if the write set of the commit at \<open>v\<close> is empty and another commit follows: that is so when
  the map is compacted at \<open>v\<close> a second time. The oldest state of the map must not be above \<open>v\<close>, and
  no calls may be left over from an earlier compaction.\<close>

theorem global_hook_once:
  assumes "hist_ok (hist m)" and "global_hook m" and "commit_deltas m = []" and "lc_version (get_head m) \<le> v"
  shows "snd (post_compact (map_compact v m)) = filter (\<lambda>p. fst p \<le> v) (pending (commits (roll m)))
      @ (if empty_at v (commits (roll m)) then [(v, [])] else [])
    \<and> pending (commits (roll (fst (post_compact (map_compact v m)))))
      = filter (\<lambda>p. v < fst p) (pending (commits (roll m)))
    \<and> commit_deltas (fst (post_compact (map_compact v m))) = []"
proof -
  have "sorted_wrt (<) (map lc_version (commits (roll m)))"
    using hist_ok_versions [OF assms(1)] by (simp add: hist_def comp_def strip_def)
  moreover have "commits (roll m) \<noteq> []" using assms(1) by (simp add: hist_ok_def hist_nonempty)
  ultimately show ?thesis
    using compact_commits_hooks [of "commits (roll m)" v] assms(2-4)
    by (simp add: post_compact_def map_compact_def case_prod_beta Let_def get_head_def)
qed

theorem global_hook_once_witness:
  defines "m \<equiv> fst (post_compact (map_compact 3 sample_map))"
  shows "snd (post_compact (map_compact 3 sample_map)) = [(3, [([1], None)])]
    \<and> snd (post_compact (map_compact 3 m)) = [(3, [])]"
proof
  have "global_hook sample_map" "commit_deltas sample_map = []" "lc_version (get_head sample_map) \<le> 3"
    by (simp_all add: sample_map_def new_map_def get_head_def initial_commit_def)
  from global_hook_once [OF hist_ok_sample this]
  show "snd (post_compact (map_compact 3 sample_map)) = [(3, [([1], None)])]"
    by (simp add: sample_map_def pending_def empty_at_def initial_commit_def)
  have m: "m = sample_map\<lparr>roll := (roll sample_map)\<lparr>commits :=
      map (\<lambda>c. c\<lparr>lc_writes := if lc_version c = 3 then [] else lc_writes c\<rparr>) (tl (commits (roll sample_map)))\<rparr>\<rparr>"
    by (simp add: m_def post_compact_def map_compact_def sample_map_def new_map_def initial_commit_def)
  have "hist_ok (hist m)" using hist_ok_sample by (simp add: m hist_def strip_def hist_ok_def sample_map_def initial_commit_def)
  moreover have "global_hook m" "commit_deltas m = []" "lc_version (get_head m) \<le> 3"
    by (simp_all add: m sample_map_def new_map_def get_head_def)
  ultimately have "snd (post_compact (map_compact 3 m)) = filter (\<lambda>p. fst p \<le> 3) (pending (commits (roll m)))
      @ (if empty_at 3 (commits (roll m)) then [(3, [])] else [])" using global_hook_once [of m 3] by simp
  then show "snd (post_compact (map_compact 3 m)) = [(3, [])]"
    by (simp add: m sample_map_def pending_def empty_at_def)
qed

end
