(* ===== verification/Kv_Types.thy ===== *)
theory Kv_Types
  imports Kv_Map Raft_Types
begin

text \<open>
  The vocabulary that the store, the transactions and the serialisers share (kv/kv_types.h), the
  claims digests and the Merkle leaf of an entry (node/rpc/claims.h), and the printing of numbers
  and bytes that commit evidence is made of (ccf/ds/hex.h). The hash function is a parameter.
\<close>

section \<open>Entries\<close>

type_synonym KvTerm = nat
type_synonym KvTxID = "KvTerm \<times> Version"

datatype CommitResult = SUCCESS | FAIL_CONFLICT | FAIL_NO_REPLICATE

datatype ReplicateType = Replicate_ALL | Replicate_NONE | Replicate_SOME

datatype EntryType =
    WriteSet
  | SnapshotEntry
  | WriteSetWithClaims
  | WriteSetWithCommitEvidence
  | WriteSetWithCommitEvidenceAndClaims

definition has_claims :: "EntryType \<Rightarrow> bool" where
  "has_claims et \<longleftrightarrow> et = WriteSetWithClaims \<or> et = WriteSetWithCommitEvidenceAndClaims"

definition has_commit_evidence :: "EntryType \<Rightarrow> bool" where
  "has_commit_evidence et \<longleftrightarrow> et = WriteSetWithCommitEvidence \<or> et = WriteSetWithCommitEvidenceAndClaims"

fun entry_type_code :: "EntryType \<Rightarrow> nat" where
  "entry_type_code WriteSet = 0"
| "entry_type_code SnapshotEntry = 1"
| "entry_type_code WriteSetWithClaims = 2"
| "entry_type_code WriteSetWithCommitEvidence = 3"
| "entry_type_code WriteSetWithCommitEvidenceAndClaims = 4"

definition entry_type_of :: "nat \<Rightarrow> EntryType option" where
  "entry_type_of n =
     (if n = 0 then Some WriteSet
      else if n = 1 then Some SnapshotEntry
      else if n = 2 then Some WriteSetWithClaims
      else if n = 3 then Some WriteSetWithCommitEvidence
      else if n = 4 then Some WriteSetWithCommitEvidenceAndClaims
      else None)"

lemma entry_type_of_code [simp]: "entry_type_of (entry_type_code et) = Some et"
  by (cases et) (simp_all add: entry_type_of_def)

lemma entry_type_code_less: "entry_type_code et < 256"
  by (cases et) simp_all

section \<open>Names of maps\<close>

datatype AccessCategory = INTERNAL | GOVERNANCE | APPLICATION

definition starts_with :: "string \<Rightarrow> string \<Rightarrow> bool" where
  "starts_with s p \<longleftrightarrow> take (length p) s = p"

definition remove_prefix :: "string \<Rightarrow> string \<Rightarrow> string" where
  "remove_prefix s p = (if starts_with s p then drop (length p) s else s)"

definition get_security_domain :: "string \<Rightarrow> SecurityDomain" where
  "get_security_domain name = (if starts_with name ''public:'' then PUBLIC else PRIVATE)"

definition parse_map_name :: "string \<Rightarrow> (SecurityDomain \<times> AccessCategory) fallible" where
  "parse_map_name name =
     (let core_name = remove_prefix name ''public:'';
          security_domain = (if core_name \<noteq> name then PUBLIC else PRIVATE)
      in if starts_with core_name ''ccf.internal.'' then Inr (security_domain, INTERNAL)
         else if starts_with name ''public:ccf.gov.'' then Inr (security_domain, GOVERNANCE)
         else if starts_with core_name ''ccf.''
         then Inl (LogicError ''Map name includes disallowed reserved prefix'')
         else Inr (security_domain, APPLICATION))"

lemma starts_with_iff: "starts_with s p \<longleftrightarrow> (\<exists>r. s = p @ r)"
  unfolding starts_with_def by (metis append_take_drop_id append_eq_conv_conj)

lemma parse_map_name_domain: "parse_map_name name = Inr (d, c) \<Longrightarrow> d = get_security_domain name"
proof -
  assume p: "parse_map_name name = Inr (d, c)"
  have "remove_prefix name ''public:'' \<noteq> name \<longleftrightarrow> starts_with name ''public:''"
    by (auto simp: remove_prefix_def starts_with_iff)
  with p show ?thesis
    by (auto simp: parse_map_name_def get_security_domain_def Let_def split: if_splits)
qed

section \<open>Digests\<close>

type_synonym Digest = "byte list"
type_synonym hook_call = "string \<times> Version \<times> Write"

record ClaimsDigest =
  is_set :: bool
  digest :: Digest

definition no_claims :: ClaimsDigest where
  "no_claims = \<lparr>is_set = False, digest = replicate 32 0\<rparr>"

definition empty_claims :: ClaimsDigest where
  "empty_claims = \<lparr>is_set = True, digest = replicate 32 0\<rparr>"

definition entry_leaf :: "(byte list \<Rightarrow> Digest) \<Rightarrow> byte list \<Rightarrow> Digest option \<Rightarrow> ClaimsDigest \<Rightarrow> Digest" where
  "entry_leaf sha256 write_set commit_evidence_digest claims_digest =
     (let write_set_digest = sha256 write_set in
      case commit_evidence_digest of
        Some ced \<Rightarrow>
          if \<not> is_set claims_digest then sha256 (write_set_digest @ ced)
          else sha256 (write_set_digest @ ced @ digest claims_digest)
      | None \<Rightarrow>
          if \<not> is_set claims_digest then write_set_digest
          else sha256 (write_set_digest @ digest claims_digest))"

record PendingTxInfo =
  pti_success :: CommitResult
  pti_data :: "byte list"
  pti_claims_digest :: ClaimsDigest
  pti_commit_evidence_digest :: Digest
  pti_hooks :: "hook_call list"

section \<open>Commit evidence\<close>

text \<open>\<open>fmt::format\<close> of a number, and \<open>to_hex\<close> of bytes.\<close>

fun decimal :: "nat \<Rightarrow> string" where
  "decimal n = (if n < 10 then [char_of (48 + n)] else decimal (n div 10) @ [char_of (48 + n mod 10)])"

declare decimal.simps [simp del]

definition hex_digit :: "nat \<Rightarrow> char" where
  "hex_digit n = char_of (if n < 10 then 48 + n else 87 + n)"

definition to_hex :: "byte list \<Rightarrow> string" where
  "to_hex bs = concat (map (\<lambda>b. [hex_digit (unat b div 16), hex_digit (unat b mod 16)]) bs)"

definition txid_str :: "KvTxID \<Rightarrow> string" where
  "txid_str txid = decimal (fst txid) @ ''.'' @ decimal (snd txid)"

definition commit_evidence_str :: "KvTxID \<Rightarrow> byte list \<Rightarrow> string" where
  "commit_evidence_str txid nonce = ''ce:'' @ decimal (fst txid) @ ''.'' @ decimal (snd txid) @ '':'' @ to_hex nonce"

definition string_bytes :: "string \<Rightarrow> byte list" where
  "string_bytes s = map (\<lambda>c. word_of_nat (of_char c)) s"

definition bytes_string :: "byte list \<Rightarrow> string" where
  "bytes_string bs = map (\<lambda>b. char_of (unat b)) bs"

lemma bytes_string_bytes [simp]: "bytes_string (string_bytes s) = s"
proof -
  have "char_of (unat (word_of_nat (of_char c) :: byte)) = c" for c :: char
    by (simp add: unat_of_nat take_bit_eq_mod)
  then show ?thesis by (simp add: bytes_string_def string_bytes_def comp_def)
qed

lemma length_string_bytes [simp]: "length (string_bytes s) = length s"
  by (simp add: string_bytes_def)

end
