(* ===== verification/Kv_Store.thy ===== *)
theory Kv_Store
  imports Kv_Commit Kv_Types
begin

text \<open>
  The store of maps (kv/store.h) and the atomic application of change sets
  (kv/apply_changes.h). Maps are shared between the store and the open
  transactions, so they live in a heap under addresses. Locks are left out: every operation here
  is one that runs while it holds its locks. History, encryptor and snapshotter are
  collaborators, and the calls on them are the events of the store; consensus and the pending
  transactions, which may act on the store when they are called, are parameters.
\<close>

section \<open>State\<close>

type_synonym addr = nat

datatype store_event =
    SnapshotterCommit Version bool
  | SnapshotterRollback Version
  | HistoryCompact Version
  | HistoryRollback KvTxID KvTerm
  | HistorySetTerm KvTerm
  | HistoryAppend "byte list" "Digest option" ClaimsDigest
  | EncryptorRollback Version
  | GlobalHook string Version Write
  | WriteSetObserved "byte list" string

record 'p kv_store =
  heap :: "addr \<Rightarrow> kv_map"
  next_addr :: addr
  maps :: "(string \<times> Version \<times> addr) list"
  st_version :: Version
  last_new_map :: Version
  compacted :: Version
  term_of_next_version :: KvTerm
  term_of_last_version :: KvTerm
  last_replicated :: Version
  last_committable :: Version
  rollback_count :: nat
  pending_txs :: "(Version \<times> 'p \<times> bool) list"
  st_flags :: "8 word"
  global_hooks :: "string list"
  map_hooks :: "string list"
  has_consensus :: bool
  has_history :: bool
  has_snapshotter :: bool
  has_encryptor :: bool
  is_primary :: bool
  is_backup :: bool
  consensus_kind :: ConsensusType
  replicate_type :: ReplicateType
  replicated_tables :: "string list"
  strict_versions :: bool
  is_historical :: bool
  events :: "store_event list"

definition new_store :: "bool \<Rightarrow> bool \<Rightarrow> 'p kv_store" where
  "new_store strict historical =
     \<lparr>heap = (\<lambda>_. new_map [] PRIVATE True), next_addr = 0, maps = [], st_version = 0,
      last_new_map = NoVersion, compacted = 0, term_of_next_version = 0, term_of_last_version = 0,
      last_replicated = 0, last_committable = 0, rollback_count = 0, pending_txs = [], st_flags = 0,
      global_hooks = [], map_hooks = [], has_consensus = False, has_history = False,
      has_snapshotter = False, has_encryptor = False, is_primary = False, is_backup = False,
      consensus_kind = CFT, replicate_type = Replicate_ALL, replicated_tables = [],
      strict_versions = strict, is_historical = historical, events = []\<rparr>"

definition st_emit :: "store_event \<Rightarrow> 'p kv_store \<Rightarrow> 'p kv_store" where
  "st_emit e st = st\<lparr>events := events st @ [e]\<rparr>"

definition store_clear :: "'p kv_store \<Rightarrow> 'p kv_store" where
  "store_clear st = st\<lparr>maps := [], pending_txs := [], st_version := 0, last_new_map := NoVersion,
     compacted := 0, term_of_next_version := 0, term_of_last_version := 0, last_replicated := 0,
     last_committable := 0, rollback_count := 0\<rparr>"

section \<open>Maps of a store\<close>

definition is_map_replicated :: "string \<Rightarrow> 'p kv_store \<Rightarrow> bool" where
  "is_map_replicated name st =
     (case replicate_type st of
        Replicate_ALL \<Rightarrow> True
      | Replicate_NONE \<Rightarrow> False
      | Replicate_SOME \<Rightarrow> name \<in> set (replicated_tables st))"

definition get_map_internal :: "Version \<Rightarrow> string \<Rightarrow> 'p kv_store \<Rightarrow> addr option" where
  "get_map_internal v name st =
     (case map_of (maps st) name of
        None \<Rightarrow> None
      | Some (map_creation_version, a) \<Rightarrow>
          if v \<ge> map_creation_version \<or> map_creation_version = NoVersion then Some a else None)"

text \<open>\<open>std::make_shared<kv::untyped::Map>\<close>\<close>

definition alloc_map :: "string \<Rightarrow> 'p kv_store \<Rightarrow> 'p kv_store \<times> addr" where
  "alloc_map name st =
     (st\<lparr>heap := (heap st)(next_addr st := new_map name (get_security_domain name) (is_map_replicated name st)),
         next_addr := next_addr st + 1\<rparr>, next_addr st)"

definition add_dynamic_map :: "Version \<Rightarrow> addr \<Rightarrow> 'p kv_store \<Rightarrow> ('p kv_store, unit) exec" where
  "add_dynamic_map v a st =
     (let name = map_name (heap st a) in
      if get_map_internal v name st \<noteq> None
      then Throw st (LogicError ''Can't add dynamic map - already have a map of this name'')
      else
        let m = heap st a;
            m = (if name \<in> set (global_hooks st) then m\<lparr>global_hook := True\<rparr> else m);
            m = (if name \<in> set (map_hooks st) then m\<lparr>map_hook := True\<rparr> else m)
        in ok (st\<lparr>maps := upd_sorted name (v, a) (maps st), heap := (heap st)(a := m)\<rparr>))"

definition with_named_map :: "string \<Rightarrow> (kv_map \<Rightarrow> kv_map) \<Rightarrow> 'p kv_store \<Rightarrow> 'p kv_store" where
  "with_named_map name f st =
     (case map_of (maps st) name of
        None \<Rightarrow> st
      | Some (v, a) \<Rightarrow> st\<lparr>heap := (heap st)(a := f (heap st a))\<rparr>)"

definition set_map_hook :: "string \<Rightarrow> 'p kv_store \<Rightarrow> 'p kv_store" where
  "set_map_hook name st =
     with_named_map name (\<lambda>m. m\<lparr>map_hook := True\<rparr>) (st\<lparr>map_hooks := List.insert name (map_hooks st)\<rparr>)"

definition unset_map_hook :: "string \<Rightarrow> 'p kv_store \<Rightarrow> 'p kv_store" where
  "unset_map_hook name st =
     with_named_map name (\<lambda>m. m\<lparr>map_hook := False\<rparr>) (st\<lparr>map_hooks := removeAll name (map_hooks st)\<rparr>)"

definition set_global_hook :: "string \<Rightarrow> 'p kv_store \<Rightarrow> 'p kv_store" where
  "set_global_hook name st =
     with_named_map name (\<lambda>m. m\<lparr>global_hook := True\<rparr>) (st\<lparr>global_hooks := List.insert name (global_hooks st)\<rparr>)"

definition unset_global_hook :: "string \<Rightarrow> 'p kv_store \<Rightarrow> 'p kv_store" where
  "unset_global_hook name st =
     with_named_map name (\<lambda>m. m\<lparr>global_hook := False\<rparr>) (st\<lparr>global_hooks := removeAll name (global_hooks st)\<rparr>)"

section \<open>Versions\<close>

definition deletable_max :: Version where
  "deletable_max = 2 ^ 63 - 1"

definition next_version_unsafe :: "'p kv_store \<Rightarrow> 'p kv_store \<times> Version" where
  "next_version_unsafe st =
     (let v = st_version st + 1;
          v = (if v > deletable_max then 0 else v)
      in (st\<lparr>st_version := v, term_of_last_version := term_of_next_version st\<rparr>, v))"

text \<open>A \<open>VersionResolver\<close> gives a version and the version of the last new map.\<close>

type_synonym 'p resolver = "bool \<Rightarrow> 'p kv_store \<Rightarrow> 'p kv_store \<times> Version \<times> Version"

definition next_version :: "'p resolver" where
  "next_version commit_new_map st =
     (let (st, v) = next_version_unsafe st;
          previous = last_new_map st
      in (if commit_new_map then st\<lparr>last_new_map := v\<rparr> else st, v, previous))"

definition next_txid :: "'p kv_store \<Rightarrow> 'p kv_store \<times> KvTxID" where
  "next_txid st = (let (st, v) = next_version_unsafe st in (st, term_of_next_version st, v))"

definition current_txid :: "'p kv_store \<Rightarrow> KvTxID" where
  "current_txid st = (term_of_last_version st, st_version st)"

definition committable_gap :: "'p kv_store \<Rightarrow> nat" where
  "committable_gap st = (st_version st + 2 ^ 64 - last_committable st) mod 2 ^ 64"

text \<open>Flags of the store.\<close>

definition LEDGER_CHUNK_AT_NEXT_SIGNATURE :: "8 word" where
  "LEDGER_CHUNK_AT_NEXT_SIGNATURE = 0x01"

definition SNAPSHOT_AT_NEXT_SIGNATURE :: "8 word" where
  "SNAPSHOT_AT_NEXT_SIGNATURE = 0x02"

definition set_flag :: "8 word \<Rightarrow> 'p kv_store \<Rightarrow> 'p kv_store" where
  "set_flag f st = st\<lparr>st_flags := st_flags st OR f\<rparr>"

definition unset_flag :: "8 word \<Rightarrow> 'p kv_store \<Rightarrow> 'p kv_store" where
  "unset_flag f st = st\<lparr>st_flags := st_flags st AND NOT f\<rparr>"

definition flag_enabled :: "8 word \<Rightarrow> 'p kv_store \<Rightarrow> bool" where
  "flag_enabled f st \<longleftrightarrow> st_flags st AND f \<noteq> 0"

text \<open>\<open>record_committable\<close> is the answer of the snapshotter.\<close>

definition must_force_ledger_chunk :: "(Version \<Rightarrow> bool) \<Rightarrow> Version \<Rightarrow> 'p kv_store \<Rightarrow> bool" where
  "must_force_ledger_chunk record_committable v st =
     (let r = flag_enabled LEDGER_CHUNK_AT_NEXT_SIGNATURE st \<or> flag_enabled SNAPSHOT_AT_NEXT_SIGNATURE st
      in if has_snapshotter st then r \<or> record_committable v else r)"

section \<open>Applying change sets\<close>

datatype changes = Normal ChangeSet | Snapshot SnapshotChangeSet

type_synonym OrderedChanges = "(string \<times> addr \<times> changes) list"
type_synonym MapCollection = "(string \<times> addr) list"

fun changes_have_writes :: "changes \<Rightarrow> bool" where
  "changes_have_writes (Normal cs) = has_writes cs"
| "changes_have_writes (Snapshot ss) = True"

fun committer_prepare :: "bool \<Rightarrow> kv_map \<Rightarrow> changes \<Rightarrow> bool" where
  "committer_prepare track m (Normal cs) = prepare track m cs"
| "committer_prepare track m (Snapshot ss) = True"

fun committer_commit :: "Version \<Rightarrow> bool \<Rightarrow> kv_map \<Rightarrow> changes \<Rightarrow> kv_map" where
  "committer_commit v track m (Normal cs) = fst (handle_commit v track m cs)"
| "committer_commit v track m (Snapshot ss) = snapshot_commit m ss"

definition prepare_all :: "bool \<Rightarrow> OrderedChanges \<Rightarrow> 'p kv_store \<Rightarrow> bool" where
  "prepare_all track cs st = list_all (\<lambda>(name, a, c). committer_prepare track (heap st a) c) cs"

definition new_maps_free :: "MapCollection \<Rightarrow> Version option \<Rightarrow> 'p kv_store \<Rightarrow> bool" where
  "new_maps_free new_maps conflict st =
     list_all (\<lambda>(name, a). get_map_internal (case conflict of Some v \<Rightarrow> v | None \<Rightarrow> st_version st) name st = None)
       new_maps"

definition commit_one :: "Version \<Rightarrow> bool \<Rightarrow> string \<times> addr \<times> changes \<Rightarrow> 'p kv_store \<Rightarrow> 'p kv_store" where
  "commit_one v track x st =
     (let (name, a, c) = x in st\<lparr>heap := (heap st)(a := committer_commit v track (heap st a) c)\<rparr>)"

text \<open>\<open>post_commit\<close> of a committer, on the map as all commits have left it.\<close>

fun committer_hook :: "Version \<Rightarrow> kv_map \<Rightarrow> changes \<Rightarrow> hook_call option" where
  "committer_hook v m (Normal cs) =
     trigger_map_hook (if writes cs = [] then start_version cs else v) (writes cs) m"
| "committer_hook v m (Snapshot ss) = trigger_map_hook (ss_version ss) (lc_writes (get_head m)) m"

definition collect_hooks :: "Version \<Rightarrow> OrderedChanges \<Rightarrow> 'p kv_store \<Rightarrow> hook_call list" where
  "collect_hooks v cs st = List.map_filter (\<lambda>(name, a, c). committer_hook v (heap st a) c) cs"

definition add_new_maps :: "Version \<Rightarrow> MapCollection \<Rightarrow> OrderedChanges \<Rightarrow> 'p kv_store \<Rightarrow> ('p kv_store, unit) exec" where
  "add_new_maps v new_maps cs st =
     for_each (\<lambda>(name, a) st.
         case map_of cs name of
           Some (a', c) \<Rightarrow> if changes_have_writes c then add_dynamic_map v a st else ok st
         | None \<Rightarrow> ok st) new_maps st"

definition apply_changes ::
  "OrderedChanges \<Rightarrow> 'p resolver \<Rightarrow> MapCollection \<Rightarrow> Version option \<Rightarrow> bool \<Rightarrow> 'p kv_store
   \<Rightarrow> ('p kv_store, Version option \<times> hook_call list) exec"
where
  "apply_changes cs resolver new_maps conflict track st =
     (let any_writes = list_ex (\<lambda>(name, a, c). changes_have_writes c) cs in
      if \<not> (prepare_all track cs st \<and> new_maps_free new_maps conflict st) then Done st (None, [])
      else if \<not> any_writes then Done st (Some NoVersion, [])
      else
        let (st, v, last_new) = resolver (new_maps \<noteq> []) st in
        if track then Done st (None, [])
        else bindv (add_new_maps v new_maps cs st)
          (\<lambda>st _. let st = fold (commit_one v track) cs st in Done st (Some v, collect_hooks v cs st)))"

definition commit_deserialised ::
  "OrderedChanges \<Rightarrow> Version \<Rightarrow> KvTerm \<Rightarrow> MapCollection \<Rightarrow> 'p kv_store
   \<Rightarrow> ('p kv_store, bool \<times> hook_call list) exec"
where
  "commit_deserialised cs v term new_maps st =
     bindv (apply_changes cs (\<lambda>_ st. (st, v, (v + 2 ^ 64 - 1) mod 2 ^ 64)) new_maps None False st)
       (\<lambda>st (c, hooks).
          if c = None then Done st (False, hooks)
          else Done (st\<lparr>st_version := v, last_replicated := v, term_of_last_version := term\<rparr>) (True, hooks))"

section \<open>Compaction and rollback\<close>

definition on_maps :: "(kv_map \<Rightarrow> kv_map) \<Rightarrow> 'p kv_store \<Rightarrow> 'p kv_store" where
  "on_maps f st = fold (\<lambda>(name, v, a) st. st\<lparr>heap := (heap st)(a := f (heap st a))\<rparr>) (maps st) st"

definition post_compact_all :: "'p kv_store \<Rightarrow> 'p kv_store" where
  "post_compact_all st =
     fold (\<lambda>(name, v, a) st.
        let (m, calls) = post_compact (heap st a)
        in st\<lparr>heap := (heap st)(a := m), events := events st @ map (\<lambda>(v, w). GlobalHook name v w) calls\<rparr>)
       (maps st) st"

definition store_compact :: "Version \<Rightarrow> 'p kv_store \<Rightarrow> 'p kv_store" where
  "store_compact v st =
     (let st = (if has_snapshotter st then st_emit (SnapshotterCommit v (has_consensus st \<and> is_primary st)) st else st) in
      if v > st_version st then st
      else
        let st = (on_maps (map_compact v) st)\<lparr>compacted := v\<rparr>;
            st = (if has_history st then st_emit (HistoryCompact v) st else st)
        in post_compact_all st)"

text \<open>Roll every map back, and forget those created later.\<close>

definition rollback_maps :: "Version \<Rightarrow> 'p kv_store \<Rightarrow> 'p kv_store" where
  "rollback_maps v st =
     (let st = on_maps (map_rollback v) st in st\<lparr>maps := filter (\<lambda>(name, created, a). \<not> created > v) (maps st)\<rparr>)"

definition store_rollback :: "KvTxID \<Rightarrow> KvTerm \<Rightarrow> 'p kv_store \<Rightarrow> ('p kv_store, unit) exec" where
  "store_rollback txid term_of_next st =
     (let st = (if has_snapshotter st then st_emit (SnapshotterRollback (snd txid)) st else st) in
      if snd txid < compacted st
      then Throw st (LogicError ''Attempting rollback to a version earlier than commit version'')
      else
        let st = st\<lparr>term_of_next_version := term_of_next, term_of_last_version := fst txid\<rparr>;
            st = (if has_history st then st_emit (HistoryRollback txid term_of_next) st else st)
        in if snd txid \<ge> st_version st then ok st
           else
             let st = st\<lparr>st_version := snd txid, last_replicated := snd txid\<rparr>;
                 st = unset_flag LEDGER_CHUNK_AT_NEXT_SIGNATURE st;
                 st = unset_flag SNAPSHOT_AT_NEXT_SIGNATURE st;
                 st = st\<lparr>rollback_count := rollback_count st + 1,
                         pending_txs := []\<rparr>;
                 st = (if has_encryptor st then st_emit (EncryptorRollback (snd txid)) st else st)
             in ok (rollback_maps (snd txid) st))"

definition initialise_term :: "KvTerm \<Rightarrow> 'p kv_store \<Rightarrow> ('p kv_store, unit) exec" where
  "initialise_term t st =
     (if term_of_next_version st \<noteq> 0
      then Throw st (LogicError ''term_of_next_version is already initialised'')
      else
        let st = st\<lparr>term_of_next_version := t\<rparr>
        in ok (if has_history st then st_emit (HistorySetTerm t) st else st))"

section \<open>Replication\<close>

text \<open>
  A pending transaction is one whose entry is ready, or another one that knows how to make its
  entry: a signature commits to the store when it is called. \<open>call\<close> runs a pending transaction.
  \<open>repl\<close> is consensus, which runs without the lock on the versions, so that the store may
  have changed when it answers.
\<close>

datatype 'q pending_tx = MovePendingTx PendingTxInfo | OtherPendingTx 'q

fun call_pending :: "('q \<Rightarrow> 's \<Rightarrow> ('s, PendingTxInfo) exec) \<Rightarrow> 'q pending_tx \<Rightarrow> 's \<Rightarrow> ('s, PendingTxInfo) exec" where
  "call_pending other (MovePendingTx info) st = Done st info"
| "call_pending other (OtherPendingTx q) st = other q st"

type_synonym batch = "(Version \<times> byte list \<times> bool \<times> hook_call list) list"

fun batch_loop ::
  "('p \<Rightarrow> 'p kv_store \<Rightarrow> ('p kv_store, PendingTxInfo) exec) \<Rightarrow> nat \<Rightarrow> Version \<Rightarrow> batch \<Rightarrow> 'p kv_store
   \<Rightarrow> ('p kv_store, batch) exec"
where
  "batch_loop call 0 offset batch st = Diverge st"
| "batch_loop call (Suc fuel) offset batch st =
     (case map_of (pending_txs st) (last_replicated st + offset) of
        None \<Rightarrow> Done st batch
      | Some (pending_tx, committable) \<Rightarrow>
          let found = last_replicated st + offset in
          bindv (call pending_tx st) (\<lambda>st info.
            let v = last_replicated st + offset;
                st = (if has_history st
                      then st_emit (HistoryAppend (pti_data info) (Some (pti_commit_evidence_digest info))
                             (pti_claims_digest info)) st
                      else st)
            in batch_loop call fuel (offset + 1) (batch @ [(v, pti_data info, committable, pti_hooks info)])
                 (st\<lparr>pending_txs := filter (\<lambda>p. fst p \<noteq> found) (pending_txs st)\<rparr>)))"

definition bft_backup :: "'p kv_store \<Rightarrow> bool" where
  "bft_backup st \<longleftrightarrow> consensus_kind st = BFT \<and> is_backup st"

definition submit_batch ::
  "(batch \<Rightarrow> KvTerm \<Rightarrow> 'p kv_store \<Rightarrow> 'p kv_store \<times> bool) \<Rightarrow> batch \<Rightarrow> 'p kv_store \<Rightarrow> ('p kv_store, CommitResult) exec"
where
  "submit_batch repl batch st =
     (if batch = [] then Done st SUCCESS
      else
        let previous_rollback_count = rollback_count st;
            previous_last_replicated = last_replicated st;
            next_last_replicated = last_replicated st + length batch;
            replication_view = term_of_next_version st;
            st = (if bft_backup st then st\<lparr>last_replicated := next_last_replicated\<rparr> else st);
            (st, replicated) = repl batch replication_view st
        in if replicated
           then Done (if last_replicated st = previous_last_replicated
                         \<and> previous_rollback_count = rollback_count st \<and> \<not> bft_backup st
                      then st\<lparr>last_replicated := next_last_replicated\<rparr> else st) SUCCESS
           else Done st FAIL_NO_REPLICATE)"

text \<open>\<open>unordered_map::insert\<close> keeps a transaction that is there already.\<close>

definition insert_pending :: "Version \<Rightarrow> 'p \<times> bool \<Rightarrow> 'p kv_store \<Rightarrow> 'p kv_store" where
  "insert_pending v p st =
     (if map_of (pending_txs st) v \<noteq> None then st else st\<lparr>pending_txs := (v, p) # pending_txs st\<rparr>)"

definition store_commit ::
  "('p \<Rightarrow> 'p kv_store \<Rightarrow> ('p kv_store, PendingTxInfo) exec)
   \<Rightarrow> (batch \<Rightarrow> KvTerm \<Rightarrow> 'p kv_store \<Rightarrow> 'p kv_store \<times> bool) \<Rightarrow> nat
   \<Rightarrow> KvTxID \<Rightarrow> 'p \<Rightarrow> bool \<Rightarrow> 'p kv_store \<Rightarrow> ('p kv_store, CommitResult) exec"
where
  "store_commit call repl fuel txid pending_tx globally_committable st =
     (if \<not> has_consensus st then Done st SUCCESS
      else if fst txid \<noteq> term_of_next_version st \<and> is_primary st then Done st FAIL_NO_REPLICATE
      else
        let st = (if globally_committable \<and> snd txid > last_committable st
                  then st\<lparr>last_committable := snd txid\<rparr> else st);
            st = insert_pending (snd txid) (pending_tx, globally_committable) st
        in bindv (batch_loop call fuel 1 [] st) (\<lambda>st batch. submit_batch repl batch st))"

section \<open>Snapshots, comparison and recovery\<close>

record StoreSnapshot =
  snap_version :: Version
  snap_maps :: "(string \<times> SecurityDomain \<times> Version \<times> kv_state) list"
  hash_at_snapshot :: "byte list option"
  snap_view_history :: "Version list option"

text \<open>The last two come from history and from consensus.\<close>

definition store_snapshot ::
  "(Version \<Rightarrow> byte list) \<Rightarrow> (Version \<Rightarrow> Version list) \<Rightarrow> Version \<Rightarrow> 'p kv_store
   \<Rightarrow> ('p kv_store, StoreSnapshot) exec"
where
  "store_snapshot get_raw_leaf get_view_history v st =
     (if v < compacted st
      then Throw st (LogicError ''Cannot snapshot at a version which is earlier than last compacted version'')
      else if v > st_version st
      then Throw st (LogicError ''Cannot snapshot at a version which is later than current version'')
      else Done st
        \<lparr>snap_version = v,
         snap_maps = map (\<lambda>(name, created, a). let m = heap st a; (mv, s) = map_snapshot v m
                                               in (map_name m, security_domain m, mv, s)) (maps st),
         hash_at_snapshot = (if has_history st then Some (get_raw_leaf v) else None),
         snap_view_history = (if has_consensus st then Some (get_view_history v) else None)\<rparr>)"

definition store_equal :: "'p kv_store \<Rightarrow> 'p kv_store \<Rightarrow> bool" where
  "store_equal st that =
     (if st_version st \<noteq> st_version that then False
      else if length (maps st) \<noteq> length (maps that) then False
      else list_all (\<lambda>(name, this_v, a).
             case map_of (maps that) name of
               None \<Rightarrow> False
             | Some (that_v, b) \<Rightarrow> this_v = that_v \<and> map_equal (heap st a) (heap that b)) (maps st))"

text \<open>The map of this store that is swapped with the private map of the source of the same name.\<close>

definition swap_target :: "string \<Rightarrow> 'p kv_store \<Rightarrow> ('p kv_store, addr) exec" where
  "swap_target name st =
     (case map_of (maps st) name of
        None \<Rightarrow>
          let a = next_addr st
          in Done (st\<lparr>heap := (heap st)(a := new_map name PRIVATE (is_map_replicated name st)),
                      next_addr := a + 1, maps := upd_sorted name (NoVersion, a) (maps st)\<rparr>) a
      | Some (v, a) \<Rightarrow>
          if security_domain (heap st a) \<noteq> PRIVATE
          then Throw st (LogicError ''Swap mismatch - map is private in source but not in target'')
          else Done st a)"

fun swap_targets :: "(string \<times> addr) list \<Rightarrow> 'p kv_store \<Rightarrow> ('p kv_store, (addr \<times> addr) list) exec" where
  "swap_targets [] st = Done st []"
| "swap_targets ((name, theirs) # entries) st =
     bindv (swap_target name st) (\<lambda>st mine.
       bindv (swap_targets entries st) (\<lambda>st pairs. Done st ((mine, theirs) # pairs)))"

definition swap_one :: "addr \<times> addr \<Rightarrow> 'p kv_store \<times> 'q kv_store \<Rightarrow> 'p kv_store \<times> 'q kv_store" where
  "swap_one ab sts =
     (let (a, b) = ab; (st, source) = sts; (m, m') = map_swap (heap st a) (heap source b)
      in (st\<lparr>heap := (heap st)(a := m)\<rparr>, source\<lparr>heap := (heap source)(b := m')\<rparr>))"

definition private_maps :: "'q kv_store \<Rightarrow> (string \<times> addr) list" where
  "private_maps source =
     List.map_filter (\<lambda>(name, v, a). if security_domain (heap source a) = PRIVATE then Some (name, a) else None)
       (maps source)"

definition swap_private_maps ::
  "'p kv_store \<Rightarrow> 'q kv_store \<Rightarrow> ('p kv_store \<times> 'q kv_store, unit) exec"
where
  "swap_private_maps st source =
     (if st_version source > st_version st
      then Throw (st, source) (RuntimeError ''Invalid call to swap_private_maps'')
      else
        case swap_targets (private_maps source) st of
          Throw st e \<Rightarrow> Throw (st, source) e
        | Diverge st \<Rightarrow> Diverge (st, source)
        | Done st pairs \<Rightarrow> ok (fold swap_one pairs (st, source)))"

end
