(* ===== verification/Ledger_Secrets.thy ===== *)
theory Ledger_Secrets
  imports Kv_Types
begin

text \<open>
  The keys of the ledger (node/ledger_secrets.h, node/ledger_secret.h) and the encryption of
  entries with them (kv/encryptor.h, node/encryptor.h, crypto/symmetric_key.cpp). AES-GCM and
  HMAC are parameters. A \<open>std::map\<close> is an association list in the order of the versions, and
  an iterator is the version it points to; \<open>OutOfBounds\<close> is the use of an iterator whose
  element is gone.
\<close>

section \<open>Secrets\<close>

record LedgerSecret =
  raw_key :: "byte list"
  previous_secret_stored_version :: "Version option"

type_synonym LedgerSecretsMap = "(Version \<times> LedgerSecret) list"

record LedgerSecrets =
  ledger_secrets :: LedgerSecretsMap
  initial_latest_ledger_secret_version :: Version
  last_used_secret :: "Version option"

definition new_secrets :: LedgerSecrets where
  "new_secrets = \<lparr>ledger_secrets = [], initial_latest_ledger_secret_version = 0, last_used_secret = None\<rparr>"

text \<open>\<open>std::next\<close> of an iterator.\<close>

definition next_secret :: "Version \<Rightarrow> LedgerSecretsMap \<Rightarrow> Version option" where
  "next_secret k m = (case dropWhile (\<lambda>p. fst p \<le> k) m of [] \<Rightarrow> None | p # ps \<Rightarrow> Some (fst p))"

definition get_secret_for_version :: "Version \<Rightarrow> bool \<Rightarrow> LedgerSecrets \<Rightarrow> (LedgerSecrets, LedgerSecret option) exec" where
  "get_secret_for_version ver historical_hint ls =
     (if ledger_secrets ls = [] then Done ls None
      else if \<not> historical_hint \<and> last_used_secret ls \<noteq> None
      then
        let k = the (last_used_secret ls);
            k = (case next_secret k (ledger_secrets ls) of
                   Some k' \<Rightarrow> if ver \<ge> k' then k' else k
                 | None \<Rightarrow> k);
            ls = ls\<lparr>last_used_secret := Some k\<rparr>
        in case map_of (ledger_secrets ls) k of
             None \<Rightarrow> Throw ls OutOfBounds
           | Some s \<Rightarrow> Done ls (Some s)
      else
        let before = takeWhile (\<lambda>p. \<not> fst p > ver) (ledger_secrets ls) in
        if before = [] then Done ls None
        else Done (if \<not> historical_hint then ls\<lparr>last_used_secret := Some (fst (last before))\<rparr> else ls)
               (Some (snd (last before))))"

text \<open>\<open>std::map::emplace\<close> keeps an element that is there already.\<close>

definition emplace :: "Version \<Rightarrow> LedgerSecret \<Rightarrow> LedgerSecretsMap \<Rightarrow> LedgerSecretsMap" where
  "emplace v s m = (if map_of m v \<noteq> None then m else upd_sorted v s m)"

text \<open>\<open>init\<close> with the secret that the random source gives.\<close>

definition secrets_init :: "Version \<Rightarrow> LedgerSecret \<Rightarrow> LedgerSecrets \<Rightarrow> LedgerSecrets" where
  "secrets_init initial_version secret ls =
     ls\<lparr>ledger_secrets := emplace initial_version secret (ledger_secrets ls),
        initial_latest_ledger_secret_version := initial_version\<rparr>"

definition init_from_map :: "LedgerSecretsMap \<Rightarrow> LedgerSecrets \<Rightarrow> (LedgerSecrets, unit) exec" where
  "init_from_map m ls =
     (let ls = ls\<lparr>ledger_secrets := m\<rparr> in
      if m = [] then Throw ls OutOfBounds
      else ok (ls\<lparr>initial_latest_ledger_secret_version := fst (last m)\<rparr>))"

definition adjust_previous_secret_stored_version :: "Version \<Rightarrow> LedgerSecrets \<Rightarrow> (LedgerSecrets, unit) exec" where
  "adjust_previous_secret_stored_version ver ls =
     (let m = ledger_secrets ls in
      if m = [] then Throw ls (LogicError ''There should be at least one ledger secret to adjust'')
      else ok (ls\<lparr>ledger_secrets :=
             butlast m @ [(fst (last m), (snd (last m))\<lparr>previous_secret_stored_version := Some ver\<rparr>)]\<rparr>))"

definition secrets_is_empty :: "LedgerSecrets \<Rightarrow> bool" where
  "secrets_is_empty ls \<longleftrightarrow> ledger_secrets ls = []"

definition get_first :: "LedgerSecrets \<Rightarrow> (Version \<times> LedgerSecret) fallible" where
  "get_first ls =
     (case ledger_secrets ls of
        [] \<Rightarrow> Inl (LogicError ''Could not retrieve first ledger secret: no secret set'')
      | p # ps \<Rightarrow> Inr p)"

text \<open>
  The next three take a dependency of the transaction on the table of the encrypted secrets
  first: \<open>depend\<close>.
\<close>

definition get_latest :: "('t \<Rightarrow> 't) \<Rightarrow> LedgerSecrets \<Rightarrow> 't \<Rightarrow> ('t, Version \<times> LedgerSecret) exec" where
  "get_latest depend ls tx =
     (let tx = depend tx in
      if ledger_secrets ls = []
      then Throw tx (LogicError ''Could not retrieve latest ledger secret: no secret set'')
      else Done tx (last (ledger_secrets ls)))"

definition get_latest_and_penultimate ::
  "('t \<Rightarrow> 't) \<Rightarrow> LedgerSecrets \<Rightarrow> 't
   \<Rightarrow> ('t, (Version \<times> LedgerSecret) \<times> (Version \<times> LedgerSecret) option) exec"
where
  "get_latest_and_penultimate depend ls tx =
     (let tx = depend tx; m = ledger_secrets ls in
      if m = [] then Throw tx (LogicError ''Could not retrieve latest ledger secret: no secret set'')
      else Done tx (last m, if length m < 2 then None else Some (last (butlast m))))"

definition get_secrets :: "('t \<Rightarrow> 't) \<Rightarrow> Version option \<Rightarrow> LedgerSecrets \<Rightarrow> 't \<Rightarrow> ('t, LedgerSecretsMap) exec" where
  "get_secrets depend up_to ls tx =
     (let tx = depend tx in
      case up_to of
        None \<Rightarrow> Done tx (ledger_secrets ls)
      | Some v \<Rightarrow>
          if map_of (ledger_secrets ls) v = None then Throw tx (LogicError ''No ledger secrets'')
          else Done tx (takeWhile (\<lambda>p. fst p \<le> v) (ledger_secrets ls)))"

definition restore_historical :: "LedgerSecretsMap \<Rightarrow> LedgerSecrets \<Rightarrow> (LedgerSecrets, unit) exec" where
  "restore_historical restored ls =
     (if ledger_secrets ls \<noteq> [] \<and> restored \<noteq> [] \<and> fst (last restored) \<ge> fst (hd (ledger_secrets ls))
      then Throw ls (LogicError ''Last restored version is greater than first existing version'')
      else ok (ls\<lparr>ledger_secrets := fold (\<lambda>(v, s). emplace v s) restored (ledger_secrets ls)\<rparr>))"

definition set_secret :: "Version \<Rightarrow> LedgerSecret \<Rightarrow> LedgerSecrets \<Rightarrow> LedgerSecrets" where
  "set_secret ver secret ls = ls\<lparr>ledger_secrets := emplace ver secret (ledger_secrets ls)\<rparr>"

text \<open>The loop that erases the newest secrets, which come first here.\<close>

fun erase_newest :: "Version \<Rightarrow> Version \<Rightarrow> LedgerSecretsMap \<Rightarrow> LedgerSecretsMap" where
  "erase_newest ver initial (k # k' # ks) =
     (if fst k \<le> ver \<or> fst k \<le> initial then k # k' # ks else erase_newest ver initial (k' # ks))"
| "erase_newest ver initial ks = ks"

definition secrets_rollback :: "Version \<Rightarrow> LedgerSecrets \<Rightarrow> LedgerSecrets" where
  "secrets_rollback ver ls =
     (if ledger_secrets ls = [] then ls
      else if ver < fst (hd (ledger_secrets ls)) then ls
      else ls\<lparr>ledger_secrets :=
                rev (erase_newest ver (initial_latest_ledger_secret_version ls) (rev (ledger_secrets ls))),
              last_used_secret := None\<rparr>)"

section \<open>Headers\<close>

record GcmHeader =
  tag :: "byte list"
  iv :: "byte list"

definition new_header :: GcmHeader where
  "new_header = \<lparr>tag = replicate 16 0, iv = replicate 12 0\<rparr>"

definition gcm_header_length :: nat where
  "gcm_header_length = 16 + 12"

definition header_serialise :: "GcmHeader \<Rightarrow> byte list" where
  "header_serialise h = tag h @ iv h"

definition header_deserialise :: "byte list \<Rightarrow> (GcmHeader \<times> byte list) fallible" where
  "header_deserialise data =
     (case read_block 16 data of
        Inl e \<Rightarrow> Inl e
      | Inr (t, data) \<Rightarrow>
          case read_block 12 data of
            Inl e \<Rightarrow> Inl e
          | Inr (i, data) \<Rightarrow> Inr (\<lparr>tag = t, iv = i\<rparr>, data))"

definition set_iv_seq :: "nat \<Rightarrow> GcmHeader \<Rightarrow> GcmHeader" where
  "set_iv_seq seqno h = h\<lparr>iv := le_bytes 8 seqno @ drop 8 (iv h)\<rparr>"

definition set_iv_term :: "KvTerm \<Rightarrow> GcmHeader \<Rightarrow> GcmHeader fallible" where
  "set_iv_term t h =
     (if t > 0x7FFFFFFF then Inl (LogicError ''term should fit in 31 bits of IV'')
      else Inr (h\<lparr>iv := take 8 (iv h) @ le_bytes 4 t\<rparr>))"

definition header_get_term :: "GcmHeader \<Rightarrow> KvTerm" where
  "header_get_term h = le_value (take 4 (drop 8 (iv h)))"

definition set_iv_is_snapshot :: "GcmHeader \<Rightarrow> GcmHeader" where
  "set_iv_is_snapshot h = h\<lparr>iv := butlast (iv h) @ [last (iv h) OR push_bit 7 1]\<rparr>"

definition set_iv :: "KvTxID \<Rightarrow> EntryType \<Rightarrow> GcmHeader \<Rightarrow> GcmHeader fallible" where
  "set_iv txid entry_type hdr =
     (case set_iv_term (fst txid) (set_iv_seq (snd txid) hdr) of
        Inl e \<Rightarrow> Inl e
      | Inr hdr \<Rightarrow> Inr (if entry_type = SnapshotEntry then set_iv_is_snapshot hdr else hdr))"

section \<open>The encryptor\<close>

text \<open>
  AES-GCM by its key: \<open>gcm_encrypt key iv plain additional\<close> is the cipher and the tag,
  \<open>gcm_decrypt key iv tag cipher additional\<close> the plaintext if the tag is right.
\<close>

type_synonym gcm_encryption = "byte list \<Rightarrow> byte list \<Rightarrow> byte list \<Rightarrow> byte list \<Rightarrow> byte list \<times> byte list"
type_synonym gcm_decryption = "byte list \<Rightarrow> byte list \<Rightarrow> byte list \<Rightarrow> byte list \<Rightarrow> byte list \<Rightarrow> byte list option"

definition encryptor_encrypt ::
  "gcm_encryption \<Rightarrow> byte list \<Rightarrow> byte list \<Rightarrow> KvTxID \<Rightarrow> EntryType \<Rightarrow> bool \<Rightarrow> LedgerSecrets
   \<Rightarrow> (LedgerSecrets, (byte list \<times> byte list) option) exec"
where
  "encryptor_encrypt gcm_encrypt plain additional_data txid entry_type historical_hint ls =
     (case set_iv txid entry_type new_header of
        Inl e \<Rightarrow> Throw ls e
      | Inr hdr \<Rightarrow>
          bindv (get_secret_for_version (snd txid) historical_hint ls) (\<lambda>ls secret.
            case secret of
              None \<Rightarrow> Done ls None
            | Some s \<Rightarrow>
                let (cipher, t) = gcm_encrypt (raw_key s) (iv hdr) plain additional_data
                in Done ls (Some (header_serialise (hdr\<lparr>tag := t\<rparr>), cipher))))"

text \<open>The plaintext if the decryption succeeds, and the term in any case.\<close>

definition encryptor_decrypt ::
  "gcm_decryption \<Rightarrow> byte list \<Rightarrow> byte list \<Rightarrow> byte list \<Rightarrow> Version \<Rightarrow> bool \<Rightarrow> LedgerSecrets
   \<Rightarrow> (LedgerSecrets, byte list option \<times> KvTerm) exec"
where
  "encryptor_decrypt gcm_decrypt cipher additional_data serialised_header ver historical_hint ls =
     (case header_deserialise serialised_header of
        Inl e \<Rightarrow> Throw ls e
      | Inr (hdr, rest) \<Rightarrow>
          bindv (get_secret_for_version ver historical_hint ls) (\<lambda>ls secret.
            case secret of
              None \<Rightarrow> Done ls (None, header_get_term hdr)
            | Some s \<Rightarrow> Done ls (gcm_decrypt (raw_key s) (iv hdr) (tag hdr) cipher additional_data, header_get_term hdr)))"

definition encryptor_get_term :: "byte list \<Rightarrow> KvTerm fallible" where
  "encryptor_get_term data =
     (case header_deserialise data of Inl e \<Rightarrow> Inl e | Inr (hdr, rest) \<Rightarrow> Inr (header_get_term hdr))"

text \<open>
  The label is a pointer, so that \<open>sizeof\<close> gives the eight bytes of a pointer rather than the
  length of the text.
\<close>

definition commit_secret_label :: string where
  "commit_secret_label = ''Commit Secret Label''"

definition get_commit_secret :: "(byte list \<Rightarrow> byte list \<Rightarrow> byte list) \<Rightarrow> LedgerSecret \<Rightarrow> byte list" where
  "get_commit_secret hmac s = hmac (raw_key s) (take 8 (string_bytes commit_secret_label))"

definition get_commit_nonce ::
  "(byte list \<Rightarrow> byte list \<Rightarrow> byte list) \<Rightarrow> KvTxID \<Rightarrow> bool \<Rightarrow> LedgerSecrets \<Rightarrow> (LedgerSecrets, byte list) exec"
where
  "get_commit_nonce hmac txid historical_hint ls =
     bindv (get_secret_for_version (snd txid) historical_hint ls) (\<lambda>ls secret.
       case secret of
         None \<Rightarrow> Throw ls (LogicError ''Failed to get encryption key'')
       | Some s \<Rightarrow> Done ls (hmac (get_commit_secret hmac s) (string_bytes (txid_str txid))))"

section \<open>Which secret is used\<close>

text \<open>The secret of a version: the one with the highest version that is not above it.\<close>

definition secret_at :: "Version \<Rightarrow> LedgerSecretsMap \<Rightarrow> (Version \<times> LedgerSecret) option" where
  "secret_at v m =
     (let before = takeWhile (\<lambda>p. fst p \<le> v) m in if before = [] then None else Some (last before))"

abbreviation sorted_secrets :: "LedgerSecretsMap \<Rightarrow> bool" where
  "sorted_secrets m \<equiv> sorted_wrt (<) (al_keys m)"

lemma secret_at_Cons:
  "sorted_secrets (p # m) \<Longrightarrow> secret_at v (p # m) =
     (if fst p \<le> v then case secret_at v m of None \<Rightarrow> Some p | Some q \<Rightarrow> Some q else None)"
  by (simp add: secret_at_def Let_def)

lemma secret_at_Some:
  "sorted_secrets m \<Longrightarrow> secret_at v m = Some (k, s) \<longleftrightarrow>
     map_of m k = Some s \<and> k \<le> v \<and> (\<forall>k'\<in>set (al_keys m). k' \<le> v \<longrightarrow> k' \<le> k)"
proof (induction m arbitrary: k s)
  case Nil
  then show ?case by (simp add: secret_at_def)
next
  case (Cons p m)
  have above: "\<forall>k'\<in>set (al_keys m). fst p < k'" and sm: "sorted_secrets m" using Cons.prems by auto
  show ?case
  proof (cases "secret_at v m")
    case None
    have gt: "\<forall>k'\<in>set (al_keys m). v < k'"
    proof (cases m)
      case (Cons q m')
      with None have "fst q > v" by (auto simp: secret_at_def Let_def split: if_splits)
      with Cons sm show ?thesis by auto
    qed simp
    have "v < k" if "map_of m k = Some s" using gt map_of_Some_keys [OF that] by blast
    with gt None above Cons.prems show ?thesis
      by (cases p) (force simp: secret_at_Cons)
  next
    case (Some q)
    obtain k' s' where q: "q = (k', s')" by (cases q)
    have q': "map_of m k' = Some s'" "k' \<le> v" "\<forall>k''\<in>set (al_keys m). k'' \<le> v \<longrightarrow> k'' \<le> k'"
      using Cons.IH [OF sm, of k' s'] Some q by auto
    then have kin: "k' \<in> set (al_keys m)" by (simp add: map_of_Some_keys)
    have le: "fst p \<le> v" "fst p < k'" using kin above q' by auto
    have "k = k'" if "map_of (p # m) k = Some s" "k \<le> v" "\<forall>k''\<in>set (al_keys (p # m)). k'' \<le> v \<longrightarrow> k'' \<le> k"
      using that map_of_Some_keys [OF that(1)] q'(2,3) le kin by (auto intro: antisym)
    then have "map_of (p # m) k = Some s \<and> k \<le> v \<and> (\<forall>k''\<in>set (al_keys (p # m)). k'' \<le> v \<longrightarrow> k'' \<le> k)
      \<longleftrightarrow> k = k' \<and> s = s'"
      using q' le kin by (cases p) fastforce
    then show ?thesis using Some q le Cons.prems by (auto simp: secret_at_Cons)
  qed
qed

lemma secret_at_None:
  "sorted_secrets m \<Longrightarrow> secret_at v m = None \<longleftrightarrow> (\<forall>k\<in>set (al_keys m). v < k)"
  by (cases m) (auto simp: secret_at_def Let_def)

lemma next_secret_Some:
  assumes "sorted_secrets m"
  shows "next_secret k m = Some k' \<longleftrightarrow>
    k' \<in> set (al_keys m) \<and> k < k' \<and> (\<forall>k''\<in>set (al_keys m). k < k'' \<longrightarrow> k' \<le> k'')"
  using assms by (induction m) (auto simp: next_secret_def intro: antisym)

lemma next_secret_None:
  "sorted_secrets m \<Longrightarrow> next_secret k m = None \<longleftrightarrow> (\<forall>k''\<in>set (al_keys m). k'' \<le> k)"
  by (induction m) (auto simp: next_secret_def)

text \<open>
  The secrets are used in order: lookups go up by at most one version at a time, a new secret is
  for a version that has not been looked up yet, and a rollback lets the lookups start again
  anywhere.
\<close>

inductive in_order :: "LedgerSecrets \<Rightarrow> Version \<Rightarrow> bool" where
  start: "sorted_secrets (ledger_secrets ls) \<Longrightarrow> last_used_secret ls = None \<Longrightarrow> in_order ls v"
| lookup: "in_order ls v \<Longrightarrow> v \<le> w \<Longrightarrow> w \<le> v + 1 \<Longrightarrow>
    in_order (final (get_secret_for_version w False ls)) w"
| rekey: "in_order ls v \<Longrightarrow> v < k \<Longrightarrow> in_order (set_secret k s ls) v"
| roll: "in_order ls v \<Longrightarrow> ledger_secrets ls \<noteq> [] \<Longrightarrow> fst (hd (ledger_secrets ls)) \<le> w \<Longrightarrow>
    in_order (secrets_rollback w ls) u"

definition tracks :: "LedgerSecrets \<Rightarrow> Version \<Rightarrow> bool" where
  "tracks ls v \<longleftrightarrow> sorted_secrets (ledger_secrets ls)
     \<and> (case last_used_secret ls of
          None \<Rightarrow> True
        | Some k \<Rightarrow> map_option fst (secret_at v (ledger_secrets ls)) = Some k)"

lemma lookup_slow:
  "last_used_secret ls = None \<or> hint \<Longrightarrow> get_secret_for_version w hint ls =
     Done (if hint then ls
           else ls\<lparr>last_used_secret := map_option fst (secret_at w (ledger_secrets ls))\<rparr>)
       (map_option snd (secret_at w (ledger_secrets ls)))"
  by (cases ls) (auto simp: get_secret_for_version_def secret_at_def Let_def not_less)

lemma lookup_fast:
  assumes "tracks ls v" and "last_used_secret ls = Some k" and "v \<le> w" and "w \<le> v + 1"
  shows "get_secret_for_version w False ls =
     Done (ls\<lparr>last_used_secret := map_option fst (secret_at w (ledger_secrets ls))\<rparr>)
       (map_option snd (secret_at w (ledger_secrets ls)))"
proof -
  let ?m = "ledger_secrets ls"
  have sm: "sorted_secrets ?m" using assms(1) by (simp add: tracks_def)
  obtain s where k: "secret_at v ?m = Some (k, s)" using assms(1,2) by (auto simp: tracks_def)
  then have ks: "map_of ?m k = Some s" "k \<le> v" "\<forall>k'\<in>set (al_keys ?m). k' \<le> v \<longrightarrow> k' \<le> k"
    using secret_at_Some [OF sm] by auto
  have ne: "?m \<noteq> []" using ks(1) by auto
  define k2 where "k2 = (case next_secret k ?m of Some k' \<Rightarrow> if w \<ge> k' then k' else k | None \<Rightarrow> k)"
  have at: "\<exists>s2. map_of ?m k2 = Some s2 \<and> secret_at w ?m = Some (k2, s2)"
  proof (cases "\<exists>k'. next_secret k ?m = Some k' \<and> k' \<le> w")
    case True
    then obtain k' where k': "next_secret k ?m = Some k'" "k' \<le> w" by blast
    then have n: "k' \<in> set (al_keys ?m)" "k < k'" using next_secret_Some [OF sm] by auto
    then have "w = k'" using ks(3) k'(2) assms(4) by (metis not_less_eq_eq Suc_eq_plus1 le_antisym leD le_trans)
    moreover obtain s2 where "map_of ?m k' = Some s2" using keys_map_of_Some [OF n(1)] by blast
    ultimately show ?thesis using k' secret_at_Some [OF sm, of w k' s2] by (simp add: k2_def)
  next
    case False
    then have "k2 = k" by (auto simp: k2_def split: option.split)
    moreover have "k' \<le> k" if "k' \<in> set (al_keys ?m)" "k' \<le> w" for k'
    proof (cases "next_secret k ?m")
      case None
      then show ?thesis using next_secret_None [OF sm] that(1) by blast
    next
      case (Some n)
      then have "w < n" using False by auto
      then show ?thesis using Some next_secret_Some [OF sm] that by (meson leD le_trans not_le_imp_less)
    qed
    ultimately show ?thesis using ks assms(3) secret_at_Some [OF sm, of w k s] by auto
  qed
  then show ?thesis
    using ne assms(2) by (auto simp: get_secret_for_version_def Let_def k2_def [symmetric])
qed

lemma tracks_lookup:
  assumes "tracks ls v" and "v \<le> w" and "w \<le> v + 1"
  shows "get_secret_for_version w False ls =
     Done (ls\<lparr>last_used_secret := map_option fst (secret_at w (ledger_secrets ls))\<rparr>)
       (map_option snd (secret_at w (ledger_secrets ls)))"
  using assms lookup_fast [of ls v _ w] by (cases "last_used_secret ls") (auto simp: lookup_slow)

lemma secret_at_emplace:
  assumes "sorted_secrets m" and "v < k"
  shows "secret_at v (emplace k s m) = secret_at v m"
proof (cases "secret_at v m")
  case None
  with assms have "secret_at v (upd_sorted k s m) = None" by (simp add: secret_at_None sorted_upd_sorted)
  with None show ?thesis by (simp add: emplace_def)
next
  case (Some p)
  then obtain k0 s0 where p: "p = (k0, s0)" "map_of m k0 = Some s0" "k0 \<le> v"
    "\<forall>k'\<in>set (al_keys m). k' \<le> v \<longrightarrow> k' \<le> k0"
    using secret_at_Some [OF assms(1)] by (cases p) auto
  then have "secret_at v (upd_sorted k s m) = Some (k0, s0)"
    using assms by (auto simp: secret_at_Some sorted_upd_sorted map_of_upd_sorted)
  then show ?thesis using Some p(1) by (simp add: emplace_def)
qed

lemma erase_newest_drop: "\<exists>n. erase_newest v i ks = drop n ks"
proof (induction v i ks rule: erase_newest.induct)
  case (1 v i k k' ks)
  show ?case
  proof (cases "fst k \<le> v \<or> fst k \<le> i")
    case True
    then show ?thesis by (auto intro: exI [of _ 0])
  next
    case False
    with 1 obtain n where "erase_newest v i (k' # ks) = drop n (k' # ks)" by blast
    with False show ?thesis by (auto intro: exI [of _ "Suc n"])
  qed
qed (auto intro: exI [of _ 0])

lemma sorted_emplace: "sorted_secrets m \<Longrightarrow> sorted_secrets (emplace k s m)"
  by (simp add: emplace_def sorted_upd_sorted)

lemma in_order_tracks: "in_order ls v \<Longrightarrow> tracks ls v"
proof (induction rule: in_order.induct)
  case (start ls v)
  then show ?case by (simp add: tracks_def)
next
  case (lookup ls v w)
  then show ?case by (simp add: tracks_lookup) (simp add: tracks_def split: option.split)
next
  case (rekey ls v k s)
  then show ?case
    by (simp add: tracks_def set_secret_def secret_at_emplace sorted_emplace split: option.splits)
next
  case (roll ls v w u)
  obtain n where "erase_newest w (initial_latest_ledger_secret_version ls) (rev (ledger_secrets ls))
      = drop n (rev (ledger_secrets ls))"
    using erase_newest_drop by blast
  then have "sorted_secrets (ledger_secrets (secrets_rollback w ls))"
    using roll by (simp add: secrets_rollback_def tracks_def rev_drop al_keys_def take_map [symmetric] sorted_wrt_take)
  then show ?case using roll by (simp add: tracks_def secrets_rollback_def)
qed

text \<open>C34: As long as the secrets are used in order, the fast path, which keeps an iterator on the last
  secret and moves it by at most one, finds the same secret as the search for the one with the
  highest version that is not above the version asked for, across rekeys and rollbacks. A
  historical lookup finds it for every version and leaves the iterator alone.\<close>

theorem secrets_in_order:
  assumes "in_order ls v" and "v \<le> w" and "w \<le> v + 1"
  shows "get_secret_for_version w False ls =
      Done (ls\<lparr>last_used_secret := map_option fst (secret_at w (ledger_secrets ls))\<rparr>)
        (map_option snd (secret_at w (ledger_secrets ls)))
    \<and> get_secret_for_version u True ls = Done ls (map_option snd (secret_at u (ledger_secrets ls)))"
  using tracks_lookup [OF in_order_tracks [OF assms(1)] assms(2,3)] lookup_slow [of ls True u] by simp

theorem secrets_in_order_witness:
  defines "s \<equiv> \<lparr>raw_key = [1], previous_secret_stored_version = None\<rparr>"
    and "s' \<equiv> \<lparr>raw_key = [2], previous_secret_stored_version = None\<rparr>"
  defines "ls \<equiv> set_secret 5 s' (final (get_secret_for_version 4 False (secrets_init 1 s new_secrets)))"
  shows "\<exists>ls'. get_secret_for_version 5 False ls = Done ls' (Some s')"
proof -
  have "in_order (final (get_secret_for_version 4 False (secrets_init 1 s new_secrets))) 4"
    by (rule in_order.lookup [of _ 4]) (auto intro!: in_order.start simp: secrets_init_def new_secrets_def emplace_def)
  then have "in_order ls 4" unfolding ls_def by (rule in_order.rekey) simp
  then show ?thesis using secrets_in_order [of ls 4 5 0]
    by (simp add: ls_def secrets_init_def new_secrets_def emplace_def get_secret_for_version_def
        set_secret_def secret_at_def)
qed

text \<open>C37: Out of order the fast path finds a wrong secret. If two rekeys lie between the secret that was
  used last and the version of a lookup, the iterator stops at the first of them, which is not the
  secret the search finds; a lookup of a version from before that rekey is then answered with a
  secret that is newer than the version. The keys are assumed to be different.\<close>

theorem secrets_out_of_order:
  assumes "sorted_secrets (ledger_secrets ls)" and "distinct (map (raw_key \<circ> snd) (ledger_secrets ls))"
    and "ledger_secrets ls = older_secrets @ [(k, a), (k', b), (k'', c)] @ newer_secrets"
    and "last_used_secret ls = Some k" and "k'' \<le> w" and "k \<le> u" and "u < k'"
  shows "get_secret_for_version w False ls = Done (ls\<lparr>last_used_secret := Some k'\<rparr>) (Some b)
    \<and> (\<exists>s. get_secret_for_version w True ls = Done ls (Some s) \<and> raw_key s \<noteq> raw_key b)
    \<and> get_secret_for_version u False (ls\<lparr>last_used_secret := Some k'\<rparr>) = Done (ls\<lparr>last_used_secret := Some k'\<rparr>) (Some b)
    \<and> get_secret_for_version u True ls = Done ls (Some a) \<and> raw_key a \<noteq> raw_key b"
proof -
  let ?m = "ledger_secrets ls"
  have o: "\<forall>p\<in>set older_secrets. fst p < k" and k: "k < k'" "k' < k''"
    using assms(1,3) by (auto simp: al_keys_def sorted_wrt_append)
  have next': "next_secret k ?m = Some k'" "next_secret k' ?m = Some k''"
    unfolding next_secret_def assms(3) using o k by (subst dropWhile_append2; fastforce)+
  have b: "map_of ?m k' = Some b"
    using assms(1) by (intro map_of_is_SomeI) (simp_all add: strict_sorted_iff al_keys_def assms(3))
  have w: "takeWhile (\<lambda>p. fst p \<le> w) ?m = older_secrets @ [(k, a), (k', b)] @ (k'', c) # takeWhile (\<lambda>p. fst p \<le> w) newer_secrets"
    unfolding assms(3) using o k assms(5) by (subst takeWhile_append2) fastforce+
  let ?s = "last ((k'', c) # takeWhile (\<lambda>p. fst p \<le> w) newer_secrets)"
  have "?s \<in> set ((k'', c) # newer_secrets)"
    using last_in_set [of "(k'', c) # takeWhile (\<lambda>p. fst p \<le> w) newer_secrets"] by (auto dest: set_takeWhileD)
  moreover have "\<forall>p\<in>set ((k'', c) # newer_secrets). raw_key (snd p) \<noteq> raw_key b"
    using assms(2) unfolding assms(3) by (auto simp: image_iff)
  ultimately have "raw_key (snd ?s) \<noteq> raw_key b" by blast
  moreover have "secret_at w ?m = Some ?s" unfolding secret_at_def w by (simp only: Let_def last_appendR list.distinct append_is_Nil_conv) simp
  moreover have "takeWhile (\<lambda>p. fst p \<le> u) ?m = older_secrets @ [(k, a)]"
    unfolding assms(3) using o k assms(6,7) by (subst takeWhile_append2) fastforce+
  then have "secret_at u ?m = Some (k, a)" by (simp add: secret_at_def)
  moreover have "raw_key a \<noteq> raw_key b" using assms(2) by (simp add: assms(3))
  moreover have "?m \<noteq> []" using assms(3) by simp
  ultimately show ?thesis
    using next' b k assms(4,5,7) lookup_slow [of ls True]
    by (simp add: get_secret_for_version_def Let_def)
qed

theorem secrets_out_of_order_witness:
  defines "s \<equiv> \<lambda>n. \<lparr>raw_key = [n], previous_secret_stored_version = None\<rparr>"
  defines "ls \<equiv> set_secret 9 (s 3) (set_secret 5 (s 2) (final (get_secret_for_version 1 False (secrets_init 1 (s 1) new_secrets))))"
  shows "\<exists>ls'. get_secret_for_version 9 False ls = Done ls' (Some (s 2))
    \<and> get_secret_for_version 3 False ls' = Done ls' (Some (s 2)) \<and> get_secret_for_version 3 True ls = Done ls (Some (s 1))"
proof -
  have ls: "ls = \<lparr>ledger_secrets = [(1, s 1), (5, s 2), (9, s 3)], initial_latest_ledger_secret_version = 1,
      last_used_secret = Some 1\<rparr>"
    by (simp add: ls_def secrets_init_def new_secrets_def emplace_def get_secret_for_version_def set_secret_def)
  have "distinct (map (raw_key \<circ> snd) (ledger_secrets ls))" by (simp add: ls s_def)
  then show ?thesis using secrets_out_of_order [of ls "[]" 1 "s 1" 5 "s 2" 9 "s 3" "[]" 9 3] by (simp add: ls)
qed

section \<open>Encrypted entries\<close>

text \<open>The bit of a snapshot is bit 31 of the term.\<close>

lemma or_top_bit: "unat b < 128 \<Longrightarrow> b OR push_bit 7 1 = (b + 128 :: byte)"
proof -
  assume "unat b < 128"
  then have "\<not> bit (unat b) 7" by (simp add: bit_iff_odd)
  then have "\<not> bit b 7" by (simp add: bit_unsigned_iff)
  then have "\<not> (bit b n \<and> bit (push_bit 7 (1 :: byte)) n)" for n
    by (cases "n = 7") (simp_all only: bit_push_bit_iff bit_1_iff, auto)
  then have "bit (b AND push_bit 7 1) n \<longleftrightarrow> bit (0 :: byte) n" for n
    unfolding bit_and_iff by simp
  then have "b AND push_bit 7 1 = 0" by (intro bit_word_eqI)
  then have "b OR push_bit 7 1 = b + push_bit 7 1" by (simp only: disjunctive_add_eq_or)
  moreover have "push_bit 7 1 = (128 :: byte)" by simp
  ultimately show ?thesis by metis
qed

lemma le_bytes_4:
  "le_bytes 4 t = [word_of_nat (t mod 256), word_of_nat (t div 256 mod 256),
     word_of_nat (t div 65536 mod 256), word_of_nat (t div 16777216 mod 256)]"
proof -
  have four: "4 = Suc (Suc (Suc (Suc 0)))" by simp
  show ?thesis unfolding four by (simp add: div_mult2_eq [symmetric])
qed

lemma le_bytes_snapshot:
  assumes "t < 2 ^ 31"
  shows "butlast (le_bytes 4 t) @ [last (le_bytes 4 t) OR push_bit 7 1] = le_bytes 4 (t + 2 ^ 31)"
proof -
  have q: "t div 16777216 < 128" using assms by (simp add: less_mult_imp_div_less)
  have top: "(t + 2147483648) div 16777216 = t div 16777216 + 128"
    and lows: "(t + 2147483648) mod 256 = t mod 256" "(t + 2147483648) div 256 mod 256 = t div 256 mod 256"
      "(t + 2147483648) div 65536 mod 256 = t div 65536 mod 256"
    using div_mult_self1 [of 16777216 t 128] mod_mult_self1 [of t 8388608 256] div_mult_self1 [of 256 t 8388608]
      mod_mult_self1 [of "t div 256" 32768 256] div_mult_self1 [of 65536 t 32768]
      mod_mult_self1 [of "t div 65536" 128 256]
    by (simp_all add: add.commute)
  have "word_of_nat (t div 16777216 mod 256) OR push_bit 7 1 = (word_of_nat (t div 16777216 mod 256) + 128 :: byte)"
    using q by (intro or_top_bit) (simp add: unat_of_nat)
  also have "\<dots> = word_of_nat ((t div 16777216 + 128) mod 256)" using q by simp
  finally show ?thesis by (simp add: le_bytes_4 top lows)
qed

lemma set_iv_new_header:
  assumes "set_iv (t, v) et new_header = Inr h"
  shows "t < 2 ^ 31" and "iv h = le_bytes 8 v @ le_bytes 4 (t + (if et = SnapshotEntry then 2 ^ 31 else 0))"
    and "tag h = replicate 16 0"
proof -
  show t: "t < 2 ^ 31" using assms by (auto simp: set_iv_def set_iv_term_def split: if_splits)
  let ?h = "\<lparr>tag = replicate 16 0, iv = le_bytes 8 v @ le_bytes 4 t\<rparr>"
  have h: "h = (if et = SnapshotEntry then set_iv_is_snapshot ?h else ?h)"
    using assms t by (auto simp: set_iv_def set_iv_term_def set_iv_seq_def new_header_def split: if_splits)
  have "butlast (iv ?h) @ [last (iv ?h) OR push_bit 7 1] = le_bytes 8 v @ le_bytes 4 (t + 2 ^ 31)"
    using le_bytes_snapshot [OF t] by (simp add: butlast_append le_bytes_4)
  then show "iv h = le_bytes 8 v @ le_bytes 4 (t + (if et = SnapshotEntry then 2 ^ 31 else 0))"
    unfolding h by (simp add: set_iv_is_snapshot_def)
  show "tag h = replicate 16 0" unfolding h by (simp add: set_iv_is_snapshot_def)
qed

lemma iv_eq_iff:
  assumes "set_iv (t, v) et new_header = Inr h" and "set_iv (t', v') et' new_header = Inr h'"
    and "v < 2 ^ 64" and "v' < 2 ^ 64"
  shows "iv h = iv h' \<longleftrightarrow> v = v' \<and> t = t' \<and> (et = SnapshotEntry \<longleftrightarrow> et' = SnapshotEntry)"
proof -
  let ?t = "t + (if et = SnapshotEntry then 2 ^ 31 else 0)" and ?t' = "t' + (if et' = SnapshotEntry then 2 ^ 31 else 0)"
  note t = set_iv_new_header(1) [OF assms(1)] set_iv_new_header(1) [OF assms(2)]
  have "v < 256 ^ 8" "v' < 256 ^ 8" "?t < 256 ^ 4" "?t' < 256 ^ 4" using assms(3,4) t by auto
  then have "le_bytes 8 v = le_bytes 8 v' \<longleftrightarrow> v = v'" "le_bytes 4 ?t = le_bytes 4 ?t' \<longleftrightarrow> ?t = ?t'"
    by (metis le_value_le_bytes)+
  then have "iv h = iv h' \<longleftrightarrow> v = v' \<and> ?t = ?t'"
    by (simp only: set_iv_new_header(2) [OF assms(1)] set_iv_new_header(2) [OF assms(2)]
        append_eq_append_conv length_le_bytes simp_thms)
  also have "?t = ?t' \<longleftrightarrow> t = t' \<and> (et = SnapshotEntry \<longleftrightarrow> et' = SnapshotEntry)" using t by auto
  finally show ?thesis .
qed

text \<open>C35: An initialisation vector is made exactly for the terms that fit into 31 bits, and a larger term
  is refused. Two entries have the same one exactly if they have the same version and term and are
  both snapshots or both not.\<close>

theorem iv_unique:
  assumes "v < 2 ^ 64" and "v' < 2 ^ 64"
  shows "(if t < 2 ^ 31 then \<exists>h. set_iv (t, v) et new_header = Inr h
      else set_iv (t, v) et new_header = Inl (LogicError ''term should fit in 31 bits of IV''))
    \<and> (set_iv (t, v) et new_header = Inr h \<and> set_iv (t', v') et' new_header = Inr h' \<longrightarrow>
        (iv h = iv h' \<longleftrightarrow> v = v' \<and> t = t' \<and> (et = SnapshotEntry \<longleftrightarrow> et' = SnapshotEntry)))"
proof
  show "if t < 2 ^ 31 then \<exists>h. set_iv (t, v) et new_header = Inr h
      else set_iv (t, v) et new_header = Inl (LogicError ''term should fit in 31 bits of IV'')"
    by (auto simp: set_iv_def set_iv_term_def)
  show "set_iv (t, v) et new_header = Inr h \<and> set_iv (t', v') et' new_header = Inr h' \<longrightarrow>
    (iv h = iv h' \<longleftrightarrow> v = v' \<and> t = t' \<and> (et = SnapshotEntry \<longleftrightarrow> et' = SnapshotEntry))"
    using iv_eq_iff [OF _ _ assms] by blast
qed

theorem iv_unique_witness:
  "iv (projr (set_iv (2, 7) WriteSet new_header)) \<noteq> iv (projr (set_iv (2, 7) SnapshotEntry new_header))
    \<and> set_iv (2 ^ 31, 7) WriteSet new_header = Inl (LogicError ''term should fit in 31 bits of IV'')"
proof -
  let ?h = "projr (set_iv (2, 7) WriteSet new_header)" and ?h' = "projr (set_iv (2, 7) SnapshotEntry new_header)"
  have "set_iv (2, 7) WriteSet new_header = Inr ?h" "set_iv (2, 7) SnapshotEntry new_header = Inr ?h'"
    by (simp_all add: set_iv_def set_iv_term_def)
  then show ?thesis using iv_unique [of 7 7 2 WriteSet ?h 2 SnapshotEntry ?h'] iv_unique [of 7 7 "2 ^ 31" WriteSet]
    by simp
qed

text \<open>What the encryptor relies on in AES-GCM.\<close>

definition gcm_ok :: "gcm_encryption \<Rightarrow> gcm_decryption \<Rightarrow> bool" where
  "gcm_ok enc dec \<longleftrightarrow>
     (\<forall>key i plain aad. length (fst (enc key i plain aad)) = length plain
        \<and> length (snd (enc key i plain aad)) = 16
        \<and> dec key i (snd (enc key i plain aad)) (fst (enc key i plain aad)) aad = Some plain)"

definition header_term :: "KvTerm \<Rightarrow> EntryType \<Rightarrow> KvTerm" where
  "header_term t et = t + (if et = SnapshotEntry then 2 ^ 31 else 0)"

lemma header_roundtrip:
  "length (tag h) = 16 \<Longrightarrow> length (iv h) = 12 \<Longrightarrow> header_deserialise (header_serialise h @ rest) = Inr (h, rest)"
  by (cases h) (simp add: header_deserialise_def header_serialise_def read_block_def)

lemma header_get_term:
  assumes "set_iv (t, v) et new_header = Inr h"
  shows "header_get_term h = header_term t et"
proof -
  have "header_term t et < 256 ^ 4" using set_iv_new_header(1) [OF assms] by (simp add: header_term_def)
  then have "le_value (le_bytes 4 (header_term t et)) = header_term t et" by (rule le_value_le_bytes)
  then show ?thesis
    using set_iv_new_header(2) [OF assms] by (simp add: header_get_term_def header_term_def [symmetric])
qed

lemma encrypted_entry:
  assumes "gcm_ok enc dec" and "encryptor_encrypt enc plain aad (t, v) et hint ls = Done ls1 (Some (hdr, cipher))"
    and "get_secret_for_version v hint ls = Done ls2 (Some s)"
    and "get_secret_for_version v hint' ls' = Done ls'' (Some s')" and "raw_key s' = raw_key s"
  shows "length hdr = gcm_header_length \<and> length cipher = length plain
    \<and> encryptor_decrypt dec cipher aad hdr v hint' ls' = Done ls'' (Some plain, header_term t et)
    \<and> encryptor_get_term hdr = Inr (header_term t et)"
proof -
  obtain h where h: "set_iv (t, v) et new_header = Inr h"
    using assms(2) by (auto simp: encryptor_encrypt_def split: sum.splits)
  let ?g = "enc (raw_key s) (iv h) plain aad" and ?h = "h\<lparr>tag := snd (enc (raw_key s) (iv h) plain aad)\<rparr>"
  have hdr: "hdr = header_serialise ?h" and cipher: "cipher = fst ?g"
    using assms(2,3) h by (auto simp: encryptor_encrypt_def case_prod_beta)
  have len: "length (tag ?h) = 16" "length (iv ?h) = 12"
    using assms(1) set_iv_new_header(2) [OF h] by (simp_all add: gcm_ok_def)
  have des: "header_deserialise hdr = Inr (?h, [])" using header_roundtrip [OF len, of "[]"] by (simp add: hdr)
  have trm: "header_get_term ?h = header_term t et"
    using header_get_term [OF h] by (simp add: header_get_term_def)
  have "dec (raw_key s) (iv h) (snd ?g) (fst ?g) aad = Some plain" "length (fst ?g) = length plain"
    using assms(1) by (simp_all add: gcm_ok_def)
  then show ?thesis
    using des trm len assms(4,5) cipher
    by (simp add: encryptor_decrypt_def encryptor_get_term_def gcm_header_length_def hdr header_serialise_def)
qed

text \<open>Looking a version up in order, once or more often, gives the key of the version.\<close>

definition uses_key :: "Version \<Rightarrow> LedgerSecrets \<Rightarrow> byte list \<Rightarrow> bool" where
  "uses_key v ls k \<longleftrightarrow> (\<exists>u. in_order ls u \<and> u \<le> v \<and> v \<le> u + 1)
     \<and> map_option (\<lambda>p. raw_key (snd p)) (secret_at v (ledger_secrets ls)) = Some k"

lemma uses_key_lookup:
  assumes "uses_key v ls k"
  obtains ls' s where "get_secret_for_version v False ls = Done ls' (Some s)" and "raw_key s = k" and "uses_key v ls' k"
proof -
  from assms obtain u s where u: "in_order ls u" "u \<le> v" "v \<le> u + 1" and s: "map_option snd (secret_at v (ledger_secrets ls)) = Some s"
    "raw_key s = k" by (auto simp: uses_key_def)
  note l = tracks_lookup [OF in_order_tracks [OF u(1)] u(2,3)]
  have "uses_key v (final (get_secret_for_version v False ls)) k"
    using in_order.lookup [OF u] assms by (auto simp: uses_key_def l)
  then show ?thesis using that l s by simp
qed

text \<open>C36: An encrypted entry is decrypted to the plaintext by every node that uses the same key for its
  version; header and ciphertext have the lengths the serialiser counts on. The term in the header
  comes back for a write set, but for a snapshot with bit 31 set.\<close>

theorem encryptor_roundtrip:
  assumes "gcm_ok enc dec" and "encryptor_encrypt enc plain aad (t, v) et hint ls = Done ls1 (Some (hdr, cipher))"
    and "get_secret_for_version v hint ls = Done ls2 (Some s)"
    and "get_secret_for_version v hint' ls' = Done ls'' (Some s')" and "raw_key s' = raw_key s"
  shows "length hdr = gcm_header_length \<and> length cipher = length plain
    \<and> encryptor_decrypt dec cipher aad hdr v hint' ls' = Done ls'' (Some plain, header_term t et)
    \<and> encryptor_get_term hdr = Inr (header_term t et)"
  using encrypted_entry [OF assms] .

text \<open>A cipher that keeps the law: the sum of all bytes as the tag.\<close>

definition sample_encrypt :: gcm_encryption where
  "sample_encrypt key i plain aad = (map ((+) (hd (key @ [0]))) plain, replicate 15 0 @ [sum_list (i @ aad @ plain)])"

definition sample_decrypt :: gcm_decryption where
  "sample_decrypt key i t cipher aad =
     (let plain = map (\<lambda>c. c - hd (key @ [0])) cipher
      in if t = replicate 15 0 @ [sum_list (i @ aad @ plain)] then Some plain else None)"

lemma sample_gcm_ok: "gcm_ok sample_encrypt sample_decrypt"
  by (simp add: gcm_ok_def sample_encrypt_def sample_decrypt_def comp_def)

theorem encryptor_roundtrip_witness:
  defines "ls \<equiv> secrets_init 1 \<lparr>raw_key = [3], previous_secret_stored_version = None\<rparr> new_secrets"
  shows "\<exists>hdr ls'. encryptor_decrypt sample_decrypt [4, 5] [9] hdr 7 True ls = Done ls' (Some [1, 2], 2)"
proof -
  have look: "get_secret_for_version 7 True ls = Done ls (Some \<lparr>raw_key = [3], previous_secret_stored_version = None\<rparr>)"
    by (simp add: ls_def secrets_init_def new_secrets_def emplace_def get_secret_for_version_def)
  obtain h where h: "set_iv (2, 7) WriteSet new_header = Inr h" by (simp add: set_iv_def set_iv_term_def)
  have "\<exists>hdr. encryptor_encrypt sample_encrypt [1, 2] [9] (2, 7) WriteSet True ls = Done ls (Some (hdr, [4, 5]))"
    by (simp add: encryptor_encrypt_def h look) (simp add: sample_encrypt_def)
  then obtain hdr where "encryptor_encrypt sample_encrypt [1, 2] [9] (2, 7) WriteSet True ls = Done ls (Some (hdr, [4, 5]))" ..
  from encryptor_roundtrip [OF sample_gcm_ok this look look] show ?thesis by (auto simp: header_term_def)
qed

end
