(* ===== verification/Kv_Raw.thy ===== *)
theory Kv_Raw
  imports Ledger_Secrets
begin

text \<open>
  The byte format of entries: the raw writer and reader (kv/raw_serialise.h), the wrappers that
  split an entry into its public and its encrypted part (kv/generic_serialise_wrapper.h), and the
  change set of one map in it (kv/untyped_map.h). A writer is the bytes written so far; a reader
  keeps the memory that its pointer reaches, because it compares lengths only with its own size.
\<close>

text \<open>A free function that may throw, called from a member function.\<close>

fun attempt :: "'a fallible \<Rightarrow> 's \<Rightarrow> ('a \<Rightarrow> ('s, 'v) exec) \<Rightarrow> ('s, 'v) exec" where
  "attempt (Inl x) s f = Throw s x"
| "attempt (Inr v) s f = f v"

section \<open>Writers\<close>

definition append_uint :: "nat \<Rightarrow> nat \<Rightarrow> byte list \<Rightarrow> byte list" where
  "append_uint n v buf = buf @ le_bytes n v"

text \<open>A serialised entry or a vector of bytes: its size in bytes, then its contents.\<close>

definition append_serialised :: "byte list \<Rightarrow> byte list \<Rightarrow> byte list" where
  "append_serialised e buf =
     (let buf = append_uint 8 (length e) buf in if length e > 0 then buf @ e else buf)"

definition append_versions :: "Version list \<Rightarrow> byte list \<Rightarrow> byte list" where
  "append_versions vs buf =
     (let buf = append_uint 8 (length vs * 8) buf
      in if length vs > 0 then buf @ concat (map (le_bytes 8) vs) else buf)"

definition append_digest :: "Digest \<Rightarrow> byte list \<Rightarrow> byte list" where
  "append_digest h buf = buf @ h"

definition append_entry_type :: "EntryType \<Rightarrow> byte list \<Rightarrow> byte list" where
  "append_entry_type et buf = append_uint 1 (entry_type_code et) buf"

definition append_string :: "string \<Rightarrow> byte list \<Rightarrow> byte list" where
  "append_string s buf = buf @ le_bytes 8 (length s) @ string_bytes s"

section \<open>Readers\<close>

record RawReader =
  mem :: "byte list"
  data_offset :: nat
  data_size :: nat

definition reader_init :: "byte list \<Rightarrow> nat \<Rightarrow> RawReader" where
  "reader_init data n = \<lparr>mem = data, data_offset = 0, data_size = n\<rparr>"

definition remainder :: "RawReader \<Rightarrow> nat" where
  "remainder r = (data_size r + 2 ^ 64 - data_offset r) mod 2 ^ 64"

text \<open>Bytes of the memory, wherever the size of the reader ends.\<close>

definition mem_bytes :: "nat \<Rightarrow> nat \<Rightarrow> RawReader \<Rightarrow> (RawReader, byte list) exec" where
  "mem_bytes start n r =
     (if start + n \<le> length (mem r) then Done r (take n (drop start (mem r))) else Throw r OutOfBounds)"

definition read_entry :: "nat \<Rightarrow> RawReader \<Rightarrow> (RawReader, nat) exec" where
  "read_entry n r =
     (if remainder r < n then Throw r (LogicError ''Insufficient space'')
      else bindv (mem_bytes (data_offset r) n r)
             (\<lambda>r bs. Done (r\<lparr>data_offset := data_offset r + n\<rparr>) (le_value bs)))"

text \<open>The start and the size of the entry; the remainder it is compared with includes the size itself.\<close>

definition read_size_prefixed_entry :: "RawReader \<Rightarrow> (RawReader, nat \<times> nat) exec" where
  "read_size_prefixed_entry r =
     (let left = remainder r in
      bindv (read_entry 8 r) (\<lambda>r entry_size.
        if left < entry_size then Throw r (RuntimeError ''Expected a longer entry'')
        else Done (r\<lparr>data_offset := data_offset r + entry_size\<rparr>) (data_offset r, entry_size)))"

text \<open>A vector of elements of \<open>n\<close> bytes is as long as whole elements fit, but all bytes are copied.\<close>

definition read_vector :: "nat \<Rightarrow> RawReader \<Rightarrow> (RawReader, byte list) exec" where
  "read_vector n r =
     bindv (read_size_prefixed_entry r) (\<lambda>r (entry_offset, entry_size).
       bindv (mem_bytes entry_offset entry_size r) (\<lambda>r bs.
         if entry_size div n * n < entry_size then Throw r OutOfBounds else Done r bs))"

fun words_of :: "byte list \<Rightarrow> Version list" where
  "words_of (b0 # b1 # b2 # b3 # b4 # b5 # b6 # b7 # bs) = le_value [b0, b1, b2, b3, b4, b5, b6, b7] # words_of bs"
| "words_of bs = []"

definition read_versions :: "RawReader \<Rightarrow> (RawReader, Version list) exec" where
  "read_versions r = bindv (read_vector 8 r) (\<lambda>r bs. Done r (words_of bs))"

definition read_array :: "nat \<Rightarrow> RawReader \<Rightarrow> (RawReader, byte list) exec" where
  "read_array n r =
     bindv (mem_bytes (data_offset r) n r) (\<lambda>r bs. Done (r\<lparr>data_offset := data_offset r + n\<rparr>) bs)"

definition read_entry_type :: "RawReader \<Rightarrow> (RawReader, EntryType) exec" where
  "read_entry_type r =
     bindv (read_entry 1 r) (\<lambda>r n.
       case entry_type_of n of
         None \<Rightarrow> Throw r (LogicError ''Invalid EntryType'')
       | Some et \<Rightarrow> Done r et)"

definition read_name :: "RawReader \<Rightarrow> (RawReader, string) exec" where
  "read_name r =
     bindv (read_size_prefixed_entry r) (\<lambda>r (entry_offset, entry_size).
       bindv (mem_bytes entry_offset entry_size r) (\<lambda>r bs. Done r (bytes_string bs)))"

definition is_eos :: "RawReader \<Rightarrow> bool" where
  "is_eos r \<longleftrightarrow> data_offset r \<ge> data_size r"

section \<open>The serialiser of an entry\<close>

text \<open>An encryptor by its operations, on a state of its own.\<close>

record 'e crypto =
  header_length :: nat
  encrypt :: "byte list \<Rightarrow> byte list \<Rightarrow> KvTxID \<Rightarrow> EntryType \<Rightarrow> bool \<Rightarrow> 'e \<Rightarrow> ('e, (byte list \<times> byte list) option) exec"
  decrypt :: "byte list \<Rightarrow> byte list \<Rightarrow> byte list \<Rightarrow> Version \<Rightarrow> bool \<Rightarrow> 'e \<Rightarrow> ('e, byte list option \<times> KvTerm) exec"
  get_term :: "byte list \<Rightarrow> KvTerm fallible"
  commit_nonce :: "KvTxID \<Rightarrow> 'e \<Rightarrow> ('e, byte list) exec"
  rollback_keys :: "Version \<Rightarrow> 'e \<Rightarrow> 'e"

definition node_encryptor ::
  "gcm_encryption \<Rightarrow> gcm_decryption \<Rightarrow> (byte list \<Rightarrow> byte list \<Rightarrow> byte list) \<Rightarrow> LedgerSecrets crypto"
where
  "node_encryptor enc dec hmac =
     \<lparr>header_length = gcm_header_length, encrypt = encryptor_encrypt enc, decrypt = encryptor_decrypt dec,
      get_term = encryptor_get_term, commit_nonce = (\<lambda>txid. get_commit_nonce hmac txid False),
      rollback_keys = secrets_rollback\<rparr>"

record serialiser =
  public_writer :: "byte list"
  private_writer :: "byte list"
  current_domain :: SecurityDomain

definition with_writer :: "(byte list \<Rightarrow> byte list) \<Rightarrow> serialiser \<Rightarrow> serialiser" where
  "with_writer f s =
     (case current_domain s of
        PUBLIC \<Rightarrow> s\<lparr>public_writer := f (public_writer s)\<rparr>
      | PRIVATE \<Rightarrow> s\<lparr>private_writer := f (private_writer s)\<rparr>)"

definition new_serialiser :: "KvTxID \<Rightarrow> EntryType \<Rightarrow> Digest \<Rightarrow> ClaimsDigest \<Rightarrow> serialiser" where
  "new_serialiser txid et commit_evidence_digest claims_digest =
     (let s = \<lparr>public_writer = [], private_writer = [], current_domain = PUBLIC\<rparr>;
          s = with_writer (append_entry_type et) s;
          s = with_writer (append_uint 8 (snd txid)) s;
          s = (if has_claims et then with_writer (append_digest (digest claims_digest)) s else s);
          s = (if has_commit_evidence et then with_writer (append_digest commit_evidence_digest) s else s)
      in with_writer (append_uint 8 0) s)"

definition start_map_out :: "bool \<Rightarrow> string \<Rightarrow> SecurityDomain \<Rightarrow> serialiser \<Rightarrow> serialiser fallible" where
  "start_map_out encrypted name domain s =
     (if domain = PRIVATE \<and> \<not> encrypted then Inl KvSerialiserException
      else Inr (with_writer (append_string name) (s\<lparr>current_domain := domain\<rparr>)))"

definition serialise_read :: "Key \<Rightarrow> Version \<Rightarrow> serialiser \<Rightarrow> serialiser" where
  "serialise_read k v s = with_writer (append_uint 8 v) (with_writer (append_serialised k) s)"

definition serialise_write :: "Key \<Rightarrow> Value \<Rightarrow> serialiser \<Rightarrow> serialiser" where
  "serialise_write k v s = with_writer (append_serialised v) (with_writer (append_serialised k) s)"

definition serialise_remove :: "Key \<Rightarrow> serialiser \<Rightarrow> serialiser" where
  "serialise_remove k s = with_writer (append_serialised k) s"

definition domain_size :: "'e crypto option \<Rightarrow> byte list \<Rightarrow> byte list \<Rightarrow> nat" where
  "domain_size crypto_util pub priv =
     length pub + (case crypto_util of None \<Rightarrow> 0 | Some c \<Rightarrow> header_length c + 8 + length priv)"

definition serialise_domains ::
  "'e crypto option \<Rightarrow> KvTxID \<Rightarrow> EntryType \<Rightarrow> nat \<Rightarrow> bool \<Rightarrow> byte list \<Rightarrow> byte list \<Rightarrow> 'e \<Rightarrow> ('e, byte list) exec"
where
  "serialise_domains crypto_util txid et header_flags historical_hint pub priv e =
     (let hdr = header_bytes \<lparr>version = 1, flags = header_flags, hsize = domain_size crypto_util pub priv\<rparr> in
      case crypto_util of
        None \<Rightarrow> Done e (hdr @ pub)
      | Some c \<Rightarrow>
          bindv (encrypt c priv pub txid et historical_hint e) (\<lambda>e r.
            case r of
              None \<Rightarrow> Throw e KvSerialiserException
            | Some (serialised_hdr, cipher) \<Rightarrow>
                attempt (write_block serialised_hdr \<lparr>written = hdr, room = domain_size crypto_util pub priv\<rparr>) e (\<lambda>cur.
                attempt (write_uint 8 (length pub) cur) e (\<lambda>cur.
                attempt (write_block pub cur) e (\<lambda>cur.
                attempt (if length cipher > 0 then write_block cipher cur else Inr cur) e (\<lambda>cur.
                  Done e (written cur @ replicate (room cur) 0)))))))"

definition get_raw_data ::
  "'e crypto option \<Rightarrow> KvTxID \<Rightarrow> EntryType \<Rightarrow> nat \<Rightarrow> bool \<Rightarrow> serialiser \<Rightarrow> 'e \<Rightarrow> ('e, byte list) exec"
where
  "get_raw_data crypto_util txid et header_flags historical_hint s e =
     serialise_domains crypto_util txid et header_flags historical_hint (public_writer s) (private_writer s) e"

section \<open>The deserialiser of an entry\<close>

record public_header =
  ph_entry_type :: EntryType
  ph_version :: Version
  ph_claims_digest :: ClaimsDigest
  ph_commit_evidence_digest :: "Digest option"

record deserialiser =
  public_reader :: RawReader
  private_reader :: RawReader
  on_private :: bool
  d_header :: public_header

definition read_public_header :: "RawReader \<Rightarrow> (RawReader, public_header) exec" where
  "read_public_header r =
     bindv (read_entry_type r) (\<lambda>r et.
     bindv (read_entry 8 r) (\<lambda>r v.
     bindv (if has_claims et then bindv (read_array 32 r) (\<lambda>r h. Done r \<lparr>is_set = True, digest = h\<rparr>)
            else Done r no_claims) (\<lambda>r claims.
     bindv (if has_commit_evidence et then bindv (read_array 32 r) (\<lambda>r h. Done r (Some h)) else Done r None) (\<lambda>r ced.
     bindv (read_entry 8 r) (\<lambda>r max_conflict_version.
       Done r \<lparr>ph_entry_type = et, ph_version = v, ph_claims_digest = claims, ph_commit_evidence_digest = ced\<rparr>)))))"

text \<open>An operation of a reader, run beside the state of the encryptor.\<close>

fun beside :: "(RawReader, 'v) exec \<Rightarrow> 'e \<Rightarrow> ('e, RawReader \<times> 'v) exec" where
  "beside (Done r v) e = Done e (r, v)"
| "beside (Throw r x) e = Throw e x"
| "beside (Diverge r) e = Diverge e"

definition new_deserialiser :: "RawReader \<Rightarrow> RawReader \<Rightarrow> public_header \<Rightarrow> deserialiser" where
  "new_deserialiser pub priv hdr =
     \<lparr>public_reader = pub, private_reader = priv, on_private = False, d_header = hdr\<rparr>"

text \<open>The part of \<open>init\<close> after the checks of the header, with an encryptor.\<close>

definition init_encrypted ::
  "'e crypto \<Rightarrow> SecurityDomain option \<Rightarrow> bool \<Rightarrow> byte list \<Rightarrow> 'e \<Rightarrow> ('e, deserialiser option \<times> KvTerm option) exec"
where
  "init_encrypted c domain_restriction historical_hint data e =
     attempt (skip_bytes (header_length c) data) e (\<lambda>rest.
     attempt (read_uint 8 rest) e (\<lambda>(public_domain_length, data_public).
     bindv (beside (read_public_header (reader_init data_public public_domain_length)) e) (\<lambda>e (pub, hdr).
       if domain_restriction = Some PUBLIC
       then attempt (get_term c (take (header_length c) data)) e (\<lambda>t.
              Done e (Some (new_deserialiser pub (reader_init [] 0) hdr), Some t))
       else attempt (skip_bytes public_domain_length data_public) e (\<lambda>cipher.
              bindv (decrypt c cipher (take public_domain_length data_public)
                      (take (header_length c) data) (ph_version hdr) historical_hint e)
                (\<lambda>e (plain, t).
                  Done e (map_option (\<lambda>p. new_deserialiser pub (reader_init p (length p)) hdr) plain, Some t))))))"

definition deserialiser_init ::
  "'e crypto option \<Rightarrow> SecurityDomain option \<Rightarrow> bool \<Rightarrow> byte list \<Rightarrow> 'e \<Rightarrow> ('e, deserialiser option \<times> KvTerm option) exec"
where
  "deserialiser_init crypto_util domain_restriction historical_hint data e =
     attempt (peek_header data) e (\<lambda>tx_header.
       let rest = drop serialised_entry_header_size data in
       if hsize tx_header \<noteq> length rest
       then Throw e (LogicError ''Reported size in entry header does not match size of entry'')
       else if version tx_header \<noteq> 1 then Throw e (LogicError ''Cannot deserialise entry format'')
       else (case crypto_util of
          None \<Rightarrow>
            bindv (beside (read_public_header (reader_init rest (length rest))) e) (\<lambda>e (pub, hdr).
              Done e (Some (new_deserialiser pub (reader_init [] 0) hdr), None))
        | Some c \<Rightarrow> init_encrypted c domain_restriction historical_hint rest e))"

definition current_reader :: "deserialiser \<Rightarrow> RawReader" where
  "current_reader d = (if on_private d then private_reader d else public_reader d)"

definition set_reader :: "RawReader \<Rightarrow> deserialiser \<Rightarrow> deserialiser" where
  "set_reader r d = (if on_private d then d\<lparr>private_reader := r\<rparr> else d\<lparr>public_reader := r\<rparr>)"

definition on_reader :: "(RawReader \<Rightarrow> (RawReader, 'v) exec) \<Rightarrow> deserialiser \<Rightarrow> (deserialiser, 'v) exec" where
  "on_reader f d =
     (case f (current_reader d) of
        Done r v \<Rightarrow> Done (set_reader r d) v
      | Throw r x \<Rightarrow> Throw (set_reader r d) x
      | Diverge r \<Rightarrow> Diverge (set_reader r d))"

definition start_map_in :: "deserialiser \<Rightarrow> (deserialiser, string option) exec" where
  "start_map_in d =
     (if is_eos (current_reader d)
      then if \<not> on_private d \<and> \<not> is_eos (private_reader d)
           then on_reader (\<lambda>r. bindv (read_name r) (\<lambda>r s. Done r (Some s))) (d\<lparr>on_private := True\<rparr>)
           else Done d None
      else on_reader (\<lambda>r. bindv (read_name r) (\<lambda>r s. Done r (Some s))) d)"

definition d_end :: "deserialiser \<Rightarrow> bool" where
  "d_end d \<longleftrightarrow> is_eos (current_reader d) \<and> is_eos (public_reader d)"

section \<open>The change set of a map\<close>

text \<open>\<open>serialise_changes\<close>, after \<open>start_map\<close>.\<close>

definition of_deletable :: "DeletableVersion \<Rightarrow> Version" where
  "of_deletable v = nat (v mod 2 ^ 64)"

definition serialise_writes :: "Write \<Rightarrow> serialiser \<Rightarrow> serialiser" where
  "serialise_writes w s =
     (let s = with_writer (append_uint 8 (length (filter (\<lambda>(k, v). v \<noteq> None) w))) s;
          s = fold (\<lambda>(k, v) s. case v of Some x \<Rightarrow> serialise_write k x s | None \<Rightarrow> s) w s;
          s = with_writer (append_uint 8 (length (filter (\<lambda>(k, v). v = None) w))) s
      in fold (\<lambda>(k, v) s. case v of Some x \<Rightarrow> s | None \<Rightarrow> serialise_remove k s) w s)"

definition serialise_changes :: "bool \<Rightarrow> kv_map \<Rightarrow> ChangeSet \<Rightarrow> bool \<Rightarrow> serialiser \<Rightarrow> serialiser fallible" where
  "serialise_changes encrypted m cs include_reads s =
     (case start_map_out encrypted (map_name m) (security_domain m) s of
        Inl x \<Rightarrow> Inl x
      | Inr s \<Rightarrow>
          let s = (if include_reads
                   then fold (\<lambda>(k, r) s. serialise_read k (of_deletable (fst r)) s) (reads cs)
                          (with_writer (append_uint 8 (length (reads cs))) (with_writer (append_uint 8 (read_version cs)) s))
                   else with_writer (append_uint 8 0) (with_writer (append_uint 8 NoVersion) s))
          in Inr (serialise_writes (writes cs) s))"

fun deserialise_reads :: "nat \<Rightarrow> ChangeSet \<Rightarrow> RawReader \<Rightarrow> (RawReader, ChangeSet) exec" where
  "deserialise_reads 0 cs r = Done r cs"
| "deserialise_reads (Suc n) cs r =
     bindv (read_vector 1 r) (\<lambda>r k. bindv (read_entry 8 r) (\<lambda>r v.
       deserialise_reads n (cs\<lparr>reads := upd_sorted k (to_deletable v, NoVersion) (reads cs)\<rparr>) r))"

fun deserialise_writes :: "nat \<Rightarrow> ChangeSet \<Rightarrow> RawReader \<Rightarrow> (RawReader, ChangeSet) exec" where
  "deserialise_writes 0 cs r = Done r cs"
| "deserialise_writes (Suc n) cs r =
     bindv (read_vector 1 r) (\<lambda>r k. bindv (read_vector 1 r) (\<lambda>r v.
       deserialise_writes n (cs\<lparr>writes := upd_sorted k (Some v) (writes cs)\<rparr>) r))"

fun deserialise_removes :: "nat \<Rightarrow> ChangeSet \<Rightarrow> RawReader \<Rightarrow> (RawReader, ChangeSet) exec" where
  "deserialise_removes 0 cs r = Done r cs"
| "deserialise_removes (Suc n) cs r =
     bindv (read_vector 1 r) (\<lambda>r k.
       deserialise_removes n (cs\<lparr>writes := upd_sorted k None (writes cs)\<rparr>) r)"

definition deserialise_changes :: "kv_map \<Rightarrow> Version \<Rightarrow> RawReader \<Rightarrow> (RawReader, ChangeSet) exec" where
  "deserialise_changes m v r =
     (case create_change_set v m of
        None \<Rightarrow> Throw r (LogicError ''Can't create change set'')
      | Some cs \<Rightarrow>
          bindv (read_entry 8 r) (\<lambda>r rv.
          let cs = (if rv \<noteq> NoVersion then cs\<lparr>read_version := rv\<rparr> else cs) in
          bindv (read_entry 8 r) (\<lambda>r n. bindv (deserialise_reads n cs r) (\<lambda>r cs.
          bindv (read_entry 8 r) (\<lambda>r n. bindv (deserialise_writes n cs r) (\<lambda>r cs.
          bindv (read_entry 8 r) (\<lambda>r n. deserialise_removes n cs r)))))))"

end
