(* ===== verification/Kv_Tx.thy ===== *)
theory Kv_Tx
  imports Kv_Store Kv_Raw
begin

text \<open>
  Transactions: the handles they open (ccf/tx.h, kv/tx.cpp), and how they are committed and
  serialised (kv/committable_tx.h). A handle is a reference to the change set of its map, so it is
  the name of the map. The state of an operation is the store, the state of the encryptor and the
  transaction; the hash function and the encryptor are parameters.
\<close>

section \<open>State\<close>

record Tx =
  read_txid :: "KvTxID option"
  commit_view :: KvTerm
  created_maps :: MapCollection
  all_changes :: OrderedChanges
  tx_committed :: bool
  tx_success :: bool
  tx_version :: Version
  tx_flags :: "8 word"
  tx_entry_flags :: "8 word"

type_synonym ('q, 'e) tx_state = "'q pending_tx kv_store \<times> 'e \<times> Tx"

definition new_tx :: Tx where
  "new_tx = \<lparr>read_txid = None, commit_view = 0, created_maps = [], all_changes = [], tx_committed = False,
     tx_success = False, tx_version = NoVersion, tx_flags = 0, tx_entry_flags = 0\<rparr>"

definition new_reserved_tx :: "KvTerm \<Rightarrow> KvTxID \<Rightarrow> Tx" where
  "new_reserved_tx read_term reserved =
     new_tx\<lparr>tx_version := snd reserved, commit_view := fst reserved,
       read_txid := Some (read_term, (snd reserved + 2 ^ 64 - 1) mod 2 ^ 64)\<rparr>"

definition LEDGER_CHUNK_BEFORE_THIS_TX :: "8 word" where
  "LEDGER_CHUNK_BEFORE_THIS_TX = 0x04"

definition FORCE_LEDGER_CHUNK_AFTER :: "8 word" where
  "FORCE_LEDGER_CHUNK_AFTER = 0x01"

definition FORCE_LEDGER_CHUNK_BEFORE :: "8 word" where
  "FORCE_LEDGER_CHUNK_BEFORE = 0x02"

definition tx_set_flag :: "8 word \<Rightarrow> Tx \<Rightarrow> Tx" where
  "tx_set_flag f tx = tx\<lparr>tx_flags := tx_flags tx OR f\<rparr>"

definition tx_unset_flag :: "8 word \<Rightarrow> Tx \<Rightarrow> Tx" where
  "tx_unset_flag f tx = tx\<lparr>tx_flags := tx_flags tx AND NOT f\<rparr>"

definition tx_flag_enabled :: "8 word \<Rightarrow> Tx \<Rightarrow> bool" where
  "tx_flag_enabled f tx \<longleftrightarrow> tx_flags tx AND f \<noteq> 0"

definition set_read_txid :: "KvTxID \<Rightarrow> KvTerm \<Rightarrow> Tx \<Rightarrow> (Tx, unit) exec" where
  "set_read_txid txid commit_view_arg tx =
     (if read_txid tx \<noteq> None then Throw tx (LogicError ''Read TxID already set'')
      else ok (tx\<lparr>read_txid := Some txid, commit_view := commit_view_arg\<rparr>))"

text \<open>\<open>std::map::merge\<close> keeps what is there.\<close>

definition set_change_list :: "OrderedChanges \<Rightarrow> KvTerm \<Rightarrow> Tx \<Rightarrow> Tx" where
  "set_change_list changes t tx =
     tx\<lparr>all_changes := fold (\<lambda>(n, c) m. if map_of m n = None then upd_sorted n c m else m) changes (all_changes tx),
        commit_view := t\<rparr>"

section \<open>Handles\<close>

definition get_map_and_change_set_by_name ::
  "string \<Rightarrow> 'p kv_store \<times> Tx \<Rightarrow> ('p kv_store \<times> Tx, addr \<times> ChangeSet option) exec"
where
  "get_map_and_change_set_by_name name s =
     (let (st, tx) = s;
          tx = (if read_txid tx = None
                then tx\<lparr>read_txid := Some (current_txid st), commit_view := term_of_next_version st\<rparr> else tx);
          v = snd (the (read_txid tx))
      in case get_map_internal v name st of
           Some a \<Rightarrow> Done (st, tx) (a, create_change_set v (heap st a))
         | None \<Rightarrow>
             if map_of (created_maps tx) name \<noteq> None
             then Throw (st, tx) (LogicError ''Created map without creating handle over it'')
             else
               let (st, a) = alloc_map name st;
                   tx = tx\<lparr>created_maps := upd_sorted name a (created_maps tx)\<rparr>
               in Done (st, tx) (a, create_change_set v (heap st a)))"

definition get_handle_by_name :: "string \<Rightarrow> 'p kv_store \<times> Tx \<Rightarrow> ('p kv_store \<times> Tx, unit) exec" where
  "get_handle_by_name name s =
     (if map_of (all_changes (snd s)) name \<noteq> None then ok s
      else bindv (get_map_and_change_set_by_name name s) (\<lambda>(st, tx) (a, change_set).
        case change_set of
          None \<Rightarrow> Throw (st, tx) (CompactedVersionConflict name)
        | Some cs \<Rightarrow> ok (st, tx\<lparr>all_changes := upd_sorted name (a, Normal cs) (all_changes tx)\<rparr>)))"

text \<open>An operation through the handle on a map.\<close>

definition on_handle ::
  "string \<Rightarrow> (ChangeSet \<Rightarrow> ChangeSet \<times> 'v) \<Rightarrow> 'p kv_store \<times> Tx \<Rightarrow> ('p kv_store \<times> Tx, 'v) exec"
where
  "on_handle name f s =
     bindv (get_handle_by_name name s) (\<lambda>(st, tx) _.
       case map_of (all_changes tx) name of
         Some (a, Normal cs) \<Rightarrow>
           let (cs, v) = f cs in Done (st, tx\<lparr>all_changes := upd_sorted name (a, Normal cs) (all_changes tx)\<rparr>) v
       | _ \<Rightarrow> Throw (st, tx) NullDereference)"

section \<open>Serialisation\<close>

fun change_set_of :: "changes \<Rightarrow> ChangeSet" where
  "change_set_of (Normal cs) = cs"
| "change_set_of (Snapshot ss) = make_change_set 0 champ_empty champ_empty NoVersion"

definition serialise_domain ::
  "SecurityDomain \<Rightarrow> bool \<Rightarrow> 'p kv_store \<Rightarrow> OrderedChanges \<Rightarrow> serialiser \<Rightarrow> serialiser fallible"
where
  "serialise_domain domain include_reads st changes s =
     fold (\<lambda>(name, a, c) r.
        case r of
          Inl x \<Rightarrow> Inl x
        | Inr s \<Rightarrow>
            if security_domain (heap st a) = domain \<and> replicated (heap st a) \<and> changes_have_writes c
            then serialise_changes (has_encryptor st) (heap st a) (change_set_of c) include_reads s
            else Inr s) changes (Inr s)"

text \<open>The data, the commit evidence and its digest.\<close>

definition tx_serialise ::
  "(byte list \<Rightarrow> Digest) \<Rightarrow> 'e crypto \<Rightarrow> ClaimsDigest \<Rightarrow> bool \<Rightarrow> ('q, 'e) tx_state
   \<Rightarrow> (('q, 'e) tx_state, byte list \<times> Digest \<times> string) exec"
where
  "tx_serialise sha256 c claims include_reads s =
     (let (st, e, tx) = s; txid = (commit_view tx, tx_version tx); none = replicate 32 0 in
      if \<not> tx_committed tx then Throw s (LogicError ''Transaction not yet committed'')
      else if \<not> tx_success tx then Throw s (LogicError ''Transaction aborted'')
      else if \<not> is_set claims then Throw s (LogicError ''Missing claims'')
      else if \<not> list_ex (\<lambda>(name, a, c). changes_have_writes c) (all_changes tx) then Done s ([], none, [])
      else if \<not> has_encryptor st then Throw s KvSerialiserException
      else (case commit_nonce c txid e of
         Throw e x \<Rightarrow> Throw (st, e, tx) x
       | Diverge e \<Rightarrow> Diverge (st, e, tx)
       | Done e nonce \<Rightarrow>
           let evidence = commit_evidence_str txid nonce;
               ced = sha256 (string_bytes evidence);
               tx = (if tx_flag_enabled LEDGER_CHUNK_BEFORE_THIS_TX tx
                     then tx\<lparr>tx_entry_flags := tx_entry_flags tx OR FORCE_LEDGER_CHUNK_BEFORE\<rparr> else tx);
               et = WriteSetWithCommitEvidenceAndClaims
           in attempt (serialise_domain PUBLIC include_reads st (all_changes tx) (new_serialiser txid et ced claims)) (st, e, tx) (\<lambda>ser.
              attempt (serialise_domain PRIVATE include_reads st (all_changes tx) ser) (st, e, tx) (\<lambda>ser.
              case get_raw_data (Some c) txid et (unat (tx_entry_flags tx)) False ser e of
                Throw e x \<Rightarrow> Throw (st, e, tx) x
              | Diverge e \<Rightarrow> Diverge (st, e, tx)
              | Done e data \<Rightarrow> Done (st, e, tx) (data, ced, evidence)))))"

section \<open>Commit\<close>

text \<open>\<open>apply_changes\<close> on the changes of a transaction.\<close>

definition tx_apply ::
  "'q pending_tx resolver \<Rightarrow> Version option \<Rightarrow> bool \<Rightarrow> ('q, 'e) tx_state
   \<Rightarrow> (('q, 'e) tx_state, Version option \<times> hook_call list) exec"
where
  "tx_apply resolver conflict track s =
     (let (st, e, tx) = s in
      case apply_changes (all_changes tx) resolver (created_maps tx) conflict track st of
        Throw st x \<Rightarrow> Throw (st, e, tx) x
      | Diverge st \<Rightarrow> Diverge (st, e, tx)
      | Done st r \<Rightarrow> Done (st, e, tx\<lparr>tx_success := fst r \<noteq> None\<rparr>) r)"

text \<open>The flags a transaction hands on to the store.\<close>

definition hand_on_flag :: "8 word \<Rightarrow> ('q, 'e) tx_state \<Rightarrow> ('q, 'e) tx_state" where
  "hand_on_flag f s =
     (let (st, e, tx) = s in
      if tx_flag_enabled f tx then (set_flag f st, e, tx_unset_flag f tx) else s)"

text \<open>An exception while the entry is made is replaced, and the transaction is not committed after all.\<close>

fun serialiser_failure :: "(('q, 'e) tx_state, 'v) exec \<Rightarrow> (('q, 'e) tx_state, 'v) exec" where
  "serialiser_failure (Done s v) = Done s v"
| "serialiser_failure (Diverge s) = Diverge s"
| "serialiser_failure (Throw s x) =
     (let (st, e, tx) = s in
      if is_std_exception x then Throw (st, e, tx\<lparr>tx_committed := False\<rparr>) KvSerialiserException else Throw s x)"

definition tx_replicate ::
  "(byte list \<Rightarrow> Digest) \<Rightarrow> 'e crypto
   \<Rightarrow> ('q \<Rightarrow> 'q pending_tx kv_store \<Rightarrow> ('q pending_tx kv_store, PendingTxInfo) exec)
   \<Rightarrow> (batch \<Rightarrow> KvTerm \<Rightarrow> 'q pending_tx kv_store \<Rightarrow> 'q pending_tx kv_store \<times> bool) \<Rightarrow> nat
   \<Rightarrow> ClaimsDigest \<Rightarrow> bool \<Rightarrow> hook_call list \<Rightarrow> ('q, 'e) tx_state \<Rightarrow> (('q, 'e) tx_state, CommitResult) exec"
where
  "tx_replicate sha256 c other repl fuel claims observe hooks s =
     bindv (tx_serialise sha256 c claims False s) (\<lambda>(st, e, tx) (data, ced, evidence).
       if data = [] then Done (st, e, tx) SUCCESS
       else
         let st = (if observe then st_emit (WriteSetObserved data evidence) st else st);
             info = \<lparr>pti_success = SUCCESS, pti_data = data, pti_claims_digest = claims,
                     pti_commit_evidence_digest = ced, pti_hooks = hooks\<rparr>
         in case store_commit (call_pending other) repl fuel (commit_view tx, tx_version tx) (MovePendingTx info) False st of
              Throw st x \<Rightarrow> Throw (st, e, tx) x
            | Diverge st \<Rightarrow> Diverge (st, e, tx)
            | Done st r \<Rightarrow> Done (st, e, tx) r)"

definition tx_commit ::
  "(byte list \<Rightarrow> Digest) \<Rightarrow> 'e crypto
   \<Rightarrow> ('q \<Rightarrow> 'q pending_tx kv_store \<Rightarrow> ('q pending_tx kv_store, PendingTxInfo) exec)
   \<Rightarrow> (batch \<Rightarrow> KvTerm \<Rightarrow> 'q pending_tx kv_store \<Rightarrow> 'q pending_tx kv_store \<times> bool) \<Rightarrow> nat
   \<Rightarrow> ClaimsDigest \<Rightarrow> bool \<Rightarrow> 'q pending_tx resolver option \<Rightarrow> bool
   \<Rightarrow> ('q, 'e) tx_state \<Rightarrow> (('q, 'e) tx_state, CommitResult) exec"
where
  "tx_commit sha256 c other repl fuel claims track version_resolver observe s =
     (let (st, e, tx) = s in
      if tx_committed tx then Throw s (LogicError ''Transaction already committed'')
      else if all_changes tx = [] then Done (st, e, tx\<lparr>tx_committed := True, tx_success := True\<rparr>) SUCCESS
      else
        bindv (tx_apply (case version_resolver of None \<Rightarrow> next_version | Some f \<Rightarrow> f) None track s)
          (\<lambda>(st, e, tx) (v, hooks). case v of
             None \<Rightarrow> Done (st, e, tx) FAIL_CONFLICT
           | Some v \<Rightarrow>
               let s = (st, e, tx\<lparr>tx_committed := True, tx_version := v\<rparr>);
                   s = hand_on_flag LEDGER_CHUNK_AT_NEXT_SIGNATURE s;
                   s = hand_on_flag SNAPSHOT_AT_NEXT_SIGNATURE s
               in if v = NoVersion then Done s SUCCESS
                  else serialiser_failure (tx_replicate sha256 c other repl fuel claims observe hooks s)))"

definition tx_finished :: "Tx \<Rightarrow> unit fallible" where
  "tx_finished tx =
     (if \<not> tx_committed tx then Inl (LogicError ''Transaction not yet committed'')
      else if \<not> tx_success tx then Inl (LogicError ''Transaction aborted'')
      else Inr ())"

definition commit_version :: "Tx \<Rightarrow> Version fallible" where
  "commit_version tx = (case tx_finished tx of Inl x \<Rightarrow> Inl x | Inr _ \<Rightarrow> Inr (tx_version tx))"

definition commit_term :: "Tx \<Rightarrow> KvTerm fallible" where
  "commit_term tx = (case tx_finished tx of Inl x \<Rightarrow> Inl x | Inr _ \<Rightarrow> Inr (commit_view tx))"

definition get_txid :: "Tx \<Rightarrow> KvTxID option fallible" where
  "get_txid tx =
     (if \<not> tx_committed tx then Inl (LogicError ''Transaction not yet committed'')
      else if read_txid tx = None then Inr None
      else if tx_version tx = NoVersion then Inr (read_txid tx)
      else Inr (Some (commit_view tx, tx_version tx)))"

text \<open>Reserved transactions, which record signatures at a version that was given out before.\<close>

definition commit_reserved ::
  "(byte list \<Rightarrow> Digest) \<Rightarrow> 'e crypto \<Rightarrow> (Version \<Rightarrow> bool) \<Rightarrow> ('q, 'e) tx_state
   \<Rightarrow> (('q, 'e) tx_state, PendingTxInfo) exec"
where
  "commit_reserved sha256 c record_committable s =
     (let tx = snd (snd s); v = tx_version tx in
      if tx_committed tx then Throw s (LogicError ''Transaction already committed'')
      else if all_changes tx = [] then Throw s (LogicError ''Reserved transaction cannot be empty'')
      else
        bindv (tx_apply (\<lambda>_ st. (st, v, (v + 2 ^ 64 - 1) mod 2 ^ 64)) (Some v) False s)
          (\<lambda>(st, e, tx) (r, hooks).
            if r = None then Throw (st, e, tx) (LogicError ''Failed to commit reserved transaction'')
            else
              let tx = (if must_force_ledger_chunk record_committable v st
                        then tx\<lparr>tx_entry_flags := tx_entry_flags tx OR FORCE_LEDGER_CHUNK_AFTER\<rparr> else tx);
                  tx = tx\<lparr>tx_committed := True\<rparr>
              in bindv (tx_serialise sha256 c empty_claims False (st, e, tx)) (\<lambda>(st, e, tx) (data, ced, evidence).
                   Done (unset_flag LEDGER_CHUNK_AT_NEXT_SIGNATURE st, e, tx)
                     \<lparr>pti_success = SUCCESS, pti_data = data, pti_claims_digest = empty_claims,
                      pti_commit_evidence_digest = ced, pti_hooks = hooks\<rparr>)))"

end
