(* ===== verification/Kv_Format.thy ===== *)
theory Kv_Format
  imports Kv_Raw
begin

text \<open>
  The format of entries read back: what the writers of \<open>Kv_Raw\<close> put into a buffer its readers
  take out again, up to the change set of a map and the two parts of an entry.
\<close>

section \<open>Parsers\<close>

definition good :: "RawReader \<Rightarrow> bool" where
  "good r \<longleftrightarrow> data_offset r \<le> data_size r \<and> data_size r \<le> length (mem r) \<and> data_size r < 2 ^ 64"

definition unread :: "RawReader \<Rightarrow> byte list" where
  "unread r = take (data_size r - data_offset r) (drop (data_offset r) (mem r))"

text \<open>\<open>f\<close> takes exactly the bytes \<open>bs\<close> and gives \<open>v\<close>.\<close>

definition parses :: "(RawReader \<Rightarrow> (RawReader, 'v) exec) \<Rightarrow> byte list \<Rightarrow> 'v \<Rightarrow> bool" where
  "parses f bs v \<longleftrightarrow>
     (\<forall>r xs. good r \<and> unread r = bs @ xs \<longrightarrow> (\<exists>r'. f r = Done r' v \<and> good r' \<and> unread r' = xs \<and> mem r' = mem r))"

named_theorems parse_rules \<open>what the readers take out of a buffer\<close>

lemma parses_return [parse_rules]: "parses (\<lambda>r. Done r v) [] v"
  by (simp add: parses_def)

lemma parses_bindv:
  assumes "parses f bs v" and "parses (\<lambda>r. g r v) bs' v'"
  shows "parses (\<lambda>r. bindv (f r) g) (bs @ bs') v'"
  unfolding parses_def
proof (intro allI impI, elim conjE)
  fix r xs assume "good r" and "unread r = (bs @ bs') @ xs"
  then obtain r1 where "f r = Done r1 v" "good r1" "unread r1 = bs' @ xs" "mem r1 = mem r"
    using assms(1) unfolding parses_def by fastforce
  moreover from this obtain r2 where "g r1 v = Done r2 v'" "good r2" "unread r2 = xs" "mem r2 = mem r1"
    using assms(2) unfolding parses_def by blast
  ultimately show "\<exists>r'. bindv (f r) g = Done r' v' \<and> good r' \<and> unread r' = xs \<and> mem r' = mem r"
    by simp
qed

lemma advance:
  assumes "good r" and "unread r = bs @ xs"
  shows "good (r\<lparr>data_offset := data_offset r + length bs\<rparr>)"
    and "unread (r\<lparr>data_offset := data_offset r + length bs\<rparr>) = xs"
    and "mem_bytes (data_offset r) (length bs) r = Done r bs"
    and "remainder r = length bs + length xs"
    and "length bs + length xs < 2 ^ 64"
proof -
  have len: "length bs + length xs = data_size r - data_offset r"
    using arg_cong [OF assms(2), of length] assms(1) by (simp add: unread_def good_def min_def split: if_splits)
  show "good (r\<lparr>data_offset := data_offset r + length bs\<rparr>)"
    using assms(1) len by (auto simp: good_def)
  have "drop (length bs) (unread r) = xs" using assms(2) by simp
  then show "unread (r\<lparr>data_offset := data_offset r + length bs\<rparr>) = xs"
    by (simp add: unread_def drop_take add.commute)
  have "take (length bs) (unread r) = bs" using assms(2) by simp
  moreover have "length bs \<le> data_size r - data_offset r" using len by simp
  ultimately have "take (length bs) (drop (data_offset r) (mem r)) = bs" by (simp add: unread_def min_def)
  then show "mem_bytes (data_offset r) (length bs) r = Done r bs"
    using assms(1) len by (auto simp: mem_bytes_def good_def)
  show small: "length bs + length xs < 2 ^ 64" using assms(1) len by (auto simp: good_def)
  have "data_size r + 2 ^ 64 - data_offset r = (length bs + length xs) + 2 ^ 64"
    using assms(1) len by (auto simp: good_def)
  then show "remainder r = length bs + length xs" using small by (simp only: remainder_def mod_add_self2 mod_less)
qed

lemma parses_uint:
  assumes "v < 256 ^ n"
  shows "parses (read_entry n) (le_bytes n v) v"
  unfolding parses_def
proof (intro allI impI, elim conjE)
  fix r xs assume r: "good r" "unread r = le_bytes n v @ xs"
  from advance [OF r] show "\<exists>r'. read_entry n r = Done r' v \<and> good r' \<and> unread r' = xs \<and> mem r' = mem r"
    using le_value_le_bytes [OF assms] by (simp add: read_entry_def)
qed

lemma parses_u64 [parse_rules]: "v < 2 ^ 64 \<Longrightarrow> parses (read_entry 8) (le_bytes 8 v) v"
  by (rule parses_uint) simp

lemma parses_array: "length h = n \<Longrightarrow> parses (read_array n) h h"
  unfolding parses_def read_array_def
proof (intro allI impI, elim conjE)
  fix r xs assume n: "length h = n" and r: "good r" "unread r = h @ xs"
  from advance [OF r] show "\<exists>r'. bindv (mem_bytes (data_offset r) n r) (\<lambda>r bs. Done (r\<lparr>data_offset := data_offset r + n\<rparr>) bs) = Done r' h
      \<and> good r' \<and> unread r' = xs \<and> mem r' = mem r"
    using n by simp
qed

text \<open>A size and then that many bytes.\<close>

lemma read_prefixed:
  assumes "good r" and "unread r = le_bytes 8 (length e) @ e @ xs"
  defines "r' \<equiv> r\<lparr>data_offset := data_offset r + 8 + length e\<rparr>"
  shows "read_size_prefixed_entry r = Done r' (data_offset r + 8, length e)"
    and "good r'" and "unread r' = xs" and "mem_bytes (data_offset r + 8) (length e) r' = Done r' e"
proof -
  note a = advance [OF assms(1,2)]
  let ?r1 = "r\<lparr>data_offset := data_offset r + 8\<rparr>"
  have g1: "good ?r1" and u1: "unread ?r1 = e @ xs" using a(1,2) by simp_all
  note b = advance [OF g1 u1]
  have "length e < 256 ^ 8" using a(5) by simp
  then have "read_entry 8 r = Done ?r1 (length e)"
    using a(3,4) le_value_le_bytes [of "length e" 8] by (simp add: read_entry_def)
  then show "read_size_prefixed_entry r = Done r' (data_offset r + 8, length e)"
    using a(4) by (simp add: read_size_prefixed_entry_def r'_def)
  show "good r'" and "unread r' = xs" using b(1,2) by (simp_all add: r'_def)
  have "mem_bytes (data_offset ?r1) (length e) ?r1 = Done ?r1 e" by (rule b(3))
  then show "mem_bytes (data_offset r + 8) (length e) r' = Done r' e"
    by (simp add: mem_bytes_def r'_def split: if_splits)
qed

definition entry_bytes8 :: "byte list \<Rightarrow> byte list" where
  "entry_bytes8 e = le_bytes 8 (length e) @ e"

lemma parses_vector:
  assumes "length e mod n = 0"
  shows "parses (read_vector n) (entry_bytes8 e) e"
  unfolding parses_def
proof (intro allI impI, elim conjE)
  fix r xs assume r: "good r" "unread r = entry_bytes8 e @ xs"
  have u: "unread r = le_bytes 8 (length e) @ e @ xs" using r(2) by (simp add: entry_bytes8_def)
  have "length e div n * n = length e" using assms by (metis add.right_neutral div_mult_mod_eq)
  then show "\<exists>r'. read_vector n r = Done r' e \<and> good r' \<and> unread r' = xs \<and> mem r' = mem r"
    using read_prefixed [OF r(1) u] by (simp add: read_vector_def)
qed

lemma parses_entry [parse_rules]: "parses (read_vector 1) (entry_bytes8 e) e"
  by (rule parses_vector) simp

lemma parses_name [parse_rules]: "parses read_name (entry_bytes8 (string_bytes s)) s"
  unfolding parses_def
proof (intro allI impI, elim conjE)
  fix r xs assume r: "good r" "unread r = entry_bytes8 (string_bytes s) @ xs"
  have u: "unread r = le_bytes 8 (length (string_bytes s)) @ string_bytes s @ xs"
    using r(2) by (simp add: entry_bytes8_def)
  show "\<exists>r'. read_name r = Done r' s \<and> good r' \<and> unread r' = xs \<and> mem r' = mem r"
    using read_prefixed [OF r(1) u] by (simp add: read_name_def)
qed

lemma parses_entry_type [parse_rules]: "parses read_entry_type (le_bytes 1 (entry_type_code et)) et"
proof -
  have "parses (\<lambda>r. bindv (read_entry 1 r) (\<lambda>r n. case entry_type_of n of
         None \<Rightarrow> Throw r (LogicError ''Invalid EntryType'') | Some et \<Rightarrow> Done r et))
      (le_bytes 1 (entry_type_code et) @ []) et"
    by (rule parses_bindv [OF parses_uint]) (simp_all add: entry_type_code_less parses_return)
  then show ?thesis by (simp add: read_entry_type_def [abs_def])
qed

lemma words_of_append: "length b = 8 \<Longrightarrow> words_of (b @ bs) = le_value b # words_of bs"
proof -
  assume "length b = 8"
  then have "length b = Suc (Suc (Suc (Suc (Suc (Suc (Suc (Suc 0)))))))" by simp
  then obtain b0 b1 b2 b3 b4 b5 b6 b7 where "b = [b0, b1, b2, b3, b4, b5, b6, b7]"
    by (auto simp only: length_Suc_conv length_0_conv)
  then show ?thesis by simp
qed

lemma words_of_concat: "\<forall>v\<in>set vs. v < 2 ^ 64 \<Longrightarrow> words_of (concat (map (le_bytes 8) vs)) = vs"
proof (induction vs)
  case (Cons v vs)
  then have "v < 256 ^ 8" by simp
  with Cons show ?case by (simp add: words_of_append le_value_le_bytes)
qed simp

lemma length_concat_words: "length (concat (map (le_bytes 8) vs)) = length vs * 8"
  by (induction vs) simp_all

lemma parses_versions:
  assumes "\<forall>v\<in>set vs. v < 2 ^ 64"
  shows "parses read_versions (append_versions vs []) vs"
proof -
  have "parses (\<lambda>r. bindv (read_vector 8 r) (\<lambda>r bs. Done r (words_of bs)))
      (entry_bytes8 (concat (map (le_bytes 8) vs)) @ []) vs"
    by (rule parses_bindv [OF parses_vector])
      (simp_all add: length_concat_words words_of_concat [OF assms] parses_return)
  moreover have "append_versions vs [] = entry_bytes8 (concat (map (le_bytes 8) vs)) @ []"
    by (cases vs) (simp_all add: append_versions_def append_uint_def entry_bytes8_def length_concat_words)
  ultimately show ?thesis by (simp only: read_versions_def [abs_def])
qed

text \<open>C38: The size of a length-prefixed entry is compared with what remained before its own eight bytes
  were read. So a claimed size that is larger than what follows by up to eight is accepted: the
  reader moves past its end, and where its buffer ends there the copy reads outside of it.\<close>

theorem prefixed_entry_overruns:
  assumes "good r" and "unread r = le_bytes 8 n @ xs" and "length xs < n" and "n \<le> length xs + 8"
  shows "\<exists>r'. read_size_prefixed_entry r = Done r' (data_offset r + 8, n) \<and> data_size r' < data_offset r'
    \<and> (data_size r = length (mem r) \<longrightarrow> read_vector 1 r = Throw r' OutOfBounds)"
proof -
  note a = advance [OF assms(1,2)]
  let ?r1 = "r\<lparr>data_offset := data_offset r + 8\<rparr>" and ?r2 = "r\<lparr>data_offset := data_offset r + 8 + n\<rparr>"
  have n: "n < 256 ^ 8" using a(5) assms(4) by simp
  have "read_entry 8 r = Done ?r1 n"
    using a(3,4) le_value_le_bytes [OF n] by (simp add: read_entry_def)
  then have p: "read_size_prefixed_entry r = Done ?r2 (data_offset r + 8, n)"
    using a(4) assms(4) by (simp add: read_size_prefixed_entry_def)
  have "8 + length xs = data_size r - data_offset r"
    using arg_cong [OF assms(2), of length] assms(1) by (simp add: unread_def good_def min_def split: if_splits)
  then have off: "data_size r < data_offset r + 8 + n" using assms(3) by linarith
  then have "read_vector 1 r = Throw ?r2 OutOfBounds" if "data_size r = length (mem r)"
    using that p by (simp add: read_vector_def mem_bytes_def)
  with p off show ?thesis by auto
qed

theorem prefixed_entry_overruns_witness:
  "read_vector 1 (reader_init (le_bytes 8 9 @ [7]) 9)
    = Throw \<lparr>mem = le_bytes 8 9 @ [7], data_offset = 17, data_size = 9\<rparr> OutOfBounds"
proof -
  let ?r = "reader_init (le_bytes 8 9 @ [7]) 9"
  have "good ?r" "unread ?r = le_bytes 8 9 @ [7]" by (simp_all add: good_def unread_def reader_init_def)
  from prefixed_entry_overruns [OF this] obtain r' where
    "read_size_prefixed_entry ?r = Done r' (data_offset ?r + 8, 9)" "read_vector 1 ?r = Throw r' OutOfBounds"
    by (auto simp: reader_init_def)
  moreover have "le_value (le_bytes 8 9) = 9" by (rule le_value_le_bytes) simp
  ultimately show ?thesis
    by (auto simp: read_size_prefixed_entry_def read_entry_def mem_bytes_def remainder_def reader_init_def simp del: le_bytes.simps)
qed

section \<open>The change set of a map\<close>

definition sets :: "Write \<Rightarrow> (Key \<times> Value) list" where
  "sets w = List.map_filter (\<lambda>(k, v). map_option (Pair k) v) w"

definition rems :: "Write \<Rightarrow> Key list" where
  "rems w = List.map_filter (\<lambda>(k, v). case v of None \<Rightarrow> Some k | Some _ \<Rightarrow> None) w"

definition writes_bytes :: "Write \<Rightarrow> byte list" where
  "writes_bytes w =
     le_bytes 8 (length (sets w)) @ concat (map (\<lambda>(k, v). entry_bytes8 k @ entry_bytes8 v) (sets w))
     @ le_bytes 8 (length (rems w)) @ concat (map entry_bytes8 (rems w))"

definition changes_bytes :: "Write \<Rightarrow> byte list" where
  "changes_bytes w = le_bytes 8 NoVersion @ le_bytes 8 0 @ writes_bytes w"

lemma sets_rems_simps [simp]:
  "sets [] = []" "sets ((k, Some v) # w) = (k, v) # sets w" "sets ((k, None) # w) = sets w"
  "rems [] = []" "rems ((k, Some v) # w) = rems w" "rems ((k, None) # w) = k # rems w"
  by (simp_all add: sets_def rems_def List.map_filter_simps)

lemma count_sets: "length (filter (\<lambda>(k, v). v \<noteq> None) w) = length (sets w)"
  and count_rems: "length (filter (\<lambda>(k, v). v = None) w) = length (rems w)"
  by (induction w) (auto simp: sets_def rems_def List.map_filter_simps)

lemma append_entry_bytes: "append_serialised e buf = buf @ entry_bytes8 e"
  by (simp add: append_serialised_def append_uint_def entry_bytes8_def Let_def)

lemma with_writer_comp: "with_writer f (with_writer g s) = with_writer (\<lambda>b. f (g b)) s"
  by (cases s) (simp add: with_writer_def split: SecurityDomain.split)

lemma with_writer_id: "with_writer (\<lambda>b. b) s = s"
  by (cases s) (simp add: with_writer_def split: SecurityDomain.split)

lemma serialise_sets:
  "fold (\<lambda>(k, v) s. case v of Some x \<Rightarrow> serialise_write k x s | None \<Rightarrow> s) w s
    = with_writer (\<lambda>b. b @ concat (map (\<lambda>(k, v). entry_bytes8 k @ entry_bytes8 v) (sets w))) s"
  by (induction w arbitrary: s rule: list.induct)
    (auto simp: with_writer_id serialise_write_def with_writer_comp append_entry_bytes split: option.split)

lemma serialise_rems:
  "fold (\<lambda>(k, v) s. case v of Some x \<Rightarrow> s | None \<Rightarrow> serialise_remove k s) w s
    = with_writer (\<lambda>b. b @ concat (map entry_bytes8 (rems w))) s"
  by (induction w arbitrary: s rule: list.induct)
    (auto simp: with_writer_id serialise_remove_def with_writer_comp append_entry_bytes split: option.split)

lemma serialise_writes_bytes: "serialise_writes w s = with_writer (\<lambda>b. b @ writes_bytes w) s"
  by (simp add: serialise_writes_def Let_def serialise_sets serialise_rems with_writer_comp append_uint_def
      writes_bytes_def count_sets count_rems del: not_None_eq)

lemma serialise_changes_bytes:
  "serialise_changes enc m cs False s =
     (case start_map_out enc (map_name m) (security_domain m) s of
        Inl x \<Rightarrow> Inl x
      | Inr s \<Rightarrow> Inr (with_writer (\<lambda>b. b @ changes_bytes (writes cs)) s))"
  by (simp add: serialise_changes_def Let_def serialise_writes_bytes with_writer_comp append_uint_def
      changes_bytes_def split: sum.split)

lemma parses_sets:
  "parses (deserialise_writes (length kvs) cs) (concat (map (\<lambda>(k, v). entry_bytes8 k @ entry_bytes8 v) kvs))
     (cs\<lparr>writes := fold (\<lambda>(k, v). upd_sorted k (Some v)) kvs (writes cs)\<rparr>)"
proof (induction kvs arbitrary: cs)
  case Nil
  then show ?case by (simp add: parses_return)
next
  case (Cons kv kvs)
  obtain k v where kv: "kv = (k, v)" by (cases kv)
  have "parses (\<lambda>r. bindv (read_vector 1 r) (\<lambda>r k. bindv (read_vector 1 r) (\<lambda>r v.
      deserialise_writes (length kvs) (cs\<lparr>writes := upd_sorted k (Some v) (writes cs)\<rparr>) r)))
    (entry_bytes8 k @ entry_bytes8 v @ concat (map (\<lambda>(k, v). entry_bytes8 k @ entry_bytes8 v) kvs))
    (cs\<lparr>writes := upd_sorted k (Some v) (writes cs), writes := fold (\<lambda>(k, v). upd_sorted k (Some v)) kvs (upd_sorted k (Some v) (writes cs))\<rparr>)"
    using Cons [of "cs\<lparr>writes := upd_sorted k (Some v) (writes cs)\<rparr>"]
    by (intro parses_bindv [OF parses_entry] parses_bindv [OF parses_entry, of _ _ v]) simp
  then show ?case by (simp add: kv)
qed

lemma parses_rems:
  "parses (deserialise_removes (length ks) cs) (concat (map entry_bytes8 ks))
     (cs\<lparr>writes := fold (\<lambda>k. upd_sorted k None) ks (writes cs)\<rparr>)"
proof (induction ks arbitrary: cs)
  case Nil
  then show ?case by (simp add: parses_return)
next
  case (Cons k ks)
  have "parses (\<lambda>r. bindv (read_vector 1 r) (\<lambda>r k.
      deserialise_removes (length ks) (cs\<lparr>writes := upd_sorted k None (writes cs)\<rparr>) r))
    (entry_bytes8 k @ concat (map entry_bytes8 ks))
    (cs\<lparr>writes := upd_sorted k None (writes cs), writes := fold (\<lambda>k. upd_sorted k None) ks (upd_sorted k None (writes cs))\<rparr>)"
    using Cons [of "cs\<lparr>writes := upd_sorted k None (writes cs)\<rparr>"]
    by (intro parses_bindv [OF parses_entry]) simp
  then show ?case by simp
qed

lemma sorted_alist_canonical:
  assumes "sorted_wrt (<) (al_keys (m :: ('k :: linorder \<times> 'v) list))"
  shows "m = map (\<lambda>k. (k, the (map_of m k))) (sorted_list_of_set (dom (map_of m)))"
proof -
  have k: "sorted (al_keys m)" "distinct (al_keys m)" using assms by (simp_all add: strict_sorted_iff)
  have "sorted_list_of_set (dom (map_of m)) = al_keys m"
    using k sorted_list_of_set.idem_if_sorted_distinct [of "al_keys m"] by (simp add: dom_map_of_conv_image_fst al_keys_def)
  moreover have "map (\<lambda>p. (fst p, the (map_of m (fst p)))) m = m"
    using k(2) by (intro map_idI) (auto simp: al_keys_def)
  ultimately show ?thesis by (simp add: al_keys_def comp_def)
qed

lemma sorted_alist_ext:
  assumes "sorted_wrt (<) (al_keys (m :: ('k :: linorder \<times> 'v) list))" and "sorted_wrt (<) (al_keys m')"
    and "map_of m = map_of m'"
  shows "m = m'"
  using sorted_alist_canonical [OF assms(1)] sorted_alist_canonical [OF assms(2)] assms(3) by simp

lemma sorted_fold_upd:
  "sorted_wrt (<) (al_keys m) \<Longrightarrow> sorted_wrt (<) (al_keys (fold (\<lambda>x. upd_sorted (f x) (g x)) xs m))"
  by (induction xs arbitrary: m) (simp_all add: sorted_upd_sorted)

lemma map_of_sets:
  "distinct (al_keys w) \<Longrightarrow> map_of (fold (\<lambda>(k, v). upd_sorted k (Some v)) (sets w) m) k' =
     (case map_of w k' of Some (Some v) \<Rightarrow> Some (Some v) | _ \<Rightarrow> map_of m k')"
proof (induction w arbitrary: m)
  case (Cons x w)
  obtain k v where x: "x = (k, v)" by (cases x)
  have k: "map_of w k = None" using Cons.prems by (simp add: x map_of_None_iff_keys)
  show ?case
    using Cons k by (cases v) (auto simp: x map_of_upd_sorted split: option.split)
qed simp

lemma map_of_rems:
  "distinct (al_keys w) \<Longrightarrow> map_of (fold (\<lambda>k. upd_sorted k None) (rems w) m) k' =
     (case map_of w k' of Some None \<Rightarrow> Some None | _ \<Rightarrow> map_of m k')"
proof (induction w arbitrary: m)
  case (Cons x w)
  obtain k v where x: "x = (k, v)" by (cases x)
  have k: "map_of w k = None" using Cons.prems by (simp add: x map_of_None_iff_keys)
  show ?case
    using Cons k by (cases v) (auto simp: x map_of_upd_sorted split: option.split)
qed simp

lemma merge_writes:
  assumes "sorted_wrt (<) (al_keys w)"
  shows "fold (\<lambda>k. upd_sorted k None) (rems w) (fold (\<lambda>(k, v). upd_sorted k (Some v)) (sets w) []) = w"
proof (rule sorted_alist_ext)
  have d: "distinct (al_keys w)" using assms by (simp add: strict_sorted_iff)
  show "sorted_wrt (<) (al_keys (fold (\<lambda>k. upd_sorted k None) (rems w) (fold (\<lambda>(k, v). upd_sorted k (Some v)) (sets w) [])))"
    using sorted_fold_upd [of _ "\<lambda>k. k" "\<lambda>k. None" "rems w"] sorted_fold_upd [of "[]" fst "\<lambda>x. Some (snd x)" "sets w"]
    by (simp add: case_prod_beta')
  show "map_of (fold (\<lambda>k. upd_sorted k None) (rems w) (fold (\<lambda>(k, v). upd_sorted k (Some v)) (sets w) [])) = map_of w"
    by (rule ext) (simp add: map_of_sets [OF d] map_of_rems [OF d] split: option.split)
qed (rule assms)

lemma length_sets: "length (sets w) + length (rems w) = length w"
  by (induction w) (auto simp: sets_def rems_def List.map_filter_simps split: option.split)

text \<open>A change set read back from the bytes of its writes, on the map as it is at the version.\<close>

lemma parses_changes:
  assumes "sorted_wrt (<) (al_keys w)" and "length w < 2 ^ 64" and "create_change_set v m = Some cs"
  shows "parses (deserialise_changes m v) (changes_bytes w) (cs\<lparr>writes := w\<rparr>)"
proof -
  have cs: "writes cs = []" using assms(3) by (auto simp: create_change_set_def make_change_set_def)
  have n: "length (sets w) < 2 ^ 64" "length (rems w) < 2 ^ 64" using length_sets [of w] assms(2) by linarith+
  let ?cs1 = "cs\<lparr>writes := fold (\<lambda>(k, v). upd_sorted k (Some v)) (sets w) (writes cs)\<rparr>"
  have "parses (deserialise_removes (length (rems w)) ?cs1) (concat (map entry_bytes8 (rems w))) (cs\<lparr>writes := w\<rparr>)"
    using parses_rems [of "rems w" ?cs1] merge_writes [OF assms(1)] by (simp add: cs)
  then have "parses (\<lambda>r. bindv (read_entry 8 r) (\<lambda>r n. deserialise_removes n ?cs1 r))
      (le_bytes 8 (length (rems w)) @ concat (map entry_bytes8 (rems w))) (cs\<lparr>writes := w\<rparr>)"
    by (rule parses_bindv [OF parses_u64 [OF n(2)]])
  then have "parses (\<lambda>r. bindv (deserialise_writes (length (sets w)) cs r) (\<lambda>r cs.
      bindv (read_entry 8 r) (\<lambda>r n. deserialise_removes n cs r)))
      (concat (map (\<lambda>(k, v). entry_bytes8 k @ entry_bytes8 v) (sets w)) @ le_bytes 8 (length (rems w))
        @ concat (map entry_bytes8 (rems w))) (cs\<lparr>writes := w\<rparr>)"
    by (rule parses_bindv [OF parses_sets])
  then have "parses (\<lambda>r. bindv (read_entry 8 r) (\<lambda>r n. bindv (deserialise_writes n cs r) (\<lambda>r cs.
      bindv (read_entry 8 r) (\<lambda>r n. deserialise_removes n cs r)))) (writes_bytes w) (cs\<lparr>writes := w\<rparr>)"
    unfolding writes_bytes_def by (rule parses_bindv [OF parses_u64 [OF n(1)]])
  then have "parses (\<lambda>r. bindv (read_entry 8 r) (\<lambda>r n. bindv (deserialise_reads n cs r) (\<lambda>r cs.
      bindv (read_entry 8 r) (\<lambda>r n. bindv (deserialise_writes n cs r) (\<lambda>r cs.
      bindv (read_entry 8 r) (\<lambda>r n. deserialise_removes n cs r)))))) (le_bytes 8 0 @ writes_bytes w) (cs\<lparr>writes := w\<rparr>)"
    by (intro parses_bindv [OF parses_u64]) simp_all
  then have "parses (\<lambda>r. bindv (read_entry 8 r) (\<lambda>r rv.
      let cs = (if rv \<noteq> NoVersion then cs\<lparr>read_version := rv\<rparr> else cs) in
      bindv (read_entry 8 r) (\<lambda>r n. bindv (deserialise_reads n cs r) (\<lambda>r cs.
      bindv (read_entry 8 r) (\<lambda>r n. bindv (deserialise_writes n cs r) (\<lambda>r cs.
      bindv (read_entry 8 r) (\<lambda>r n. deserialise_removes n cs r))))))) (changes_bytes w) (cs\<lparr>writes := w\<rparr>)"
    unfolding changes_bytes_def by (intro parses_bindv [OF parses_u64]) simp_all
  then show ?thesis using assms(3) by (simp add: deserialise_changes_def [abs_def])
qed

section \<open>Entries\<close>

definition public_header_bytes :: "KvTxID \<Rightarrow> EntryType \<Rightarrow> Digest \<Rightarrow> ClaimsDigest \<Rightarrow> byte list" where
  "public_header_bytes txid et ced claims =
     le_bytes 1 (entry_type_code et) @ le_bytes 8 (snd txid) @ (if has_claims et then digest claims else [])
     @ (if has_commit_evidence et then ced else []) @ le_bytes 8 0"

definition header_of :: "KvTxID \<Rightarrow> EntryType \<Rightarrow> Digest \<Rightarrow> ClaimsDigest \<Rightarrow> public_header" where
  "header_of txid et ced claims =
     \<lparr>ph_entry_type = et, ph_version = snd txid,
      ph_claims_digest = (if has_claims et then \<lparr>is_set = True, digest = digest claims\<rparr> else no_claims),
      ph_commit_evidence_digest = (if has_commit_evidence et then Some ced else None)\<rparr>"

lemma new_serialiser_bytes:
  "new_serialiser txid et ced claims =
     \<lparr>public_writer = public_header_bytes txid et ced claims, private_writer = [], current_domain = PUBLIC\<rparr>"
  by (simp add: new_serialiser_def with_writer_def Let_def append_entry_type_def append_uint_def append_digest_def
      public_header_bytes_def)

lemma parses_optional:
  assumes "b \<Longrightarrow> length h = n"
  shows "parses (\<lambda>r. if b then bindv (read_array n r) (\<lambda>r h. Done r (f h)) else Done r d)
    (if b then h else []) (if b then f h else d)"
proof (cases b)
  case True
  have "parses (\<lambda>r. bindv (read_array n r) (\<lambda>r h. Done r (f h))) (h @ []) (f h)"
    using parses_array [OF assms [OF True]] by (rule parses_bindv) (rule parses_return)
  with True show ?thesis by simp
qed (simp add: parses_return)

lemma parses_public_header:
  assumes "snd txid < 2 ^ 64" and "length ced = 32" and "length (digest claims) = 32"
  shows "parses read_public_header (public_header_bytes txid et ced claims) (header_of txid et ced claims)"
proof -
  let ?v = "snd txid"
  have a: "parses (\<lambda>r. bindv (read_entry 8 r) (\<lambda>r max_conflict_version.
       Done r \<lparr>ph_entry_type = et, ph_version = ?v, ph_claims_digest = c, ph_commit_evidence_digest = d\<rparr>))
      (le_bytes 8 0) \<lparr>ph_entry_type = et, ph_version = ?v, ph_claims_digest = c, ph_commit_evidence_digest = d\<rparr>" for c d
    using parses_bindv [OF parses_u64 [of 0] parses_return] by simp
  show ?thesis
    unfolding read_public_header_def public_header_bytes_def header_of_def
    using assms
    by (intro parses_bindv [OF parses_entry_type] parses_bindv [OF parses_u64] parses_bindv [OF parses_optional] a) simp_all
qed

lemma reader_start:
  assumes "length bs < 2 ^ 64"
  shows "good (reader_init (bs @ beyond) (length bs))" and "unread (reader_init (bs @ beyond) (length bs)) = bs"
  using assms by (simp_all add: good_def unread_def reader_init_def)

definition entry_layout :: "nat \<Rightarrow> byte list \<Rightarrow> byte list \<Rightarrow> byte list \<Rightarrow> byte list" where
  "entry_layout header_flags hdr pub cipher =
     header_bytes \<lparr>version = 1, flags = header_flags, hsize = length hdr + 8 + length pub + length cipher\<rparr>
     @ hdr @ le_bytes 8 (length pub) @ pub @ cipher"

lemma serialise_domains_layout:
  assumes "encrypt c priv pub txid et hint e = Done e' (Some (hdr, cipher))"
    and "length hdr = header_length c" and "length cipher = length priv"
  shows "serialise_domains (Some c) txid et header_flags hint pub priv e = Done e' (entry_layout header_flags hdr pub cipher)"
  using assms
  by (auto simp: serialise_domains_def domain_size_def write_block_def write_uint_def entry_layout_def Let_def
      add.commute add.left_commute)

text \<open>An entry taken apart: the header is read, both parts are where their readers start.\<close>

lemma init_layout:
  assumes "header_flags < 256" and "length hdr + 8 + length pub + length cipher < 2 ^ 48"
    and "length hdr = header_length c"
    and "pub = public_header_bytes txid et ced claims @ pub_maps"
    and "snd txid < 2 ^ 64" and "length ced = 32" and "length (digest claims) = 32"
    and "decrypt c cipher pub hdr (snd txid) hint e = Done e' (Some priv, t)" and "length priv = length cipher"
  shows "\<exists>d. deserialiser_init (Some c) None hint (entry_layout header_flags hdr pub cipher) e = Done e' (Some d, Some t)
    \<and> good (public_reader d) \<and> unread (public_reader d) = pub_maps
    \<and> good (private_reader d) \<and> unread (private_reader d) = priv
    \<and> \<not> on_private d \<and> d_header d = header_of txid et ced claims"
proof -
  let ?h = "\<lparr>version = 1, flags = header_flags, hsize = length hdr + 8 + length pub + length cipher\<rparr>"
  let ?body = "hdr @ le_bytes 8 (length pub) @ pub @ cipher"
  have p: "peek_header (entry_layout header_flags hdr pub cipher) = Inr ?h"
    using peek_header_bytes [of ?h ?body] assms(1,2) by (simp add: entry_layout_def)
  have small: "length pub < 2 ^ 64" "length priv < 2 ^ 64" using assms(2,9) by auto
  have "parses read_public_header (public_header_bytes txid et ced claims) (header_of txid et ced claims)"
    by (rule parses_public_header [OF assms(5,6,7)])
  then obtain pr where pr: "read_public_header (reader_init (pub @ cipher) (length pub)) = Done pr (header_of txid et ced claims)"
    "good pr" "unread pr = pub_maps"
    using reader_start [OF small(1), of cipher] assms(4) unfolding parses_def by blast
  have len8: "length pub < 256 ^ 8" using small by simp
  let ?d = "new_deserialiser pr (reader_init priv (length priv)) (header_of txid et ced claims)"
  have "init_encrypted c None hint ?body e = Done e' (Some ?d, Some t)"
    using assms(3,8) pr(1) read_uint_le_bytes [OF len8, of "pub @ cipher"]
    by (simp add: init_encrypted_def skip_bytes_def header_of_def)
  then have "deserialiser_init (Some c) None hint (entry_layout header_flags hdr pub cipher) e = Done e' (Some ?d, Some t)"
    using p by (simp add: deserialiser_init_def entry_layout_def serialised_entry_header_size_def)
  then show ?thesis
    using pr reader_start [OF small(2), of "[]"] by (auto simp: new_deserialiser_def)
qed

end
