(* ===== verification/Kv_Serialisable.thy ===== *)
theory Kv_Serialisable
  imports Kv_Commit
begin

text \<open>
  Transactions on one map, interleaved with each other and with rollbacks, compactions and
  snapshots: a step relation over the map and the open change sets, its invariant, and what the
  success of \<open>prepare\<close> means.
\<close>

section \<open>Change sets and the roll they came from\<close>

definition follows :: "snapshot \<Rightarrow> snapshot \<Rightarrow> bool" where
  "follows c c' \<longleftrightarrow> c = c' \<or> newer c c'"

text \<open>The version a read of a key depends on.\<close>

definition seen :: "kv_state \<Rightarrow> Key \<Rightarrow> DeletableVersion" where
  "seen s k = (case state_get s k of None \<Rightarrow> int NoVersion | Some vv \<Rightarrow> vv_version vv)"

definition reads_ok :: "ChangeSet \<Rightarrow> bool" where
  "reads_ok cs \<longleftrightarrow> (\<forall>k ver rv. (k, ver, rv) \<in> set (reads cs) \<longrightarrow> ver = seen (cs_state cs) k)"

definition valid :: "kv_map \<Rightarrow> ChangeSet \<Rightarrow> bool" where
  "valid m cs \<longleftrightarrow> cs_ok cs \<and> reads_ok cs \<and> stamped (start_version cs, cs_state cs)
     \<and> (read_version cs = NoVersion \<or> read_version cs = start_version cs)
     \<and> cs_rollback_counter cs \<le> rollback_counter (roll m)
     \<and> (cs_rollback_counter cs = rollback_counter (roll m) \<longrightarrow>
          follows (start_version cs, cs_state cs) (last (hist m)))"

lemma follows_newer: "follows a b \<Longrightarrow> newer b c \<Longrightarrow> follows a c"
  using newer_trans [of a b c] by (auto simp: follows_def)

lemma follows_trans: "follows a b \<Longrightarrow> follows b c \<Longrightarrow> follows a c"
  using follows_newer [of a b c] by (auto simp: follows_def)

text \<open>What can happen to the map keeps a change set valid.\<close>

lemma valid_mono:
  assumes "valid m cs" and "rollback_counter (roll m) \<le> rollback_counter (roll m')"
    and "rollback_counter (roll m) = rollback_counter (roll m') \<Longrightarrow> follows (last (hist m)) (last (hist m'))"
  shows "valid m' cs"
  using assms follows_trans [of "(start_version cs, cs_state cs)" "last (hist m)" "last (hist m')"]
  by (auto simp: valid_def)

lemma valid_create:
  assumes "hist_ok (hist m)" and "create_change_set v m = Some cs"
  shows "valid m cs"
proof -
  from assms(2) obtain c where c: "commit_at v m = Some c"
    and cs: "cs = make_change_set (rollback_counter (roll m)) (lc_state c) (lc_state (get_head m)) (lc_version c)"
    by (auto simp: create_change_set_def)
  have "state_at v (hist m) = Some (strip c)" using commit_at_hist [of v m] by (simp add: c)
  then have "strip c \<in> set (hist m)" using state_at_Some by blast
  then have "stamped (strip c)" "follows (strip c) (last (hist m))"
    using assms(1) hist_ok_last by (auto simp: hist_ok_def follows_def)
  then show ?thesis
    by (simp add: valid_def cs make_change_set_def cs_ok_def reads_ok_def strip_def stamped_def)
qed

section \<open>Handles keep change sets valid\<close>

lemma set_insert_read: "x \<in> set (insert_read k r rs) \<Longrightarrow> x \<in> set rs \<or> x = (k, r)"
proof -
  have "set (upd_sorted k r rs) \<subseteq> insert (k, r) (set rs)" if "k \<notin> set (al_keys rs)"
    using that by (induction k r rs rule: upd_sorted.induct) auto
  then show "x \<in> set (insert_read k r rs) \<Longrightarrow> x \<in> set rs \<or> x = (k, r)"
    by (auto simp: insert_read_def split: if_splits)
qed

lemma reads_read_state: "\<exists>rv. reads (fst (read_state k cs)) = insert_read k (seen (cs_state cs) k, rv) (reads cs)"
  by (auto simp: read_state_def seen_def split: option.split)

lemma reads_ok_read_state: "reads_ok cs \<Longrightarrow> reads_ok (fst (read_state k cs))"
proof -
  assume ok: "reads_ok cs"
  obtain rv where "reads (fst (read_state k cs)) = insert_read k (seen (cs_state cs) k, rv) (reads cs)"
    using reads_read_state by blast
  with ok show ?thesis unfolding reads_ok_def by (auto dest!: set_insert_read)
qed

lemma valid_read_state: "valid m cs \<Longrightarrow> valid m (fst (read_state k cs))"
  by (simp add: valid_def reads_ok_read_state cs_ok_def)

lemma valid_get: "valid m cs \<Longrightarrow> valid m (fst (handle_get k cs))"
  by (simp add: handle_get_def read_key_def case_prod_beta Let_def valid_read_state split: option.split)

lemma valid_put: "valid m cs \<Longrightarrow> valid m (handle_put k v cs)"
  by (simp add: valid_def cs_ok_put reads_ok_def)

lemma valid_remove: "valid m cs \<Longrightarrow> valid m (fst (handle_remove k cs))"
  by (simp add: valid_def cs_ok_remove reads_ok_def)

lemma fst_visits_count: "fst (visits count_visitor kvs x) = fst x"
  by (induction kvs arbitrary: x) (auto simp: count_visitor_def)

lemma handle_size_fst: "fst (handle_size cs) = cs\<lparr>read_version := start_version cs\<rparr>"
  unfolding handle_size_def handle_foreach_def
  by (subst foreach_visits) (simp_all add: count_visitor_def fst_visits_count)

lemma valid_size: "valid m cs \<Longrightarrow> valid m (fst (handle_size cs))"
  by (simp add: handle_size_fst valid_def cs_ok_def reads_ok_def)

section \<open>The interleaving\<close>

record kv_system =
  sys_map :: kv_map
  sys_txs :: "ChangeSet list"

definition without :: "nat \<Rightarrow> 'a list \<Rightarrow> 'a list" where
  "without i xs = take i xs @ drop (Suc i) xs"

text \<open>
  A version is assigned to a commit when its preparation has succeeded, is larger than every
  version before, and fits a \<open>DeletableVersion\<close>.
\<close>

inductive kv_step :: "kv_system \<Rightarrow> kv_system \<Rightarrow> bool" where
  open_tx: "create_change_set v (sys_map s) = Some cs \<Longrightarrow> kv_step s (s\<lparr>sys_txs := sys_txs s @ [cs]\<rparr>)"
| get: "i < length (sys_txs s) \<Longrightarrow>
    kv_step s (s\<lparr>sys_txs := (sys_txs s)[i := fst (handle_get k (sys_txs s ! i))]\<rparr>)"
| put: "i < length (sys_txs s) \<Longrightarrow>
    kv_step s (s\<lparr>sys_txs := (sys_txs s)[i := handle_put k x (sys_txs s ! i)]\<rparr>)"
| remove: "i < length (sys_txs s) \<Longrightarrow>
    kv_step s (s\<lparr>sys_txs := (sys_txs s)[i := fst (handle_remove k (sys_txs s ! i))]\<rparr>)"
| iterate: "i < length (sys_txs s) \<Longrightarrow>
    kv_step s (s\<lparr>sys_txs := (sys_txs s)[i := fst (handle_size (sys_txs s ! i))]\<rparr>)"
| commit: "i < length (sys_txs s) \<Longrightarrow> prepare False (sys_map s) (sys_txs s ! i) \<Longrightarrow>
    lc_version (get_tail (sys_map s)) < v \<Longrightarrow> v < 2 ^ 63 \<Longrightarrow>
    kv_step s \<lparr>sys_map = fst (handle_commit v False (sys_map s) (sys_txs s ! i)), sys_txs = without i (sys_txs s)\<rparr>"
| abort: "i < length (sys_txs s) \<Longrightarrow> kv_step s (s\<lparr>sys_txs := without i (sys_txs s)\<rparr>)"
| rollback: "kv_step s (s\<lparr>sys_map := map_rollback v (sys_map s)\<rparr>)"
| compact: "kv_step s (s\<lparr>sys_map := fst (post_compact (map_compact v (sys_map s)))\<rparr>)"
| snapshot: "stamped (ss_version ss, ss_state ss) \<Longrightarrow>
    kv_step s (s\<lparr>sys_map := snapshot_commit (sys_map s) ss\<rparr>)"

inductive reachable :: "kv_system \<Rightarrow> bool" where
  start: "reachable \<lparr>sys_map = new_map n d r, sys_txs = []\<rparr>"
| step: "reachable s \<Longrightarrow> kv_step s s' \<Longrightarrow> reachable s'"

definition sys_ok :: "kv_system \<Rightarrow> bool" where
  "sys_ok s \<longleftrightarrow> hist_ok (hist (sys_map s)) \<and> (\<forall>cs\<in>set (sys_txs s). valid (sys_map s) cs)"

lemma set_without: "x \<in> set (without i xs) \<Longrightarrow> x \<in> set xs"
  by (auto simp: without_def dest: in_set_takeD in_set_dropD)

lemma hist_commit:
  assumes "valid m cs" and "hist_ok (hist m)" and "lc_version (get_tail m) < v" and "v < 2 ^ 63"
  defines "m' \<equiv> fst (handle_commit v False m cs)"
  shows "hist_ok (hist m') \<and> follows (last (hist m)) (last (hist m'))
    \<and> rollback_counter (roll m') = rollback_counter (roll m)"
proof (cases "writes cs = []")
  case True
  then show ?thesis using assms(2) by (simp add: m'_def handle_commit_def follows_def)
next
  case False
  have ok: "cs_ok cs" using assms(1) by (simp add: valid_def)
  have "commits (roll m) \<noteq> []" using assms(2) by (simp add: hist_ok_def hist_nonempty)
  then have "fst (last (hist m)) < v" using assms(3) get_tail_hist [of m] by (metis fst_conv)
  note c = handle_commit_hist [OF ok assms(2) this assms(4) False, folded m'_def]
  from c(1,2) assms(2) hist_ok_snoc show ?thesis by (auto simp: follows_def)
qed

lemma hist_post_compact [simp]:
  "hist (fst (post_compact m)) = hist m" "roll (fst (post_compact m)) = roll m"
  by (simp_all add: post_compact_def hist_def)

lemma sys_ok_update:
  "sys_ok s \<Longrightarrow> i < length (sys_txs s) \<Longrightarrow> (\<And>m cs. valid m cs \<Longrightarrow> valid m (f cs)) \<Longrightarrow>
    sys_ok (s\<lparr>sys_txs := (sys_txs s)[i := f (sys_txs s ! i)]\<rparr>)"
  by (auto simp: sys_ok_def dest!: set_update_subset_insert [THEN subsetD])

lemma sys_ok_map:
  assumes "sys_ok s" and "hist_ok (hist m')" and "rollback_counter (roll (sys_map s)) \<le> rollback_counter (roll m')"
    and "rollback_counter (roll (sys_map s)) = rollback_counter (roll m') \<Longrightarrow>
      follows (last (hist (sys_map s))) (last (hist m'))"
  shows "sys_ok (s\<lparr>sys_map := m'\<rparr>)"
  using assms valid_mono [of "sys_map s" _ m'] by (simp add: sys_ok_def)

lemma sys_ok_step: "kv_step s s' \<Longrightarrow> sys_ok s \<Longrightarrow> sys_ok s'"
proof (induction rule: kv_step.induct)
  case (open_tx v s cs)
  then show ?case using valid_create by (auto simp: sys_ok_def)
next
  case (get i s k)
  then show ?case using sys_ok_update [of s i "\<lambda>cs. fst (handle_get k cs)"] valid_get by blast
next
  case (put i s k x)
  then show ?case using sys_ok_update [of s i "handle_put k x"] valid_put by blast
next
  case (remove i s k)
  then show ?case using sys_ok_update [of s i "\<lambda>cs. fst (handle_remove k cs)"] valid_remove by blast
next
  case (iterate i s)
  then show ?case using sys_ok_update [of s i "\<lambda>cs. fst (handle_size cs)"] valid_size by blast
next
  case (commit i s v)
  let ?m = "fst (handle_commit v False (sys_map s) (sys_txs s ! i))"
  have "valid (sys_map s) (sys_txs s ! i)" "hist_ok (hist (sys_map s))" using commit by (auto simp: sys_ok_def)
  from hist_commit [OF this commit(3,4)] commit.prems have "sys_ok (s\<lparr>sys_map := ?m\<rparr>)"
    by (intro sys_ok_map) auto
  then show ?case by (auto simp: sys_ok_def dest: set_without)
next
  case (abort i s)
  then show ?case by (auto simp: sys_ok_def dest: set_without)
next
  case (rollback s v)
  then have ok: "hist_ok (hist (sys_map s))" by (simp add: sys_ok_def)
  then have "hist (sys_map s) \<noteq> []" by (simp add: hist_ok_def)
  from map_rollback_hist [OF this, of v] obtain n where "0 < n" "n \<le> length (hist (sys_map s))"
    "hist (map_rollback v (sys_map s)) = take n (hist (sys_map s))"
    "rollback_counter (roll (map_rollback v (sys_map s)))
      = rollback_counter (roll (sys_map s)) + (if n < length (hist (sys_map s)) then 1 else 0)" by auto
  with rollback ok show ?case
    by (intro sys_ok_map) (auto simp: hist_ok_take follows_def split: if_splits)
next
  case (compact s v)
  then have ok: "hist_ok (hist (sys_map s))" by (simp add: sys_ok_def)
  then have "hist (sys_map s) \<noteq> []" by (simp add: hist_ok_def)
  from map_compact_hist [OF this, of v] obtain n where "n < length (hist (sys_map s))"
    "hist (map_compact v (sys_map s)) = drop n (hist (sys_map s))"
    "rollback_counter (roll (map_compact v (sys_map s))) = rollback_counter (roll (sys_map s))" by auto
  with compact ok show ?case
    by (intro sys_ok_map) (simp_all add: hist_ok_drop follows_def last_drop)
next
  case (snapshot ss s)
  then show ?case
    by (intro sys_ok_map) (simp_all add: snapshot_commit_def hist_def hist_ok_def strip_def)
qed

lemma reachable_ok: "reachable s \<Longrightarrow> sys_ok s"
proof (induction rule: reachable.induct)
  case (start n d r)
  then show ?case by (simp add: sys_ok_def hist_ok_new_map)
next
  case (step s s')
  then show ?case using sys_ok_step by blast
qed

section \<open>What preparation guarantees\<close>

lemma follows_seen:
  assumes "follows (v, s) (v', s')" and "stamped (v, s)" and "stamped (v', s')" and "seen s' k = seen s k"
  shows "state_get s' k = state_get s k"
proof (rule ccontr)
  assume neq: "state_get s' k \<noteq> state_get s k"
  with assms(1) obtain vv where vv: "state_get s' k = Some vv" "v < vabs vv" by (auto simp: follows_def newer_def)
  then have "seen s k = vv_version vv" using assms(4) by (simp add: seen_def)
  moreover have "vv_version vv \<noteq> 0" using assms(3) vv(1) by (auto simp: stamped_def)
  ultimately obtain ww where "state_get s k = Some ww" "vv_version ww = vv_version vv"
    by (auto simp: seen_def split: option.splits)
  moreover have "vabs ww \<le> v" if "state_get s k = Some ww" for ww using assms(2) that by (auto simp: stamped_def)
  ultimately show False using vv(2) by (fastforce simp: vabs_def)
qed

lemma prepare_sound:
  assumes "valid m cs" and "hist_ok (hist m)" and "writes cs \<noteq> []" and "prepare False m cs"
  shows "k \<in> set (al_keys (reads cs)) \<Longrightarrow> state_get (lc_state (get_tail m)) k = state_get (cs_state cs) k"
    and "read_version cs \<noteq> NoVersion \<Longrightarrow> lc_state (get_tail m) = cs_state cs"
proof -
  have "commits (roll m) \<noteq> []" using assms(2) by (simp add: hist_ok_def hist_nonempty)
  note tail = get_tail_hist [OF this]
  have st: "stamped (lc_version (get_tail m), lc_state (get_tail m))"
    using assms(2) by (simp add: tail hist_ok_def)
  have fo: "follows (start_version cs, cs_state cs) (lc_version (get_tail m), lc_state (get_tail m))"
    using assms(1,3,4) unfolding tail by (auto simp: valid_def prepare_def split: if_splits)
  show "state_get (lc_state (get_tail m)) k = state_get (cs_state cs) k" if k: "k \<in> set (al_keys (reads cs))"
  proof (rule follows_seen [OF fo _ st])
    show "stamped (start_version cs, cs_state cs)" using assms(1) by (simp add: valid_def)
    from k obtain ver rv where r: "(k, ver, rv) \<in> set (reads cs)" by (auto simp: al_keys_def)
    then have "ver = seen (cs_state cs) k" using assms(1) by (auto simp: valid_def reads_ok_def)
    moreover have "read_still_valid False (lc_state (get_tail m)) (k, ver, rv)"
      using assms(3,4) r by (auto simp: prepare_def list_all_iff split: if_splits)
    then have "ver = seen (lc_state (get_tail m)) k"
      by (auto simp: read_still_valid_def Let_def seen_def split: if_splits option.splits)
    ultimately show "seen (lc_state (get_tail m)) k = seen (cs_state cs) k" by simp
  qed
  show "lc_state (get_tail m) = cs_state cs" if "read_version cs \<noteq> NoVersion"
    using that fo assms(1,3,4) by (auto simp: follows_def newer_def valid_def prepare_def split: if_splits)
qed

lemma prepare_complete:
  assumes "valid m cs" and "cs_rollback_counter cs = rollback_counter (roll m)"
    and "start_version cs = lc_version (get_tail m)" and "cs_state cs = lc_state (get_tail m)"
  shows "prepare False m cs"
proof -
  have zero: "vv_version vv \<noteq> 0" if "state_get (cs_state cs) k = Some vv" for k vv
    using assms(1) that by (auto simp: valid_def stamped_def)
  have "read_still_valid False (cs_state cs) (k, ver, rv)" if "(k, ver, rv) \<in> set (reads cs)" for k ver rv
  proof -
    have "ver = seen (cs_state cs) k" using assms(1) that by (auto simp: valid_def reads_ok_def)
    then show ?thesis
      using zero by (auto simp: read_still_valid_def seen_def Let_def split: option.splits)
  qed
  then have "list_all (read_still_valid False (cs_state cs)) (reads cs)" by (auto simp: list_all_iff)
  then show ?thesis using assms by (auto simp: prepare_def valid_def)
qed

lemma visible_written: "v < 2 ^ 63 \<Longrightarrow> 0 < v \<Longrightarrow> state_get s' k = written v x (state_get s k) \<Longrightarrow> visible s' k = x"
  by (auto simp: visible_def written_def is_deleted_def to_deletable_small split: option.splits)

lemma visible_commit:
  assumes "valid m cs" and "hist_ok (hist m)" and "lc_version (get_tail m) < v" and "v < 2 ^ 63" and "writes cs \<noteq> []"
  shows "visible (lc_state (get_tail (fst (handle_commit v False m cs)))) k =
    (case map_of (writes cs) k of None \<Rightarrow> visible (lc_state (get_tail m)) k | Some x \<Rightarrow> x)"
proof -
  let ?m = "fst (handle_commit v False m cs)"
  have ok: "cs_ok cs" using assms(1) by (simp add: valid_def)
  have "hist_ok (hist ?m)" using hist_commit [OF assms(1-4)] by blast
  then have ne: "commits (roll m) \<noteq> []" "commits (roll ?m) \<noteq> []"
    using assms(2) by (simp_all add: hist_ok_def hist_nonempty)
  have t: "snd (last (hist m)) = lc_state (get_tail m)" "fst (last (hist m)) = lc_version (get_tail m)"
    "snd (last (hist ?m)) = lc_state (get_tail ?m)"
    using get_tail_hist [OF ne(1)] get_tail_hist [OF ne(2)] by (metis fst_conv snd_conv)+
  have "fst (last (hist m)) < v" using assms(3) t by simp
  note g = handle_commit_hist(3) [OF ok assms(2) this assms(4,5), unfolded t]
  show ?thesis
  proof (cases "map_of (writes cs) k")
    case None
    with g [of k] show ?thesis by (simp add: visible_def)
  next
    case (Some x)
    with g [of k] have "state_get (lc_state (get_tail ?m)) k = written v x (state_get (lc_state (get_tail m)) k)" by simp
    with Some show ?thesis using visible_written [of v] assms(3,4) by simp
  qed
qed


definition sample_system :: kv_system where
  "sample_system = \<lparr>sys_map = new_map ''m'' PRIVATE True, sys_txs = [handle_put [1] [7] (fst (handle_get [2] empty_change_set))]\<rparr>"

lemma reachable_sample: "reachable sample_system"
proof -
  let ?m = "new_map ''m'' PRIVATE True"
  have "create_change_set 0 ?m = Some empty_change_set"
    by (simp add: create_change_set_def commit_at_def new_map_def reset_commits_def initial_commit_def get_head_def
        empty_change_set_def)
  then have "kv_step \<lparr>sys_map = ?m, sys_txs = []\<rparr> \<lparr>sys_map = ?m, sys_txs = [empty_change_set]\<rparr>"
    using kv_step.open_tx [of 0 "\<lparr>sys_map = ?m, sys_txs = []\<rparr>"] by simp
  moreover have "kv_step \<lparr>sys_map = ?m, sys_txs = [empty_change_set]\<rparr>
      \<lparr>sys_map = ?m, sys_txs = [fst (handle_get [2] empty_change_set)]\<rparr>"
    using kv_step.get [of 0 "\<lparr>sys_map = ?m, sys_txs = [empty_change_set]\<rparr>" "[2]"] by simp
  moreover have "kv_step \<lparr>sys_map = ?m, sys_txs = [fst (handle_get [2] empty_change_set)]\<rparr> sample_system"
    using kv_step.put [of 0 "\<lparr>sys_map = ?m, sys_txs = [fst (handle_get [2] empty_change_set)]\<rparr>" "[1]" "[7]"]
    by (simp add: sample_system_def)
  ultimately show ?thesis using reachable.start [of "''m''" PRIVATE True] by (blast intro: reachable.step)
qed


end
