(* ===== verification/Kv_Apply.thy ===== *)
theory Kv_Apply
  imports Kv_Store Kv_Serialisable
begin

text \<open>
  What \<open>apply_changes\<close> does to a store: the invariant of the store and of the change sets of
  open transactions, that a transaction is applied as a whole or not at all, and what its reads
  mean. The reads of maps it does not write to are not checked.
\<close>

section \<open>Invariants\<close>

definition map_ok :: "Version \<Rightarrow> 'p kv_store \<Rightarrow> string \<times> Version \<times> addr \<Rightarrow> bool" where
  "map_ok w st x \<longleftrightarrow> (case x of (name, created, a) \<Rightarrow>
     map_name (heap st a) = name \<and> hist_ok (hist (heap st a))
     \<and> lc_version (get_tail (heap st a)) \<le> w \<and> created \<le> w \<and> a < next_addr st)"

definition addrs :: "'p kv_store \<Rightarrow> addr list" where
  "addrs st = map (\<lambda>x. snd (snd x)) (maps st)"

definition maps_ok :: "Version \<Rightarrow> 'p kv_store \<Rightarrow> bool" where
  "maps_ok w st \<longleftrightarrow> sorted_wrt (<) (al_keys (maps st)) \<and> list_all (map_ok w st) (maps st)"

definition store_ok :: "'p kv_store \<Rightarrow> bool" where
  "store_ok st \<longleftrightarrow> maps_ok (st_version st) st \<and> compacted st \<le> st_version st \<and> st_version st < 2 ^ 63"

text \<open>What the store holds, by the name of the map.\<close>

definition contents :: "'p kv_store \<Rightarrow> string \<Rightarrow> Key \<Rightarrow> Value option" where
  "contents st name =
     (case map_of (maps st) name of
        None \<Rightarrow> Map.empty
      | Some (v, a) \<Rightarrow> visible (lc_state (get_tail (heap st a))))"

lemma contents_cong: "maps st' = maps st \<Longrightarrow> heap st' = heap st \<Longrightarrow> contents st' = contents st"
  unfolding contents_def [abs_def] by metis

lemma store_ok_cong:
  assumes "maps st' = maps st" and "heap st' = heap st" and "next_addr st' = next_addr st"
    and "st_version st' = st_version st" and "compacted st' = compacted st"
  shows "store_ok st' = store_ok st"
proof -
  have "map_ok w st' = map_ok w st" for w by (rule ext) (simp add: map_ok_def assms)
  then show ?thesis by (simp add: store_ok_def maps_ok_def assms)
qed

text \<open>
  The map of a change set is in the store, or was created by the transaction, or the store has
  forgotten it in a rollback.
\<close>

definition fresh :: "'p kv_store \<Rightarrow> string \<times> addr \<Rightarrow> bool" where
  "fresh st x \<longleftrightarrow> (case x of (name, a) \<Rightarrow>
     map_name (heap st a) = name \<and> hist (heap st a) = [(0, champ_empty)]
     \<and> a < next_addr st \<and> a \<notin> set (addrs st))"

definition change_ok :: "'p kv_store \<Rightarrow> MapCollection \<Rightarrow> string \<times> addr \<times> changes \<Rightarrow> bool" where
  "change_ok st new x \<longleftrightarrow> (case x of (name, a, c) \<Rightarrow>
     case c of Snapshot ss \<Rightarrow> False
     | Normal cs \<Rightarrow> valid (heap st a) cs
         \<and> (if map_of new name \<noteq> None then map_of new name = Some a
            else map_option snd (map_of (maps st) name) = Some a
              \<or> writes cs = [] \<or> cs_rollback_counter cs < rollback_counter (roll (heap st a))))"

definition changes_ok :: "'p kv_store \<Rightarrow> MapCollection \<Rightarrow> OrderedChanges \<Rightarrow> bool" where
  "changes_ok st new cs \<longleftrightarrow> sorted_wrt (<) (al_keys cs) \<and> distinct (map (\<lambda>x. fst (snd x)) cs)
     \<and> list_all (change_ok st new) cs
     \<and> distinct (al_keys new) \<and> distinct (map snd new) \<and> list_all (fresh st) new"

text \<open>Everything of a map that its hooks do not touch.\<close>

definition same_map :: "kv_map \<Rightarrow> kv_map \<Rightarrow> bool" where
  "same_map m m' \<longleftrightarrow> roll m' = roll m \<and> map_name m' = map_name m \<and> security_domain m' = security_domain m
     \<and> replicated m' = replicated m"

lemma same_map_refl [simp]: "same_map m m"
  by (simp add: same_map_def)

lemma same_map_trans: "same_map a b \<Longrightarrow> same_map b c \<Longrightarrow> same_map a c"
  by (simp add: same_map_def)

lemma same_map_hist: "same_map m m' \<Longrightarrow> hist m' = hist m"
  by (simp add: same_map_def hist_def)

lemma same_map_tail: "same_map m m' \<Longrightarrow> get_tail m' = get_tail m"
  by (simp add: same_map_def get_tail_def)

lemma same_map_valid: "same_map m m' \<Longrightarrow> valid m' cs = valid m cs"
  by (simp add: same_map_def valid_def hist_def)

section \<open>New maps\<close>

lemma get_map_current:
  "store_ok st \<Longrightarrow> get_map_internal (st_version st) name st = map_option snd (map_of (maps st) name)"
  by (auto simp: get_map_internal_def store_ok_def maps_ok_def list_all_iff map_ok_def split: option.splits
      dest!: map_of_SomeD)

definition written_to :: "OrderedChanges \<Rightarrow> string \<Rightarrow> bool" where
  "written_to cs name = (case map_of cs name of None \<Rightarrow> False | Some (a, c) \<Rightarrow> changes_have_writes c)"

text \<open>The store with one new map published.\<close>

definition publish :: "Version \<Rightarrow> string \<times> addr \<Rightarrow> 'p kv_store \<Rightarrow> 'p kv_store" where
  "publish v x st = final (add_dynamic_map v (snd x) st)"

lemma add_dynamic_map_absent:
  assumes "map_of (maps st) (map_name (heap st a)) = None"
  shows "returns (add_dynamic_map v a st)"
    and "maps (publish v (n, a) st) = upd_sorted (map_name (heap st a)) (v, a) (maps st)"
    and "same_map (heap st b) (heap (publish v (n, a) st) b)"
    and "publish v (n, a) st = st\<lparr>maps := maps (publish v (n, a) st), heap := heap (publish v (n, a) st)\<rparr>"
  using assms by (auto simp: publish_def add_dynamic_map_def get_map_internal_def Let_def same_map_def)

definition same_but_maps :: "'p kv_store \<Rightarrow> 'p kv_store \<Rightarrow> bool" where
  "same_but_maps st st' \<longleftrightarrow> st' = st\<lparr>maps := maps st', heap := heap st'\<rparr>"

lemma same_but_maps_trans: "same_but_maps a b \<Longrightarrow> same_but_maps b c \<Longrightarrow> same_but_maps a c"
  unfolding same_but_maps_def by (cases a, cases b, cases c) simp

lemma set_upd_sorted: "map_of m k = None \<Longrightarrow> set (upd_sorted k v m) = insert (k, v) (set m)"
  by (induction k v m rule: upd_sorted.induct) (auto split: if_splits)

lemma add_new_maps_Cons:
  "add_new_maps v (x # new) cs st =
     seq (if written_to cs (fst x) then add_dynamic_map v (snd x) st else ok st) (add_new_maps v new cs)"
  by (cases x) (auto simp: add_new_maps_def [abs_def] written_to_def split: option.split)

lemma add_new_maps_effect:
  assumes "distinct (al_keys new)" and "\<forall>(n, a)\<in>set new. map_name (heap st a) = n \<and> map_of (maps st) n = None"
    and "sorted_wrt (<) (al_keys (maps st))"
  shows "\<exists>st'. add_new_maps v new cs st = ok st' \<and> same_but_maps st st' \<and> (\<forall>b. same_map (heap st b) (heap st' b))
    \<and> sorted_wrt (<) (al_keys (maps st'))
    \<and> set (maps st') = set (maps st) \<union> {(n, v, a) |n a. (n, a) \<in> set new \<and> written_to cs n}"
  using assms
proof (induction new arbitrary: st)
  case Nil
  then show ?case by (simp add: add_new_maps_def same_but_maps_def)
next
  case (Cons x new)
  obtain n a where x: "x = (n, a)" by (cases x)
  define st1 where "st1 = (if written_to cs n then publish v (n, a) st else st)"
  have na: "map_name (heap st a) = n" "map_of (maps st) n = None" using Cons.prems(2) by (auto simp: x)
  note p = add_dynamic_map_absent [where st = st and a = a and v = v, unfolded na]
  have step: "add_new_maps v (x # new) cs st = add_new_maps v new cs st1"
    using p(1) na(2) by (auto simp: add_new_maps_Cons x st1_def publish_def seq_returns)
  have maps1: "maps st1 = (if written_to cs n then upd_sorted n (v, a) (maps st) else maps st)"
    and heap1: "\<forall>b. same_map (heap st b) (heap st1 b)" and but1: "same_but_maps st st1"
    using p(2-4) na(2) by (auto simp: st1_def same_but_maps_def)
  have n: "n \<notin> set (al_keys new)" using Cons.prems(1) by (simp add: x)
  have pre: "\<forall>(n', a')\<in>set new. map_name (heap st1 a') = n' \<and> map_of (maps st1) n' = None"
  proof clarify
    fix n' a' assume m: "(n', a') \<in> set new"
    then have "n' \<noteq> n" using n by (auto simp: al_keys_def image_iff)
    moreover have "map_name (heap st a') = n'" "map_of (maps st) n' = None" using m Cons.prems(2) by auto
    moreover have "map_name (heap st1 a') = map_name (heap st a')" using heap1 by (simp add: same_map_def)
    ultimately show "map_name (heap st1 a') = n' \<and> map_of (maps st1) n' = None"
      by (simp add: maps1 map_of_upd_sorted)
  qed
  have "sorted_wrt (<) (al_keys (maps st1))" using Cons.prems(3) by (simp add: maps1 sorted_upd_sorted)
  with Cons.IH [OF _ pre] Cons.prems(1) obtain st' where st': "add_new_maps v new cs st1 = ok st'" "same_but_maps st1 st'"
    "\<forall>b. same_map (heap st1 b) (heap st' b)" "sorted_wrt (<) (al_keys (maps st'))"
    "set (maps st') = set (maps st1) \<union> {(n, v, a) |n a. (n, a) \<in> set new \<and> written_to cs n}"
    by auto
  have "set (maps st1) = set (maps st) \<union> (if written_to cs n then {(n, v, a)} else {})"
    using na(2) by (simp add: maps1 set_upd_sorted)
  moreover have "\<forall>b. same_map (heap st b) (heap st' b)" using heap1 st'(3) same_map_trans by blast
  ultimately show ?case
    using st' step same_but_maps_trans [OF but1 st'(2)] by (intro exI [of _ st']) (auto simp: x)
qed

section \<open>Commits\<close>

lemma commit_one_heap:
  "heap (commit_one v track x st) = (heap st)(fst (snd x) := committer_commit v track (heap st (fst (snd x))) (snd (snd x)))"
  "commit_one v track x st = st\<lparr>heap := heap (commit_one v track x st)\<rparr>"
  by (simp_all add: commit_one_def case_prod_beta)

lemma commit_all_heap:
  assumes "distinct (map (\<lambda>x. fst (snd x)) cs)"
  shows "fold (commit_one v track) cs st = st\<lparr>heap := heap (fold (commit_one v track) cs st)\<rparr>
    \<and> (\<forall>n a c. (n, a, c) \<in> set cs \<longrightarrow> heap (fold (commit_one v track) cs st) a = committer_commit v track (heap st a) c)
    \<and> (\<forall>a. a \<notin> set (map (\<lambda>x. fst (snd x)) cs) \<longrightarrow> heap (fold (commit_one v track) cs st) a = heap st a)"
  using assms
proof (induction cs arbitrary: st)
  case (Cons x cs)
  let ?st = "commit_one v track x st"
  have IH: "fold (commit_one v track) cs ?st = ?st\<lparr>heap := heap (fold (commit_one v track) cs ?st)\<rparr>
    \<and> (\<forall>n a c. (n, a, c) \<in> set cs \<longrightarrow> heap (fold (commit_one v track) cs ?st) a = committer_commit v track (heap ?st a) c)
    \<and> (\<forall>a. a \<notin> set (map (\<lambda>x. fst (snd x)) cs) \<longrightarrow> heap (fold (commit_one v track) cs ?st) a = heap ?st a)"
    using Cons.prems by (intro Cons.IH) simp
  have x: "fst (snd x) \<notin> set (map (\<lambda>x. fst (snd x)) cs)" using Cons.prems by simp
  then have "(n, a, c) \<in> set cs \<Longrightarrow> a \<noteq> fst (snd x)" for n a c by (force simp: image_iff)
  with IH x show ?case
    using commit_one_heap(2) [of v track x st] by (auto simp: commit_one_heap(1))
qed simp

text \<open>Writes on top of contents.\<close>

definition put_writes :: "Write \<Rightarrow> (Key \<Rightarrow> Value option) \<Rightarrow> Key \<Rightarrow> Value option" where
  "put_writes w f k = (case map_of w k of None \<Rightarrow> f k | Some x \<Rightarrow> x)"

lemma put_writes_Nil [simp]: "put_writes [] f = f"
  by (rule ext) (simp add: put_writes_def)

definition writes_of :: "OrderedChanges \<Rightarrow> string \<Rightarrow> Write" where
  "writes_of cs n = (case map_of cs n of Some (a, Normal k) \<Rightarrow> writes k | _ \<Rightarrow> [])"

text \<open>The maps that writes go to: those of the store and the new ones.\<close>

definition owns :: "'p kv_store \<Rightarrow> MapCollection \<Rightarrow> string \<Rightarrow> addr \<Rightarrow> bool" where
  "owns st new n a \<longleftrightarrow> map_of new n = Some a \<or> map_option snd (map_of (maps st) n) = Some a"

lemma mapped_ok:
  assumes "maps_ok w st" and "map_option snd (map_of (maps st) n) = Some a"
  obtains c where "map_ok w st (n, c, a)"
  using assms by (auto simp: maps_ok_def list_all_iff dest!: map_of_SomeD)

lemma owns_inj:
  assumes "maps_ok w st" and "changes_ok st new cs" and "owns st new n a" and "owns st new n' a"
  shows "n = n'"
proof -
  have new: "a \<notin> set (addrs st)" if "map_of new m = Some a" for m
    using assms(2) map_of_SomeD [OF that] by (auto simp: changes_ok_def list_all_iff fresh_def)
  have old: "a \<in> set (addrs st)" if "map_option snd (map_of (maps st) m) = Some a" for m
    using that by (force simp: addrs_def dest: map_of_SomeD)
  have i: "inj_on snd (set new)" using assms(2) by (simp add: changes_ok_def distinct_map)
  have "m = m'" if "map_of new m = Some a" "map_of new m' = Some a" for m m'
    using inj_onD [OF i, of "(m, a)" "(m', a)"] map_of_SomeD [OF that(1)] map_of_SomeD [OF that(2)] by simp
  moreover have "m = m'" if "map_option snd (map_of (maps st) m) = Some a" "map_option snd (map_of (maps st) m') = Some a" for m m'
    by (rule mapped_ok [OF assms(1) that(1)], rule mapped_ok [OF assms(1) that(2)]) (simp add: map_ok_def)
  ultimately show ?thesis using assms(3,4) new old unfolding owns_def by blast
qed

lemma prepared_owner:
  assumes "changes_ok st new cs" and "prepare_all False cs st" and "(n, a, c) \<in> set cs" and "changes_have_writes c"
  shows "\<exists>k. c = Normal k \<and> writes k \<noteq> [] \<and> valid (heap st a) k \<and> prepare False (heap st a) k \<and> owns st new n a"
proof -
  have ok: "change_ok st new (n, a, c)" using assms(1,3) by (auto simp: changes_ok_def list_all_iff)
  then obtain k where k: "c = Normal k" by (cases c) (auto simp: change_ok_def)
  have w: "writes k \<noteq> []" using assms(4) by (simp add: k has_writes_def)
  have p: "prepare False (heap st a) k" using assms(2,3) by (auto simp: prepare_all_def list_all_iff k)
  then have "cs_rollback_counter k = rollback_counter (roll (heap st a))"
    using w by (simp add: prepare_def split: if_splits)
  then show ?thesis using ok k w p by (auto simp: change_ok_def owns_def split: if_splits)
qed

lemma sorted_map_of_iff:
  "sorted_wrt (<) (al_keys m) \<Longrightarrow> map_of m k = Some v \<longleftrightarrow> (k, v) \<in> set m"
  for m :: "('k :: linorder \<times> 'v) list"
  by (auto simp: al_keys_def strict_sorted_iff dest: map_of_SomeD)

text \<open>
  The two loops of \<open>apply_changes\<close> after a version has been found: new maps are published, then
  every change set is committed.
\<close>

lemma tail_version: "hist_ok (hist m) \<Longrightarrow> lc_version (get_tail m) = fst (last (hist m))"
  by (metis fst_conv get_tail_hist hist_nonempty hist_ok_def)

lemma tail_state: "hist_ok (hist m) \<Longrightarrow> lc_state (get_tail m) = snd (last (hist m))"
  by (metis snd_conv get_tail_hist hist_nonempty hist_ok_def)

lemma hist_ok_fresh: "hist m = [(0, champ_empty)] \<Longrightarrow> hist_ok (hist m)"
  by (simp add: hist_ok_def initial_stamped)

lemma owner_ok:
  assumes "maps_ok w st" and "changes_ok st new cs" and "owns st new n a" and "w < v"
  shows "hist_ok (hist (heap st a))" and "lc_version (get_tail (heap st a)) < v"
    and "map_name (heap st a) = n" and "a < next_addr st"
proof -
  have "hist_ok (hist (heap st a)) \<and> lc_version (get_tail (heap st a)) < v \<and> map_name (heap st a) = n \<and> a < next_addr st"
  proof (cases "map_of new n = Some a")
    case True
    then have f: "fresh st (n, a)" using assms(2) by (auto simp: changes_ok_def list_all_iff dest: map_of_SomeD)
    then have h: "hist_ok (hist (heap st a))" by (intro hist_ok_fresh) (simp add: fresh_def)
    with f assms(4) tail_version [OF h] show ?thesis by (simp add: fresh_def)
  next
    case False
    with assms(3) have "map_option snd (map_of (maps st) n) = Some a" by (simp add: owns_def)
    from mapped_ok [OF assms(1) this] obtain c where "map_ok w st (n, c, a)" .
    then show ?thesis using assms(4) by (simp add: map_ok_def)
  qed
  then show "hist_ok (hist (heap st a))" and "lc_version (get_tail (heap st a)) < v"
    and "map_name (heap st a) = n" and "a < next_addr st" by auto
qed

lemma commit_writes:
  assumes "hist_ok (hist m)" and "valid m k" and "lc_version (get_tail m) < v" and "v < 2 ^ 63" and "writes k \<noteq> []"
  defines "m' \<equiv> fst (handle_commit v False m k)"
  shows "hist_ok (hist m') \<and> lc_version (get_tail m') \<le> v \<and> map_name m' = map_name m \<and> replicated m' = replicated m
    \<and> visible (lc_state (get_tail m')) = put_writes (writes k) (visible (lc_state (get_tail m)))"
proof -
  have ok: "cs_ok k" using assms(2) by (simp add: valid_def)
  have lt: "fst (last (hist m)) < v" using assms(3) tail_version [OF assms(1)] by simp
  have h: "hist_ok (hist m')" using hist_commit [OF assms(2,1,3,4)] by (simp add: m'_def)
  have "hist m' = hist m \<or> (\<exists>s. hist m' = hist m @ [(v, s)])"
    using handle_commit_hist(2) [OF ok assms(1) lt assms(4,5)] by (auto simp: m'_def)
  then have "lc_version (get_tail m') \<le> v" using tail_version [OF h] lt by auto
  moreover have "map_name m' = map_name m" "replicated m' = replicated m"
    by (simp_all add: m'_def handle_commit_def insert_back_def Let_def case_prod_beta)
  moreover have "visible (lc_state (get_tail m')) = put_writes (writes k) (visible (lc_state (get_tail m)))"
    by (rule ext) (simp add: m'_def put_writes_def visible_commit [OF assms(2,1,3,4,5)])
  ultimately show ?thesis using h by simp
qed

text \<open>The heap after the second loop: only maps that are written to change.\<close>

lemma commit_all_writes:
  fixes v :: Version
  assumes "changes_ok st new cs" and "prepare_all False cs st" and "\<forall>b. same_map (heap st b) (heap st1 b)"
  defines "st2 \<equiv> fold (commit_one v False) cs st1"
  obtains (same) "heap st2 b = heap st1 b" "\<forall>n c. (n, b, c) \<in> set cs \<longrightarrow> \<not> changes_have_writes c"
    | (changed) n k where "(n, b, Normal k) \<in> set cs" "writes k \<noteq> []" "owns st new n b" "valid (heap st1 b) k"
        "heap st2 b = fst (handle_commit v False (heap st1 b) k)"
proof (cases "\<exists>n c. (n, b, c) \<in> set cs \<and> changes_have_writes c")
  have d: "distinct (map (\<lambda>x. fst (snd x)) cs)" using assms(1) by (simp add: changes_ok_def)
  note c = commit_all_heap [OF d, of v False st1, folded st2_def]
  {
    case True
    then obtain n c where nc: "(n, b, c) \<in> set cs" "changes_have_writes c" by blast
    from prepared_owner [OF assms(1,2) nc] obtain k where k: "c = Normal k" "writes k \<noteq> []" "valid (heap st b) k"
      "owns st new n b" by blast
    have "valid (heap st1 b) k" using k(3) assms(3) same_map_valid by blast
    moreover have "heap st2 b = committer_commit v False (heap st1 b) c"
      using c nc(1) by blast
    ultimately show ?thesis using changed nc(1) k by simp
  next
    case False
    have "heap st2 b = heap st1 b"
    proof (cases "b \<in> set (map (\<lambda>x. fst (snd x)) cs)")
      case True
      then obtain n c where nc: "(n, b, c) \<in> set cs" by auto
      then obtain k where k: "c = Normal k"
        using assms(1) by (cases c) (auto simp: changes_ok_def list_all_iff change_ok_def)
      have "\<not> changes_have_writes c" using False nc by blast
      then have "writes k = []" by (simp add: k has_writes_def)
      then have "committer_commit v False (heap st1 b) c = heap st1 b" by (simp add: k handle_commit_def)
      with c nc show ?thesis by auto
    qed (insert c, auto)
    with False same show ?thesis by blast
  }
qed

definition new_absent :: "'p kv_store \<Rightarrow> MapCollection \<Rightarrow> bool" where
  "new_absent st new \<longleftrightarrow> (\<forall>(n, a)\<in>set new. map_of (maps st) n = None)"

lemma new_absentD: "new_absent st new \<Longrightarrow> map_of new n = Some a \<Longrightarrow> map_of (maps st) n = None"
  by (auto simp: new_absent_def dest!: map_of_SomeD)

lemma owns_unique: "new_absent st new \<Longrightarrow> owns st new n a \<Longrightarrow> owns st new n b \<Longrightarrow> a = b"
  by (auto simp: owns_def dest: new_absentD)

lemma heap_written:
  fixes v :: Version
  assumes "maps_ok w st" and "changes_ok st new cs" and "prepare_all False cs st" and "new_absent st new"
    and "\<forall>b. same_map (heap st b) (heap st1 b)" and "w < v" and "v < 2 ^ 63" and "owns st new n b"
  defines "st2 \<equiv> fold (commit_one v False) cs st1"
  shows "hist_ok (hist (heap st2 b)) \<and> lc_version (get_tail (heap st2 b)) \<le> v \<and> map_name (heap st2 b) = n
    \<and> replicated (heap st2 b) = replicated (heap st b)
    \<and> visible (lc_state (get_tail (heap st2 b))) = put_writes (writes_of cs n) (visible (lc_state (get_tail (heap st b))))"
proof -
  note o = owner_ok [OF assms(1,2,8,6)]
  have same: "same_map (heap st b) (heap st1 b)" using assms(5) by blast
  then have h1: "hist_ok (hist (heap st1 b))" "lc_version (get_tail (heap st1 b)) < v" "map_name (heap st1 b) = n"
    "get_tail (heap st1 b) = get_tail (heap st b)" "replicated (heap st1 b) = replicated (heap st b)"
    using o by (simp_all add: same_map_hist same_map_tail) (simp_all add: same_map_def)
  have sc: "sorted_wrt (<) (al_keys cs)" using assms(2) by (simp add: changes_ok_def)
  show ?thesis
  proof (cases rule: commit_all_writes [OF assms(2,3,5), where b = b and v = v, folded st2_def])
    case 1
    have "writes k = []" if m: "map_of cs n = Some (a, Normal k)" for a k
    proof (rule ccontr)
      assume k: "writes k \<noteq> []"
      have mem: "(n, a, Normal k) \<in> set cs" using m by (rule map_of_SomeD)
      have "owns st new n a" using prepared_owner [OF assms(2,3) mem] k by (simp add: has_writes_def)
      then have "a = b" using owns_unique [OF assms(4)] assms(8) by blast
      then have "\<not> changes_have_writes (Normal k)" using 1(2) mem by blast
      with k show False by (simp add: has_writes_def)
    qed
    then have "writes_of cs n = []" by (auto simp: writes_of_def split: option.split changes.split)
    then show ?thesis using 1(1) h1 by simp
  next
    case (2 n' k)
    then have "n' = n" using owns_inj [OF assms(1,2) _ assms(8)] by blast
    then have "map_of cs n = Some (b, Normal k)" using 2(1) sc by (simp add: sorted_map_of_iff)
    then have "writes_of cs n = writes k" by (simp add: writes_of_def)
    then show ?thesis
      using commit_writes [OF h1(1) 2(4) h1(2) assms(7) 2(2)] 2(5) h1(3,4,5) by simp
  qed
qed

lemma visible_empty: "visible champ_empty = Map.empty"
  by (rule ext) (simp add: visible_absent kvs.get_empty)

lemma contents_owner:
  assumes "changes_ok st new cs" and "new_absent st new" and "owns st new n a"
  shows "contents st n = visible (lc_state (get_tail (heap st a)))"
proof (cases "map_of new n = Some a")
  case True
  then have h: "hist (heap st a) = [(0, champ_empty)]"
    using assms(1) by (auto simp: changes_ok_def list_all_iff fresh_def dest!: map_of_SomeD)
  have "map_of (maps st) n = None" using assms(2) True by (rule new_absentD)
  then show ?thesis
    using tail_state [OF hist_ok_fresh [OF h]] by (auto simp: contents_def h visible_empty)
next
  case False
  then show ?thesis using assms(3) by (auto simp: owns_def contents_def)
qed

text \<open>What the two loops do to the collection of maps and to the heap.\<close>

definition advances :: "'p kv_store \<Rightarrow> MapCollection \<Rightarrow> OrderedChanges \<Rightarrow> Version \<Rightarrow> 'p kv_store \<Rightarrow> bool" where
  "advances st new cs v st' \<longleftrightarrow>
     set (maps st') = set (maps st) \<union> {(n, v, a) |n a. (n, a) \<in> set new \<and> written_to cs n}
     \<and> (\<forall>b. (\<forall>n k. (n, b, Normal k) \<in> set cs \<longrightarrow> writes k = []) \<longrightarrow> same_map (heap st b) (heap st' b))
     \<and> (\<forall>n b k. (n, b, Normal k) \<in> set cs \<and> writes k \<noteq> [] \<longrightarrow>
          owns st new n b \<and> valid (heap st b) k \<and> prepare False (heap st b) k
          \<and> (\<exists>m. same_map (heap st b) m \<and> heap st' b = fst (handle_commit v False m k)))"

lemma advances_heap:
  assumes "changes_ok st new cs" and "prepare_all False cs st" and "\<forall>b. same_map (heap st b) (heap st1 b)"
    and "set (maps st1) = set (maps st) \<union> {(n, v, a) |n a. (n, a) \<in> set new \<and> written_to cs n}"
    and "maps (fold (commit_one v False) cs st1) = maps st1"
  shows "advances st new cs v (fold (commit_one v False) cs st1)"
proof -
  let ?st2 = "fold (commit_one v False) cs st1"
  note cases = commit_all_writes [OF assms(1-3), where v = v]
  have "inj_on (\<lambda>x. fst (snd x)) (set cs)" using assms(1) by (simp add: changes_ok_def distinct_map)
  then have same: "(n, k) = (n', k')" if "(n, b, Normal k) \<in> set cs" "(n', b, Normal k') \<in> set cs" for n n' b k k'
    using inj_onD [of "\<lambda>x. fst (snd x)" "set cs" "(n, b, Normal k)" "(n', b, Normal k')"] that by simp
  have "same_map (heap st b) (heap ?st2 b)" if "\<forall>n k. (n, b, Normal k) \<in> set cs \<longrightarrow> writes k = []" for b
    by (rule cases [where b = b]) (insert assms(3) that, auto)
  moreover have "owns st new n b \<and> valid (heap st b) k \<and> prepare False (heap st b) k
      \<and> (\<exists>m. same_map (heap st b) m \<and> heap ?st2 b = fst (handle_commit v False m k))"
    if w: "(n, b, Normal k) \<in> set cs" "writes k \<noteq> []" for n b k
  proof (rule cases [where b = b])
    assume "\<forall>n c. (n, b, c) \<in> set cs \<longrightarrow> \<not> changes_have_writes c"
    then have "\<not> changes_have_writes (Normal k)" using w(1) by blast
    then show ?thesis using w(2) by (simp add: has_writes_def)
  next
    fix n' k' assume "(n', b, Normal k') \<in> set cs" "heap ?st2 b = fst (handle_commit v False (heap st1 b) k')"
    then show ?thesis
      using same [OF w(1)] prepared_owner [OF assms(1,2) w(1)] w(2) assms(3) by (auto simp: has_writes_def)
  qed
  ultimately show ?thesis unfolding advances_def assms(4,5) by blast
qed

text \<open>The store after both loops.\<close>

lemma applied:
  fixes v :: Version
  assumes "maps_ok w st" and "changes_ok st new cs" and "prepare_all False cs st" and "new_absent st new"
    and "w < v" and "v < 2 ^ 63"
  shows "\<exists>st1. add_new_maps v new cs st = ok st1 \<and> same_but_maps st (fold (commit_one v False) cs st1)
    \<and> maps_ok v (fold (commit_one v False) cs st1)
    \<and> (\<forall>n. contents (fold (commit_one v False) cs st1) n = put_writes (writes_of cs n) (contents st n))
    \<and> (\<forall>n a. owns st new n a \<longrightarrow> map_name (heap (fold (commit_one v False) cs st1) a) = n
         \<and> replicated (heap (fold (commit_one v False) cs st1) a) = replicated (heap st a))
    \<and> advances st new cs v (fold (commit_one v False) cs st1)"
proof -
  have pre: "\<forall>(n, a)\<in>set new. map_name (heap st a) = n \<and> map_of (maps st) n = None"
    using assms(2,4) by (auto simp: changes_ok_def new_absent_def list_all_iff fresh_def)
  have dn: "distinct (al_keys new)" and sm: "sorted_wrt (<) (al_keys (maps st))"
    and d: "distinct (map (\<lambda>x. fst (snd x)) cs)"
    using assms(1,2) by (simp_all add: changes_ok_def maps_ok_def)
  from add_new_maps_effect [OF dn pre sm, of v cs] obtain st1 where st1: "add_new_maps v new cs st = ok st1"
    "same_but_maps st st1" "\<forall>b. same_map (heap st b) (heap st1 b)" "sorted_wrt (<) (al_keys (maps st1))"
    "set (maps st1) = set (maps st) \<union> {(n, v, a) |n a. (n, a) \<in> set new \<and> written_to cs n}" by blast
  define st2 where "st2 = fold (commit_one v False) cs st1"
  have s12: "st2 = st1\<lparr>heap := heap st2\<rparr>" using commit_all_heap [OF d, of v False st1] by (simp add: st2_def)
  then have maps2: "maps st2 = maps st1" by (metis kv_store.select_convs(3) kv_store.update_convs(1) kv_store.surjective)
  have "same_but_maps st1 st2" using s12 maps2 by (cases st1, cases st2) (simp add: same_but_maps_def)
  with st1(2) have but: "same_but_maps st st2" by (rule same_but_maps_trans)
  then have next2: "next_addr st2 = next_addr st"
    by (metis same_but_maps_def kv_store.select_convs(2) kv_store.update_convs(1,3) kv_store.surjective)
  note written = heap_written [OF assms(1-4) st1(3) assms(5,6), folded st2_def]
  have owned: "owns st new n a \<and> c \<le> v" if "(n, c, a) \<in> set (maps st2)" for n c a
  proof (cases "(n, c, a) \<in> set (maps st)")
    case True
    then have "map_ok w st (n, c, a)" using assms(1) by (simp add: maps_ok_def list_all_iff)
    then show ?thesis using True assms(5) sm by (auto simp: map_ok_def owns_def sorted_map_of_iff)
  next
    case False
    then show ?thesis using that dn unfolding maps2 st1(5) by (auto simp: owns_def al_keys_def)
  qed
  have s2: "sorted_wrt (<) (al_keys (maps st2))" using st1(4) by (simp add: maps2)
  have "map_ok v st2 x" if "x \<in> set (maps st2)" for x
  proof -
    obtain n c a where x: "x = (n, c, a)" by (cases x)
    then have o: "owns st new n a" "c \<le> v" using owned that by auto
    show ?thesis using written [OF o(1)] owner_ok(4) [OF assms(1,2) o(1) assms(5)] o(2)
      by (simp add: map_ok_def x next2)
  qed
  then have "maps_ok v st2" using s2 by (simp add: maps_ok_def list_all_iff)
  moreover have "contents st2 n = put_writes (writes_of cs n) (contents st n)" for n
  proof (cases "map_of (maps st2) n")
    case None
    then have "map_of (maps st) n = None" unfolding map_of_eq_None_iff maps2 st1(5) by auto
    moreover have "writes_of cs n = []"
    proof (rule ccontr)
      assume "writes_of cs n \<noteq> []"
      then obtain a k where m: "map_of cs n = Some (a, Normal k)" and k: "writes k \<noteq> []"
        by (auto simp: writes_of_def split: option.splits changes.splits)
      have "owns st new n a" using prepared_owner [OF assms(2,3) map_of_SomeD [OF m]] k by (simp add: has_writes_def)
      then have "(n, a) \<in> set new" using \<open>map_of (maps st) n = None\<close> by (auto simp: owns_def dest: map_of_SomeD)
      moreover have "written_to cs n" using m k by (simp add: written_to_def has_writes_def)
      ultimately have "(n, v, a) \<in> set (maps st2)" unfolding maps2 st1(5) by blast
      then show False using None s2 by (simp add: sorted_map_of_iff [symmetric])
    qed
    ultimately show ?thesis using None by (simp add: contents_def)
  next
    case (Some x)
    then obtain c a where x: "map_of (maps st2) n = Some (c, a)" by (cases x) auto
    then have o: "owns st new n a" using owned map_of_SomeD [OF x] by blast
    show ?thesis using written [OF o] x contents_owner [OF assms(2,4) o] by (simp add: contents_def)
  qed
  moreover have "advances st new cs v st2" using advances_heap [OF assms(2,3) st1(3,5)] maps2 by (simp add: st2_def)
  ultimately show ?thesis using st1(1) but written by (auto simp: st2_def)
qed

section \<open>Creating maps\<close>

text \<open>A map that is created does not touch the others.\<close>

definition allocated :: "'p kv_store \<Rightarrow> 'p kv_store \<Rightarrow> bool" where
  "allocated st st' \<longleftrightarrow> st' = st\<lparr>heap := heap st', next_addr := next_addr st'\<rparr> \<and> next_addr st \<le> next_addr st'
     \<and> (\<forall>a<next_addr st. heap st' a = heap st a)"

lemma allocated_refl: "allocated st st"
  by (simp add: allocated_def)

lemma allocated_trans: "allocated a b \<Longrightarrow> allocated b c \<Longrightarrow> allocated a c"
  by (cases a, cases b, cases c) (simp add: allocated_def)

lemma allocated_fields:
  assumes "allocated st st'"
  shows "maps st' = maps st" and "st_version st' = st_version st" and "compacted st' = compacted st"
    and "has_history st' = has_history st" and "term_of_next_version st' = term_of_next_version st"
  using assms by (cases st, cases st', simp add: allocated_def)+

lemma allocated_contents:
  assumes "allocated st st'" and "maps_ok w st"
  shows "contents st' = contents st"
proof
  fix n
  show "contents st' n = contents st n"
  proof (cases "map_of (maps st) n")
    case (Some x)
    then obtain c a where x: "x = (c, a)" "map_of (maps st) n = Some (c, a)" by (cases x) auto
    then have "a < next_addr st" using mapped_ok [OF assms(2), of n a] by (auto simp: map_ok_def)
    then show ?thesis using x assms(1) by (simp add: contents_def allocated_fields [OF assms(1)]) (simp add: allocated_def)
  qed (simp add: contents_def allocated_fields [OF assms(1)])
qed

lemma alloc_allocated: "allocated st (fst (alloc_map n st))"
  by (simp add: allocated_def alloc_map_def)

lemma allocated_store_ok:
  assumes "allocated st st'" and "store_ok st"
  shows "store_ok st'"
proof -
  have "map_ok w st' x" if "map_ok w st x" for w x
    using that assms(1) by (cases x) (auto simp: map_ok_def allocated_def)
  then show ?thesis using assms by (auto simp: store_ok_def maps_ok_def allocated_fields list_all_iff)
qed

text \<open>Maps with different names are at different addresses.\<close>

lemma named_distinct:
  assumes "sorted_wrt (<) (al_keys (m :: ('k :: linorder \<times> 'v) list))" and "\<forall>(n, x)\<in>set m. name (f x) = n"
  shows "distinct (map (\<lambda>x. f (snd x)) m)"
proof -
  have d: "distinct (al_keys m)" using assms(1) by (simp add: strict_sorted_iff)
  then have "inj_on fst (set m)" "distinct m" by (simp_all add: al_keys_def distinct_map)
  moreover have "inj_on (\<lambda>x. f (snd x)) (set m)"
  proof (rule inj_onI)
    fix x y assume xy: "x \<in> set m" "y \<in> set m" "f (snd x) = f (snd y)"
    have "fst x = name (f (snd x))" "fst y = name (f (snd y))" using assms(2) xy(1,2) by auto
    then show "x = y" using inj_onD [OF calculation(1) _ xy(1,2)] xy(3) by simp
  qed
  ultimately show ?thesis by (simp add: distinct_map)
qed

section \<open>Transactions are atomic\<close>

lemma store_okD: "store_ok st \<Longrightarrow> maps_ok (st_version st) st"
  by (simp add: store_ok_def)

lemma new_maps_free_None: "store_ok st \<Longrightarrow> new_maps_free new None st = new_absent st new"
  by (auto simp: new_maps_free_def new_absent_def list_all_iff get_map_current split: option.splits)

definition any_writes :: "OrderedChanges \<Rightarrow> bool" where
  "any_writes cs \<longleftrightarrow> (\<exists>(n, a, c)\<in>set cs. changes_have_writes c)"

lemma no_writes_of: "\<not> any_writes cs \<Longrightarrow> writes_of cs n = []"
  by (auto simp: any_writes_def writes_of_def has_writes_def split: option.splits changes.splits dest!: map_of_SomeD)

text \<open>A resolver that only gives out a version.\<close>

definition gives :: "'p resolver \<Rightarrow> Version \<Rightarrow> 'p kv_store \<Rightarrow> bool \<Rightarrow> 'p kv_store \<Rightarrow> bool" where
  "gives resolver v st nm st0 \<longleftrightarrow> fst (resolver nm st) = st0 \<and> fst (snd (resolver nm st)) = v
     \<and> heap st0 = heap st \<and> maps st0 = maps st \<and> next_addr st0 = next_addr st"

lemma apply_changes_cases:
  assumes "store_ok st" and "changes_ok st new cs" and "gives resolver v st (new \<noteq> []) st0"
    and "st_version st < v" and "v < 2 ^ 63"
  obtains (conflict) "apply_changes cs resolver new None False st = Done st (None, [])"
      "\<not> (prepare_all False cs st \<and> new_absent st new)"
  | (read_only) "apply_changes cs resolver new None False st = Done st (Some NoVersion, [])" "\<not> any_writes cs"
      "prepare_all False cs st" "new_absent st new"
  | (committed) st' where "apply_changes cs resolver new None False st = Done st' (Some v, collect_hooks v cs st')"
      "any_writes cs" "prepare_all False cs st" "new_absent st new"
      "same_but_maps st0 st'" "maps_ok v st'" "\<forall>n. contents st' n = put_writes (writes_of cs n) (contents st n)"
      "\<forall>n a. owns st new n a \<longrightarrow> map_name (heap st' a) = n \<and> replicated (heap st' a) = replicated (heap st a)"
      "advances st new cs v st'"
proof -
  have free: "new_maps_free new None st = new_absent st new" using assms(1) by (rule new_maps_free_None)
  consider "\<not> (prepare_all False cs st \<and> new_absent st new)" | "prepare_all False cs st" "new_absent st new" "\<not> any_writes cs"
    | "prepare_all False cs st" "new_absent st new" "any_writes cs" by blast
  then show thesis
  proof cases
    case 1
    then show ?thesis using conflict by (auto simp: apply_changes_def free)
  next
    case 2
    then have "apply_changes cs resolver new None False st = Done st (Some NoVersion, [])"
      by (auto simp: apply_changes_def free any_writes_def list_ex_iff)
    then show ?thesis using read_only 2 by blast
  next
    case 3
    obtain l where g: "resolver (new \<noteq> []) st = (st0, v, l)" "heap st0 = heap st" "maps st0 = maps st"
      "next_addr st0 = next_addr st" using assms(3) by (cases "resolver (new \<noteq> []) st") (auto simp: gives_def)
    have "map_ok w st0 = map_ok w st" for w by (rule ext) (simp add: map_ok_def g)
    then have m: "maps_ok (st_version st) st0" using store_okD [OF assms(1)] by (simp add: maps_ok_def g)
    have "change_ok st0 = change_ok st" "fresh st0 = fresh st"
      by (intro ext; simp add: change_ok_def fresh_def addrs_def g cong: changes.case_cong)+
    then have c: "changes_ok st0 new cs" using assms(2) by (simp add: changes_ok_def)
    have p: "prepare_all False cs st0" "new_absent st0 new" using 3 by (simp_all add: prepare_all_def new_absent_def g)
    have "contents st0 = contents st" "owns st0 = owns st" unfolding contents_def [abs_def] owns_def [abs_def] g by (rule refl)+
    moreover have "advances st0 = advances st" unfolding advances_def [abs_def] \<open>owns st0 = owns st\<close> g by (rule refl)
    ultimately have same: "contents st0 = contents st" "owns st0 = owns st" "advances st0 = advances st" by blast+
    from applied [OF m c p assms(4,5), unfolded same] obtain st1 where st1: "add_new_maps v new cs st0 = ok st1"
      "same_but_maps st0 (fold (commit_one v False) cs st1)" "maps_ok v (fold (commit_one v False) cs st1)"
      "\<forall>n. contents (fold (commit_one v False) cs st1) n = put_writes (writes_of cs n) (contents st n)"
      "\<forall>n a. owns st new n a \<longrightarrow> map_name (heap (fold (commit_one v False) cs st1) a) = n
        \<and> replicated (heap (fold (commit_one v False) cs st1) a) = replicated (heap st a)"
      "advances st new cs v (fold (commit_one v False) cs st1)" by (auto simp: g)
    have "apply_changes cs resolver new None False st =
        Done (fold (commit_one v False) cs st1) (Some v, collect_hooks v cs (fold (commit_one v False) cs st1))"
      using 3 g(1) st1(1)
      by (auto simp: apply_changes_def free any_writes_def list_ex_iff Let_def)
    then show ?thesis using committed 3 st1 by blast
  qed
qed

text \<open>What a change set that is accepted has read is what the store holds.\<close>

definition reads_current :: "'p kv_store \<Rightarrow> string \<Rightarrow> ChangeSet \<Rightarrow> bool" where
  "reads_current st n k \<longleftrightarrow>
     (\<forall>key\<in>set (al_keys (reads k)). visible (cs_state k) key = contents st n key)
     \<and> (read_version k \<noteq> NoVersion \<longrightarrow> visible (cs_state k) = contents st n)"

lemma prepared_reads_current:
  assumes "maps_ok w st" and "changes_ok st new cs" and "prepare_all False cs st" and "new_absent st new"
    and "(n, a, Normal k) \<in> set cs" and "writes k \<noteq> []"
  shows "reads_current st n k"
proof -
  have p: "valid (heap st a) k" "prepare False (heap st a) k" "owns st new n a"
    using prepared_owner [OF assms(2,3,5)] assms(6) by (auto simp: has_writes_def)
  have h: "hist_ok (hist (heap st a))" using owner_ok(1) [OF assms(1,2) p(3) lessI] .
  note s = prepare_sound [OF p(1) h assms(6) p(2)]
  show ?thesis
    unfolding reads_current_def contents_owner [OF assms(2,4) p(3)] using s by (auto simp: visible_def)
qed

text \<open>A change set nothing has been committed under since it was opened.\<close>

definition undisturbed :: "'p kv_store \<Rightarrow> addr \<Rightarrow> ChangeSet \<Rightarrow> bool" where
  "undisturbed st a k \<longleftrightarrow> cs_rollback_counter k = rollback_counter (roll (heap st a))
     \<and> start_version k = lc_version (get_tail (heap st a)) \<and> cs_state k = lc_state (get_tail (heap st a))"

lemma undisturbed_prepared:
  assumes "changes_ok st new cs" and "\<forall>n a k. (n, a, Normal k) \<in> set cs \<longrightarrow> writes k = [] \<or> undisturbed st a k"
  shows "prepare_all False cs st"
proof -
  have "committer_prepare False (heap st a) c" if m: "(n, a, c) \<in> set cs" for n a c
  proof -
    obtain k where k: "c = Normal k" "valid (heap st a) k"
      using assms(1) m by (cases c) (auto simp: changes_ok_def list_all_iff change_ok_def)
    show ?thesis
    proof (cases "writes k = []")
      case True
      then show ?thesis by (simp add: k prepare_def)
    next
      case False
      then have "undisturbed st a k" using assms(2) m k by blast
      then show ?thesis using prepare_complete [OF k(2)] by (simp add: k undisturbed_def)
    qed
  qed
  then show ?thesis by (auto simp: prepare_all_def list_all_iff)
qed

lemma next_version_gives:
  assumes "st_version st + 1 < 2 ^ 63"
  shows "gives next_version (st_version st + 1) st nm (fst (next_version nm st))"
    and "st_version (fst (next_version nm st)) = st_version st + 1"
    and "compacted (fst (next_version nm st)) = compacted st"
  using assms by (simp_all add: gives_def next_version_def next_version_unsafe_def deletable_max_def Let_def)

lemma same_but_mapsD: "same_but_maps st st' \<Longrightarrow> st_version st' = st_version st \<and> compacted st' = compacted st"
  unfolding same_but_maps_def by (cases st, cases st') simp

text \<open>C10: A transaction is applied as a whole or not at all. On a well-formed store, with change sets as
  transactions build them, \<open>apply_changes\<close> ends: with a conflict or with nothing to write the
  store is as it was; otherwise the version is the next one, every map holds what it held with the
  writes of the transaction on top, everything read from the maps it writes to is current, and the
  store is still well formed. A transaction on new names during which nothing else committed to the
  maps it writes has no conflict.\<close>

theorem apply_changes_atomic:
  assumes "store_ok st" and "changes_ok st new cs" and "st_version st + 1 < 2 ^ 63"
  shows "\<exists>st' r hooks. apply_changes cs next_version new None False st = Done st' (r, hooks) \<and> store_ok st'
    \<and> (case r of
         None \<Rightarrow> st' = st
       | Some v \<Rightarrow>
           if \<not> any_writes cs then v = NoVersion \<and> st' = st
           else v = st_version st + 1 \<and> st_version st' = v
             \<and> (\<forall>n. contents st' n = put_writes (writes_of cs n) (contents st n))
             \<and> (\<forall>n a k. (n, a, Normal k) \<in> set cs \<and> writes k \<noteq> [] \<longrightarrow> reads_current st n k))
    \<and> (new_absent st new \<and> (\<forall>n a k. (n, a, Normal k) \<in> set cs \<longrightarrow> writes k = [] \<or> undisturbed st a k) \<longrightarrow> r \<noteq> None)"
proof -
  let ?v = "st_version st + 1"
  note nv = next_version_gives [OF assms(3), of "new \<noteq> []"]
  show ?thesis
  proof (cases rule: apply_changes_cases [OF assms(1,2) nv(1) _ assms(3)])
    case 2
    then show ?thesis using assms(1) undisturbed_prepared [OF assms(2)] by auto
  next
    case 3
    then show ?thesis using assms(1) by auto
  next
    case (4 st')
    have "st_version st' = ?v" "compacted st' = compacted st" using same_but_mapsD [OF 4(5)] nv by auto
    moreover from this have "store_ok st'" using 4(6) assms(1,3) by (simp add: store_ok_def)
    moreover have "reads_current st n k" if "(n, a, Normal k) \<in> set cs" "writes k \<noteq> []" for n a k
      by (rule prepared_reads_current [OF store_okD [OF assms(1)] assms(2) 4(3,4) that])
    ultimately show ?thesis using 4(1,2,7) by auto
  qed simp
qed

text \<open>A store with one map, and a transaction that writes to it and to a new one.\<close>

definition sample_store :: "'p kv_store" where
  "sample_store = (new_store True False)\<lparr>heap := (\<lambda>a. if a = 0 then new_map ''a'' PRIVATE True else new_map ''b'' PRIVATE True),
     next_addr := 2, maps := [(''a'', NoVersion, 0)], has_encryptor := True\<rparr>"

definition sample_changes :: OrderedChanges where
  "sample_changes = [(''a'', 0, Normal (handle_put [1] [7] empty_change_set)), (''b'', 1, Normal (handle_put [2] [8] empty_change_set))]"

lemma valid_fresh:
  assumes "hist m = [(0, champ_empty)]" and "rollback_counter (roll m) = 0"
  shows "valid m empty_change_set"
  using assms initial_stamped
  by (simp add: valid_def empty_change_set_def make_change_set_def cs_ok_def reads_ok_def follows_def
      kvs.invar_empty)

lemma sample_ok:
  fixes st :: "'p kv_store"
  defines "st \<equiv> sample_store"
  shows "store_ok st" "changes_ok st [(''b'', 1)] sample_changes"
proof -
  have h: "hist (heap st a) = [(0, champ_empty)]" "map_name (heap st 0) = ''a''"
    "map_name (heap st 1) = ''b''" "rollback_counter (roll (heap st a)) = 0" for a
    by (simp_all add: st_def sample_store_def hist_new_map) (simp_all add: new_map_def reset_commits_def)
  note ok = hist_ok_fresh [OF h(1)]
  have t: "lc_version (get_tail (heap st a)) = 0" for a using tail_version [OF ok] by (simp add: h)
  show "store_ok st"
    using ok t h by (simp add: store_ok_def maps_ok_def map_ok_def st_def sample_store_def new_store_def al_keys_def)
  have "valid (heap st a) (handle_put key x empty_change_set)" for a key x
    by (intro valid_put valid_fresh h)
  then show "changes_ok st [(''b'', 1)] sample_changes"
    using h by (simp add: changes_ok_def sample_changes_def change_ok_def fresh_def al_keys_def addrs_def)
       (simp add: st_def sample_store_def)
qed

lemma sample_writes:
  "any_writes sample_changes" "writes_of sample_changes ''a'' = [([1], Some [7])]"
  "writes_of sample_changes ''b'' = [([2], Some [8])]"
  by (simp_all add: any_writes_def sample_changes_def has_writes_def writes_of_def handle_put_def
      empty_change_set_def make_change_set_def)

lemma sample_undisturbed:
  fixes st :: "'p kv_store"
  defines "st \<equiv> sample_store"
  shows "new_absent st [(''b'', 1)] \<and> (\<forall>n a k. (n, a, Normal k) \<in> set sample_changes \<longrightarrow> writes k = [] \<or> undisturbed st a k)"
proof -
  have "undisturbed st a (handle_put key x empty_change_set)" for a key x
    by (simp add: undisturbed_def st_def sample_store_def handle_put_def empty_change_set_def make_change_set_def new_map_def
        reset_commits_def get_tail_def initial_commit_def)
  then show ?thesis by (auto simp: sample_changes_def new_absent_def st_def sample_store_def)
qed

lemma sample_store_version [simp]: "st_version sample_store = 0"
  by (simp add: sample_store_def new_store_def)

theorem apply_changes_atomic_witness:
  "\<exists>st' hooks. apply_changes sample_changes next_version [(''b'', 1)] None False (sample_store :: unit kv_store) = Done st' (Some 1, hooks)
     \<and> contents st' ''a'' [1] = Some [7] \<and> contents st' ''b'' [2] = Some [8]"
  using apply_changes_atomic [OF sample_ok [where 'p = unit]] sample_writes sample_undisturbed [where 'p = unit]
  by (auto simp: put_writes_def split: option.splits)

end
