(* ===== verification/Kv_Deserialise.thy ===== *)
theory Kv_Deserialise
  imports Kv_Tx Kv_Format Kv_Apply
begin

text \<open>
  Entries applied by a node that has not executed them: \<open>Store::fill_maps\<close> and
  \<open>Store::deserialize\<close> (kv/store.h) and \<open>CFTExecutionWrapper\<close> (kv/deserialise.h).
\<close>

section \<open>State\<close>

record CFTExecutionWrapper =
  w_data :: "byte list"
  w_public_only :: bool
  w_version :: Version
  w_term :: KvTerm
  w_changes :: OrderedChanges
  w_new_maps :: MapCollection
  w_hooks :: "hook_call list"
  w_claims_digest :: ClaimsDigest
  w_commit_evidence_digest :: "Digest option"
  w_expected_txid :: "KvTxID option"

text \<open>The version and the term are not initialised: they have some values.\<close>

definition new_wrapper :: "byte list \<Rightarrow> bool \<Rightarrow> KvTxID option \<Rightarrow> KvTxID \<Rightarrow> CFTExecutionWrapper" where
  "new_wrapper data public_only expected_txid some =
     \<lparr>w_data = data, w_public_only = public_only, w_version = snd some, w_term = fst some, w_changes = [],
      w_new_maps = [], w_hooks = [], w_claims_digest = no_claims, w_commit_evidence_digest = None,
      w_expected_txid = expected_txid\<rparr>"

definition store_deserialize ::
  "byte list \<Rightarrow> ConsensusType \<Rightarrow> bool \<Rightarrow> KvTxID option \<Rightarrow> KvTxID \<Rightarrow> CFTExecutionWrapper option"
where
  "store_deserialize data consensus_type public_only expected_txid some =
     (case consensus_type of
        CFT \<Rightarrow> Some (new_wrapper data public_only expected_txid some)
      | BFT \<Rightarrow> None)"

type_synonym ('p, 'e) replay = "'p kv_store \<times> 'e \<times> CFTExecutionWrapper"

section \<open>Filling the maps\<close>

text \<open>The map an entry writes to: the one of the store, or a new one.\<close>

definition find_or_create ::
  "Version \<Rightarrow> string \<Rightarrow> 'p kv_store \<times> MapCollection \<Rightarrow> ('p kv_store \<times> MapCollection) \<times> addr"
where
  "find_or_create v name s =
     (let (st, new_maps) = s in
      case get_map_internal v name st of
        Some a \<Rightarrow> ((st, new_maps), a)
      | None \<Rightarrow> let (st, a) = alloc_map name st in ((st, upd_sorted name a new_maps), a))"

type_synonym 'p fill_state = "('p kv_store \<times> MapCollection) \<times> deserialiser \<times> OrderedChanges"

text \<open>The loop over the maps of an entry; the answer is false if a map occurs twice.\<close>

fun fill_loop :: "nat \<Rightarrow> Version \<Rightarrow> 'p fill_state \<Rightarrow> ('p fill_state, bool) exec" where
  "fill_loop 0 v s = Diverge s"
| "fill_loop (Suc fuel) v (s, d, changes) =
     (case start_map_in d of
        Throw d x \<Rightarrow> Throw (s, d, changes) x
      | Diverge d \<Rightarrow> Diverge (s, d, changes)
      | Done d None \<Rightarrow> Done (s, d, changes) True
      | Done d (Some name) \<Rightarrow>
          (let (s, a) = find_or_create v name s in
           if map_of changes name \<noteq> None then Done (s, d, changes) False
           else
             case on_reader (deserialise_changes (heap (fst s) a) v) d of
               Throw d x \<Rightarrow> Throw (s, d, changes) x
             | Diverge d \<Rightarrow> Diverge (s, d, changes)
             | Done d cs \<Rightarrow> fill_loop fuel v (s, d, upd_sorted name (a, Normal cs) changes)))"

definition set_term :: "KvTerm option \<Rightarrow> CFTExecutionWrapper \<Rightarrow> CFTExecutionWrapper" where
  "set_term t w = (case t of None \<Rightarrow> w | Some t \<Rightarrow> w\<lparr>w_term := t\<rparr>)"

text \<open>The part of \<open>fill_maps\<close> after the header has been read.\<close>

definition fill_from :: "'e crypto \<Rightarrow> nat \<Rightarrow> bool \<Rightarrow> deserialiser \<Rightarrow> ('p, 'e) replay \<Rightarrow> (('p, 'e) replay, bool) exec" where
  "fill_from c fuel ignore_strict_versions d s =
     (let (st, e, w) = s; v = w_version w; previous = (v + 2 ^ 64 - 1) mod 2 ^ 64 in
      case store_rollback (term_of_last_version st, previous) (term_of_next_version st) st of
        Throw st x \<Rightarrow> Throw (st, e, w) x
      | Diverge st \<Rightarrow> Diverge (st, e, w)
      | Done st' _ \<Rightarrow>
          let e = (if has_encryptor st \<and> previous < st_version st then rollback_keys c previous e else e) in
          if strict_versions st' \<and> \<not> ignore_strict_versions \<and> st_version st' \<noteq> previous
          then Done (st', e, w) False
          else
            case fill_loop fuel v ((st', w_new_maps w), d, w_changes w) of
              Throw ((st, new_maps), d, changes) x \<Rightarrow> Throw (st, e, w\<lparr>w_changes := changes, w_new_maps := new_maps\<rparr>) x
            | Diverge ((st, new_maps), d, changes) \<Rightarrow> Diverge (st, e, w\<lparr>w_changes := changes, w_new_maps := new_maps\<rparr>)
            | Done ((st, new_maps), d, changes) once \<Rightarrow>
                Done (st, e, w\<lparr>w_changes := changes, w_new_maps := new_maps\<rparr>) (once \<and> d_end d))"

definition fill_maps :: "'e crypto \<Rightarrow> nat \<Rightarrow> bool \<Rightarrow> ('p, 'e) replay \<Rightarrow> (('p, 'e) replay, bool) exec" where
  "fill_maps c fuel ignore_strict_versions s =
     (let (st, e, w) = s in
      case deserialiser_init (if has_encryptor st then Some c else None)
             (if w_public_only w then Some PUBLIC else None) (is_historical st) (w_data w) e of
        Throw e x \<Rightarrow> Throw (st, e, w) x
      | Diverge e \<Rightarrow> Diverge (st, e, w)
      | Done e (None, t) \<Rightarrow> Done (st, e, set_term t w) False
      | Done e (Some d, t) \<Rightarrow>
          fill_from c fuel ignore_strict_versions d
            (st, e, (set_term t w)\<lparr>w_version := ph_version (d_header d),
               w_claims_digest := ph_claims_digest (d_header d),
               w_commit_evidence_digest := ph_commit_evidence_digest (d_header d)\<rparr>))"

section \<open>Applying an entry\<close>

definition SIGNATURES :: string where
  "SIGNATURES = ''public:ccf.internal.signatures''"

definition SERIALISED_MERKLE_TREE :: string where
  "SERIALISED_MERKLE_TREE = ''public:ccf.internal.tree''"

definition SNAPSHOT_EVIDENCE :: string where
  "SNAPSHOT_EVIDENCE = ''public:ccf.internal.snapshot_evidence''"

definition ENCRYPTED_PAST_LEDGER_SECRET :: string where
  "ENCRYPTED_PAST_LEDGER_SECRET = ''public:ccf.internal.historical_encrypted_ledger_secret''"

text \<open>
  What the kinds of entries are, once committed. \<open>verify\<close> is the check of the last signature by
  history, which also reports the term of the signature.
\<close>

definition classify_entry ::
  "('p kv_store \<Rightarrow> KvTerm \<Rightarrow> bool \<times> KvTerm) \<Rightarrow> ('p, 'e) replay \<Rightarrow> ('p, 'e) replay \<times> ApplyResult"
where
  "classify_entry verify s =
     (let (st, e, w) = s; changes = w_changes w;
          is_signature = (map_of changes SIGNATURES \<noteq> None);
          unexpected = (length changes > 2 \<or> map_of changes SERIALISED_MERKLE_TREE = None);
          (verified, t) = (if has_history st then verify st (w_term w) else (True, w_term w))
      in if is_signature \<and> unexpected then (s, FAIL)
         else
           let w = (if is_signature then w\<lparr>w_term := t\<rparr> else w) in
           if is_signature \<and> \<not> verified then ((st, e, w), FAIL)
           else
             let success = (if is_signature then PASS_SIGNATURE else PASS);
                 success = (if map_of changes SNAPSHOT_EVIDENCE \<noteq> None then PASS_SNAPSHOT_EVIDENCE else success);
                 success = (if map_of changes ENCRYPTED_PAST_LEDGER_SECRET \<noteq> None
                            then PASS_ENCRYPTED_PAST_LEDGER_SECRET else success);
                 st = (if has_history st
                       then st_emit (HistoryAppend (w_data w) (w_commit_evidence_digest w) (w_claims_digest w)) st
                       else st)
             in ((st, e, w), success))"

definition cft_apply ::
  "'e crypto \<Rightarrow> ('p kv_store \<Rightarrow> KvTerm \<Rightarrow> bool \<times> KvTerm) \<Rightarrow> nat \<Rightarrow> ('p, 'e) replay
   \<Rightarrow> (('p, 'e) replay, ApplyResult) exec"
where
  "cft_apply c verify fuel s =
     bindv (fill_maps c fuel True s) (\<lambda>(st, e, w) filled.
       if \<not> filled then Done (st, e, w) FAIL
       else if (case w_expected_txid w of
                  None \<Rightarrow> False
                | Some txid \<Rightarrow> w_term w \<noteq> fst txid \<or> w_version w \<noteq> snd txid)
       then Done (st, e, w) FAIL
       else
         case commit_deserialised (w_changes w) (w_version w) (w_term w) (w_new_maps w) st of
           Throw st x \<Rightarrow> Throw (st, e, w) x
         | Diverge st \<Rightarrow> Diverge (st, e, w)
         | Done st (committed, hooks) \<Rightarrow>
             let w = w\<lparr>w_hooks := w_hooks w @ hooks\<rparr> in
             if \<not> committed then Done (st, e, w) FAIL
             else let (s, result) = classify_entry verify (st, e, w) in Done s result)"

end
