(* ===== verification/Kv_Replay.thy ===== *)
theory Kv_Replay
  imports Kv_Deserialise
begin

text \<open>
  Replication of the store: the entry of a committed transaction, applied by another node, puts the
  writes of the transaction on top of what that node holds.
\<close>

section \<open>The entry of a transaction\<close>

text \<open>What an entry says about a map: its name and what is written to it.\<close>

type_synonym item = "string \<times> Write"

definition item_bytes :: "item \<Rightarrow> byte list" where
  "item_bytes x = entry_bytes8 (string_bytes (fst x)) @ changes_bytes (snd x)"

definition sent :: "SecurityDomain \<Rightarrow> 'p kv_store \<Rightarrow> OrderedChanges \<Rightarrow> OrderedChanges" where
  "sent domain st cs =
     filter (\<lambda>(n, a, c). security_domain (heap st a) = domain \<and> replicated (heap st a) \<and> changes_have_writes c) cs"

definition items :: "OrderedChanges \<Rightarrow> item list" where
  "items cs = map (\<lambda>(n, a, c). (n, writes (change_set_of c))) cs"

fun add_to :: "SecurityDomain \<Rightarrow> byte list \<Rightarrow> serialiser \<Rightarrow> serialiser" where
  "add_to PUBLIC bs s = s\<lparr>public_writer := public_writer s @ bs\<rparr>"
| "add_to PRIVATE bs s = s\<lparr>private_writer := private_writer s @ bs\<rparr>"

definition items_bytes :: "item list \<Rightarrow> byte list" where
  "items_bytes xs = concat (map item_bytes xs)"

lemma items_bytes_simps [simp]:
  "items_bytes [] = []" "items_bytes (x # xs) = item_bytes x @ items_bytes xs"
  by (simp_all add: items_bytes_def)

lemma serialise_one:
  assumes "map_name m = n" and "security_domain m = domain"
  shows "serialise_changes True m cs False s = Inr ((add_to domain (item_bytes (n, writes cs)) s)\<lparr>current_domain := domain\<rparr>)"
  using assms
  by (cases domain) (simp_all add: serialise_changes_bytes start_map_out_def with_writer_def append_string_def
      item_bytes_def entry_bytes8_def)

lemma serialise_domain_bytes:
  assumes "has_encryptor st" and "\<forall>(n, a, c)\<in>set (sent domain st cs). map_name (heap st a) = n"
  shows "\<exists>cd. serialise_domain domain False st cs s =
    Inr ((add_to domain (items_bytes (items (sent domain st cs))) s)\<lparr>current_domain := cd\<rparr>)"
  using assms(2)
proof (induction cs arbitrary: s)
  case Nil
  have "add_to domain [] s\<lparr>current_domain := current_domain s\<rparr> = s" by (cases domain) simp_all
  then show ?case by (auto simp: serialise_domain_def sent_def items_def intro: exI [of _ "current_domain s"])
next
  case (Cons x cs)
  obtain n a c where x: "x = (n, a, c)" by (cases x)
  show ?case
  proof (cases "security_domain (heap st a) = domain \<and> replicated (heap st a) \<and> changes_have_writes c")
    case True
    let ?s = "(add_to domain (item_bytes (n, writes (change_set_of c))) s)\<lparr>current_domain := domain\<rparr>"
    have "map_name (heap st a) = n" using Cons.prems True by (simp add: x sent_def)
    then have one: "serialise_changes True (heap st a) (change_set_of c) False s = Inr ?s"
      using True by (intro serialise_one) simp_all
    have "serialise_domain domain False st (x # cs) s = serialise_domain domain False st cs ?s"
      using True assms(1) one by (simp add: serialise_domain_def x)
    moreover obtain cd where "serialise_domain domain False st cs ?s =
        Inr ((add_to domain (items_bytes (items (sent domain st cs))) ?s)\<lparr>current_domain := cd\<rparr>)"
      using Cons.IH [of ?s] Cons.prems by (auto simp: sent_def)
    ultimately show ?thesis
      using True by (cases domain) (auto simp: x sent_def items_def intro: exI [of _ cd])
  next
    case False
    then have "serialise_domain domain False st (x # cs) s = serialise_domain domain False st cs s"
      by (auto simp: serialise_domain_def x)
    moreover have "sent domain st (x # cs) = sent domain st cs" using False by (auto simp: sent_def x)
    ultimately show ?thesis using Cons.IH [of s] Cons.prems by simp
  qed
qed

text \<open>The two parts of the entry of a transaction.\<close>

definition sent_items :: "SecurityDomain \<Rightarrow> 'p kv_store \<Rightarrow> OrderedChanges \<Rightarrow> item list" where
  "sent_items domain st cs = items (sent domain st cs)"

definition public_part :: "KvTxID \<Rightarrow> Digest \<Rightarrow> ClaimsDigest \<Rightarrow> 'p kv_store \<Rightarrow> OrderedChanges \<Rightarrow> byte list" where
  "public_part txid ced claims st cs =
     public_header_bytes txid WriteSetWithCommitEvidenceAndClaims ced claims @ items_bytes (sent_items PUBLIC st cs)"

definition private_part :: "'p kv_store \<Rightarrow> OrderedChanges \<Rightarrow> byte list" where
  "private_part st cs = items_bytes (sent_items PRIVATE st cs)"

text \<open>An entry that every node which uses the key of its version can take apart.\<close>

definition readable_entry ::
  "LedgerSecrets crypto \<Rightarrow> byte list \<Rightarrow> KvTxID \<Rightarrow> byte list \<Rightarrow> byte list \<Rightarrow> byte list \<Rightarrow> bool"
where
  "readable_entry c k txid pub priv data \<longleftrightarrow>
     (\<exists>hflags hdr cipher. data = entry_layout hflags hdr pub cipher \<and> hflags < 256
        \<and> length hdr = header_length c \<and> length cipher = length priv
        \<and> (\<forall>eb. uses_key (snd txid) eb k \<longrightarrow> (\<exists>eb'. decrypt c cipher pub hdr (snd txid) False eb = Done eb' (Some priv, fst txid))))"

lemma encrypt_succeeds:
  assumes "uses_key (snd txid) e k" and "fst txid < 2 ^ 31"
  shows "\<exists>e1 hdr cipher. encryptor_encrypt enc priv pub (fst txid, snd txid) et False e = Done e1 (Some (hdr, cipher))"
proof -
  from uses_key_lookup [OF assms(1)] obtain e1 sec where "get_secret_for_version (snd txid) False e = Done e1 (Some sec)" by blast
  moreover obtain h where "set_iv (fst txid, snd txid) et new_header = Inr h"
    using assms(2) by (cases "set_iv (fst txid, snd txid) et new_header") (auto simp: set_iv_def set_iv_term_def split: if_splits)
  ultimately show ?thesis by (simp add: encryptor_encrypt_def case_prod_beta)
qed

lemma serialise_domains_readable:
  fixes hmac enc dec
  defines "c \<equiv> node_encryptor enc dec hmac"
  assumes "gcm_ok enc dec" and "uses_key (snd txid) e k" and "fst txid < 2 ^ 31" and "et \<noteq> SnapshotEntry" and "hflags < 256"
  shows "\<exists>e' data. serialise_domains (Some c) txid et hflags False pub priv e = Done e' data
    \<and> readable_entry c k txid pub priv data \<and> length data = 44 + length pub + length priv"
proof -
  from encrypt_succeeds [OF assms(3,4)] obtain e1 hdr cipher where
    enc': "encryptor_encrypt enc priv pub (fst txid, snd txid) et False e = Done e1 (Some (hdr, cipher))" by blast
  then have enc: "encrypt c priv pub txid et False e = Done e1 (Some (hdr, cipher))"
    by (simp add: c_def node_encryptor_def)
  from uses_key_lookup [OF assms(3)] obtain e2 sec where sec: "get_secret_for_version (snd txid) False e = Done e2 (Some sec)"
    "raw_key sec = k" by blast
  have r: "length hdr = gcm_header_length \<and> length cipher = length priv
      \<and> encryptor_decrypt dec cipher pub hdr (snd txid) False eb = Done eb' (Some priv, header_term (fst txid) et)"
    if "get_secret_for_version (snd txid) False eb = Done eb' (Some s')" "raw_key s' = k" for eb eb' s'
    using encrypted_entry [OF assms(2) enc' sec(1) that(1)] that(2) sec(2) by simp
  have len: "length hdr = header_length c" "length cipher = length priv"
    using r [OF sec] by (simp_all add: c_def node_encryptor_def)
  have data: "serialise_domains (Some c) txid et hflags False pub priv e = Done e1 (entry_layout hflags hdr pub cipher)"
    by (rule serialise_domains_layout [OF enc len])
  have "\<exists>eb'. decrypt c cipher pub hdr (snd txid) False eb = Done eb' (Some priv, fst txid)"
    if "uses_key (snd txid) eb k" for eb
  proof -
    from uses_key_lookup [OF that] obtain eb' s' where "get_secret_for_version (snd txid) False eb = Done eb' (Some s')"
      "raw_key s' = k" by blast
    from r [OF this] show ?thesis using assms(5) by (simp add: c_def node_encryptor_def header_term_def)
  qed
  then have "readable_entry c k txid pub priv (entry_layout hflags hdr pub cipher)"
    using len assms(6) by (auto simp: readable_entry_def)
  moreover have "length (entry_layout hflags hdr pub cipher) = 44 + length pub + length priv"
    using r [OF sec] by (simp add: entry_layout_def gcm_header_length_def header_bytes_def)
  ultimately show ?thesis using data by blast
qed

lemma tx_serialise_entry:
  fixes hmac enc dec
  defines "c \<equiv> node_encryptor enc dec hmac"
  assumes "gcm_ok enc dec" and "uses_key (tx_version tx) e k" and "commit_view tx < 2 ^ 31" and "any_writes (all_changes tx)"
    and "\<forall>(n, a, ch)\<in>set (all_changes tx). changes_have_writes ch \<longrightarrow> map_name (heap st a) = n"
    and "has_encryptor st" and "tx_committed tx" and "tx_success tx" and "is_set claims"
  shows "\<exists>e' tx' data ced evidence. tx_serialise sha256 c claims False (st, e, tx) = Done (st, e', tx') (data, ced, evidence)
    \<and> ced = sha256 (string_bytes evidence)
    \<and> readable_entry c k (commit_view tx, tx_version tx)
      (public_part (commit_view tx, tx_version tx) ced claims st (all_changes tx)) (private_part st (all_changes tx)) data
    \<and> length data = 44 + length (public_part (commit_view tx, tx_version tx) ced claims st (all_changes tx))
        + length (private_part st (all_changes tx))"
proof -
  let ?txid = "(commit_view tx, tx_version tx)" and ?cs = "all_changes tx" and ?et = WriteSetWithCommitEvidenceAndClaims
  have w: "list_ex (\<lambda>(name, a, c). changes_have_writes c) ?cs" using assms(5) by (auto simp: any_writes_def list_ex_iff)
  from uses_key_lookup [OF assms(3)] obtain e1 sec where sec: "get_secret_for_version (tx_version tx) False e = Done e1 (Some sec)"
    "uses_key (tx_version tx) e1 k" by blast
  then obtain nonce where nonce: "commit_nonce c ?txid e = Done e1 nonce"
    by (simp add: c_def node_encryptor_def get_commit_nonce_def)
  let ?evidence = "commit_evidence_str ?txid nonce"
  let ?ced = "sha256 (string_bytes ?evidence)"
  let ?ser = "new_serialiser ?txid ?et ?ced claims"
  have names: "\<forall>(n, a, c)\<in>set (sent dom st ?cs). map_name (heap st a) = n" for dom
    using assms(6) by (auto simp: sent_def)
  from serialise_domain_bytes [OF assms(7) names] obtain cd where pub: "serialise_domain PUBLIC False st ?cs ?ser =
      Inr ((add_to PUBLIC (items_bytes (sent_items PUBLIC st ?cs)) ?ser)\<lparr>current_domain := cd\<rparr>)"
    unfolding sent_items_def by blast
  let ?ser1 = "(add_to PUBLIC (items_bytes (sent_items PUBLIC st ?cs)) ?ser)\<lparr>current_domain := cd\<rparr>"
  from serialise_domain_bytes [OF assms(7) names, of PRIVATE ?ser1]
  obtain cd' where priv: "serialise_domain PRIVATE False st ?cs ?ser1
      = Inr ((add_to PRIVATE (items_bytes (sent_items PRIVATE st ?cs)) ?ser1)\<lparr>current_domain := cd'\<rparr>)"
    unfolding sent_items_def by blast
  let ?ser2 = "(add_to PRIVATE (items_bytes (sent_items PRIVATE st ?cs)) ?ser1)\<lparr>current_domain := cd'\<rparr>"
  define tx' where "tx' = (if tx_flag_enabled LEDGER_CHUNK_BEFORE_THIS_TX tx
      then tx\<lparr>tx_entry_flags := tx_entry_flags tx OR FORCE_LEDGER_CHUNK_BEFORE\<rparr> else tx)"
  have cs': "all_changes tx' = ?cs" by (simp add: tx'_def)
  have "unat (tx_entry_flags tx') < 256" using unsigned_less [of "tx_entry_flags tx'"] by simp
  then obtain e' data where raw: "serialise_domains (Some c) ?txid ?et (unat (tx_entry_flags tx')) False
      (public_part ?txid ?ced claims st ?cs) (private_part st ?cs) e1 = Done e' data"
    "readable_entry c k ?txid (public_part ?txid ?ced claims st ?cs) (private_part st ?cs) data"
    "length data = 44 + length (public_part ?txid ?ced claims st ?cs) + length (private_part st ?cs)"
    using serialise_domains_readable [OF assms(2), of ?txid e1 k ?et _ hmac] sec(2) assms(4) unfolding c_def by fastforce
  have "get_raw_data (Some c) ?txid ?et (unat (tx_entry_flags tx')) False ?ser2 e1 = Done e' data"
    using raw(1) by (simp add: get_raw_data_def new_serialiser_bytes public_part_def private_part_def)
  then have "tx_serialise sha256 c claims False (st, e, tx) = Done (st, e', tx') (data, ?ced, ?evidence)"
    using assms(7-10) w nonce pub priv cs'
    by (simp add: tx_serialise_def Let_def tx'_def [symmetric])
  with raw(2,3) show ?thesis by blast
qed

section \<open>The loop over the maps of an entry\<close>

text \<open>What is left of an entry: the items of the public and of the private part.\<close>

definition left :: "deserialiser \<Rightarrow> item list \<Rightarrow> item list \<Rightarrow> bool" where
  "left d pubs privs \<longleftrightarrow> good (public_reader d) \<and> good (private_reader d)
     \<and> unread (public_reader d) = items_bytes pubs \<and> unread (private_reader d) = items_bytes privs
     \<and> (on_private d \<longrightarrow> pubs = [])"

lemma eos_unread: "good r \<Longrightarrow> is_eos r \<longleftrightarrow> unread r = []"
  by (auto simp: good_def is_eos_def unread_def)

lemma item_bytes_nonempty [simp]: "item_bytes x \<noteq> []"
proof -
  have "8 \<le> length (item_bytes x)" by (simp add: item_bytes_def entry_bytes8_def)
  then show ?thesis by auto
qed

definition item_ok :: "item \<Rightarrow> bool" where
  "item_ok x \<longleftrightarrow> sorted_wrt (<) (al_keys (snd x)) \<and> length (snd x) < 2 ^ 64"

lemma on_reader_parses:
  assumes "parses f bs v" and "good (current_reader d)" and "unread (current_reader d) = bs @ xs"
  shows "\<exists>r'. on_reader f d = Done (set_reader r' d) v \<and> good r' \<and> unread r' = xs"
  using assms unfolding parses_def on_reader_def by fastforce

lemma set_reader_simps [simp]:
  "current_reader (set_reader r d) = r" "set_reader r (set_reader r' d) = set_reader r d"
  "on_private (set_reader r d) = on_private d" "d_header (set_reader r d) = d_header d"
  "on_private d \<Longrightarrow> public_reader (set_reader r d) = public_reader d"
  "on_private d \<Longrightarrow> private_reader (set_reader r d) = r"
  "\<not> on_private d \<Longrightarrow> public_reader (set_reader r d) = r"
  "\<not> on_private d \<Longrightarrow> private_reader (set_reader r d) = private_reader d"
  by (simp_all add: current_reader_def set_reader_def)

text \<open>The next item, if there is one.\<close>

lemma parses_some_name: "parses (\<lambda>r. bindv (read_name r) (\<lambda>r s. Done r (Some s))) (entry_bytes8 (string_bytes n)) (Some n)"
  using parses_bindv [OF parses_name parses_return] by simp

lemma start_map_end:
  assumes "left d [] []"
  shows "start_map_in d = Done d None" and "d_end d"
  using assms by (auto simp: start_map_in_def left_def current_reader_def eos_unread d_end_def)

lemma start_map_reader:
  assumes "good (current_reader d)" and "unread (current_reader d) = item_bytes (n, w) @ bs"
  shows "\<exists>r. start_map_in d = Done (set_reader r d) (Some n) \<and> good r \<and> unread r = changes_bytes w @ bs"
proof -
  have u: "unread (current_reader d) = entry_bytes8 (string_bytes n) @ changes_bytes w @ bs"
    using assms(2) by (simp add: item_bytes_def)
  have "\<not> is_eos (current_reader d)" using assms by (simp add: eos_unread)
  then show ?thesis using on_reader_parses [OF parses_some_name assms(1) u] by (simp add: start_map_in_def)
qed

lemma start_map_next:
  assumes "left d pubs privs" and "pubs @ privs = (n, w) # xs"
  shows "\<exists>d' bs. start_map_in d = Done d' (Some n) \<and> good (current_reader d')
    \<and> unread (current_reader d') = changes_bytes w @ bs
    \<and> (\<forall>r. good r \<and> unread r = bs \<longrightarrow> (\<exists>pubs' privs'. left (set_reader r d') pubs' privs' \<and> pubs' @ privs' = xs))"
proof (cases pubs)
  case (Cons p ps)
  then have p: "p = (n, w)" "xs = ps @ privs" and np: "\<not> on_private d" using assms by (auto simp: left_def)
  have "good (current_reader d)" "unread (current_reader d) = item_bytes (n, w) @ items_bytes ps"
    using assms(1) Cons np by (simp_all add: left_def current_reader_def p)
  from start_map_reader [OF this] obtain r where r: "start_map_in d = Done (set_reader r d) (Some n)" "good r"
    "unread r = changes_bytes w @ items_bytes ps" by blast
  have "left (set_reader r' (set_reader r d)) ps privs" if "good r'" "unread r' = items_bytes ps" for r'
    using assms(1) np that by (simp add: left_def)
  with r p show ?thesis by (intro exI [of _ "set_reader r d"] exI [of _ "items_bytes ps"]) auto
next
  case Nil
  then have p: "privs = (n, w) # xs" using assms(2) by simp
  let ?d = "d\<lparr>on_private := True\<rparr>"
  have cur: "good (current_reader ?d)" "unread (current_reader ?d) = item_bytes (n, w) @ items_bytes xs"
    using assms(1) by (simp_all add: left_def current_reader_def p)
  have "start_map_in d = start_map_in ?d"
    using assms(1) Nil p by (cases d) (auto simp: start_map_in_def left_def current_reader_def eos_unread)
  with start_map_reader [OF cur] obtain r where r: "start_map_in d = Done (set_reader r ?d) (Some n)" "good r"
    "unread r = changes_bytes w @ items_bytes xs" by auto
  have "left (set_reader r' (set_reader r ?d)) [] xs" if "good r'" "unread r' = items_bytes xs" for r'
    using assms(1) Nil that by (simp add: left_def)
  with r show ?thesis by (intro exI [of _ "set_reader r ?d"] exI [of _ "items_bytes xs"]) fastforce
qed

text \<open>One round of the loop, and the whole of it.\<close>

definition fill_one ::
  "Version \<Rightarrow> item \<Rightarrow> ('p kv_store \<times> MapCollection) \<times> OrderedChanges \<Rightarrow> ('p kv_store \<times> MapCollection) \<times> OrderedChanges"
where
  "fill_one v x y =
     (let (s, a) = find_or_create v (fst x) (fst y)
      in (s, upd_sorted (fst x) (a, Normal ((the (create_change_set v (heap (fst s) a)))\<lparr>writes := snd x\<rparr>)) (snd y)))"

definition can_fill :: "Version \<Rightarrow> string \<Rightarrow> 'p kv_store \<times> MapCollection \<Rightarrow> bool" where
  "can_fill v n s \<longleftrightarrow> (case find_or_create v n s of (s', a) \<Rightarrow> create_change_set v (heap (fst s') a) \<noteq> None)"

fun can_fill_all :: "Version \<Rightarrow> item list \<Rightarrow> ('p kv_store \<times> MapCollection) \<times> OrderedChanges \<Rightarrow> bool" where
  "can_fill_all v [] y \<longleftrightarrow> True"
| "can_fill_all v (x # xs) y \<longleftrightarrow> item_ok x \<and> map_of (snd y) (fst x) = None \<and> can_fill v (fst x) (fst y)
     \<and> can_fill_all v xs (fill_one v x y)"

lemma fill_loop_items:
  assumes "left d pubs privs" and "pubs @ privs = xs" and "can_fill_all v xs (s, changes)" and "length xs < fuel"
  shows "\<exists>d'. fill_loop fuel v (s, d, changes) =
      Done (fst (fold (fill_one v) xs (s, changes)), d', snd (fold (fill_one v) xs (s, changes))) True \<and> d_end d'"
  using assms
proof (induction xs arbitrary: fuel s d changes pubs privs)
  case Nil
  then obtain f where "fuel = Suc f" by (cases fuel) auto
  with Nil start_map_end [of d] show ?case by auto
next
  case (Cons x xs)
  obtain n w where x: "x = (n, w)" by (cases x)
  obtain f where f: "fuel = Suc f" "length xs < f" using Cons.prems(4) by (cases fuel) auto
  obtain s' a where fc: "find_or_create v n s = (s', a)" by (cases "find_or_create v n s")
  have ok: "sorted_wrt (<) (al_keys w)" "length w < 2 ^ 64" "map_of changes n = None"
    using Cons.prems(3) by (simp_all add: x item_ok_def)
  obtain cs where cs: "create_change_set v (heap (fst s') a) = Some cs"
    using Cons.prems(3) by (auto simp: x can_fill_def fc)
  have one: "fill_one v x (s, changes) = (s', upd_sorted n (a, Normal (cs\<lparr>writes := w\<rparr>)) changes)"
    by (simp add: fill_one_def x fc cs)
  from start_map_next [OF Cons.prems(1)] Cons.prems(2) x obtain d' bs where d': "start_map_in d = Done d' (Some n)"
    "good (current_reader d')" "unread (current_reader d') = changes_bytes w @ bs"
    "\<And>r. good r \<Longrightarrow> unread r = bs \<Longrightarrow> \<exists>pubs' privs'. left (set_reader r d') pubs' privs' \<and> pubs' @ privs' = xs" by blast
  from on_reader_parses [OF parses_changes [OF ok(1,2) cs] d'(2,3)] obtain r where
    r: "on_reader (deserialise_changes (heap (fst s') a) v) d' = Done (set_reader r d') (cs\<lparr>writes := w\<rparr>)"
    "good r" "unread r = bs" by blast
  from d'(4) [OF r(2,3)] obtain pubs' privs' where l: "left (set_reader r d') pubs' privs'" "pubs' @ privs' = xs" by blast
  have "fill_loop fuel v (s, d, changes) = fill_loop f v (s', set_reader r d', upd_sorted n (a, Normal (cs\<lparr>writes := w\<rparr>)) changes)"
    using d'(1) r(1) ok(3) by (simp add: f fc)
  moreover have "can_fill_all v xs (s', upd_sorted n (a, Normal (cs\<lparr>writes := w\<rparr>)) changes)"
    using Cons.prems(3) one by simp
  ultimately show ?case using Cons.IH [OF l _ f(2)] one by auto
qed

section \<open>The change sets of an entry\<close>

lemma create_current:
  assumes "hist_ok (hist m)" and "lc_version (get_tail m) \<le> v"
  obtains cs where "create_change_set v m = Some cs" and "cs_state cs = lc_state (get_tail m)"
    and "start_version cs = lc_version (get_tail m)" and "cs_rollback_counter cs = rollback_counter (roll m)"
proof -
  have "hist m \<noteq> []" using assms(1) by (simp add: hist_ok_def)
  moreover have "fst (last (hist m)) \<le> v" using assms(2) tail_version [OF assms(1)] by simp
  ultimately have "map_option strip (commit_at v m) = Some (last (hist m))" by (simp add: commit_at_hist state_at_last)
  then obtain c where c: "commit_at v m = Some c" "strip c = last (hist m)" by auto
  have "lc_version c = lc_version (get_tail m)" "lc_state c = lc_state (get_tail m)"
    using tail_version [OF assms(1)] tail_state [OF assms(1)] by (simp_all add: c(2) [symmetric] strip_def)
  then show ?thesis using that c(1) by (simp add: create_change_set_def make_change_set_def)
qed

text \<open>The state of the loop after some items.\<close>

definition filled :: "'p kv_store \<times> MapCollection \<Rightarrow> OrderedChanges \<Rightarrow> bool" where
  "filled s changes \<longleftrightarrow> (case s of (st, new) \<Rightarrow> maps_ok (st_version st) st
     \<and> sorted_wrt (<) (al_keys new) \<and> (\<forall>(n, a)\<in>set new. fresh st (n, a) \<and> map_of (maps st) n = None)
     \<and> sorted_wrt (<) (al_keys changes)
     \<and> (\<forall>(n, a, c)\<in>set changes. owns st new n a
          \<and> (\<exists>k. c = Normal k \<and> valid (heap st a) k \<and> undisturbed st a k)))"

lemma filled_owner:
  assumes "filled (st, new) changes" and "owns st new n a"
  shows "map_name (heap st a) = n" and "a < next_addr st" and "hist_ok (hist (heap st a))"
    and "lc_version (get_tail (heap st a)) \<le> st_version st"
proof -
  have "map_name (heap st a) = n \<and> a < next_addr st \<and> hist_ok (hist (heap st a)) \<and> lc_version (get_tail (heap st a)) \<le> st_version st"
  proof (cases "map_of new n = Some a")
    case True
    then have f: "fresh st (n, a)" using assms(1) by (auto simp: filled_def dest!: map_of_SomeD)
    then have h: "hist_ok (hist (heap st a))" by (intro hist_ok_fresh) (simp add: fresh_def)
    then show ?thesis using f tail_version [OF h] by (simp add: fresh_def)
  next
    case False
    then have "map_option snd (map_of (maps st) n) = Some a" using assms(2) by (simp add: owns_def)
    moreover have "maps_ok (st_version st) st" using assms(1) by (simp add: filled_def)
    ultimately obtain c where "map_ok (st_version st) st (n, c, a)" using mapped_ok by blast
    then show ?thesis by (simp add: map_ok_def)
  qed
  then show "map_name (heap st a) = n" and "a < next_addr st" and "hist_ok (hist (heap st a))"
    and "lc_version (get_tail (heap st a)) \<le> st_version st" by auto
qed

lemma filled_ok:
  assumes "filled (st, new) changes"
  shows "changes_ok st new changes" and "new_absent st new" and "prepare_all False changes st"
proof -
  have f: "sorted_wrt (<) (al_keys new)" "\<forall>(n, a)\<in>set new. fresh st (n, a) \<and> map_of (maps st) n = None"
    "sorted_wrt (<) (al_keys changes)"
    using assms by (simp_all add: filled_def)
  have f4: "owns st new n a" "\<exists>k. c = Normal k \<and> valid (heap st a) k \<and> undisturbed st a k" if "(n, a, c) \<in> set changes" for n a c
    using assms that by (auto simp: filled_def)
  show na: "new_absent st new" using f(2) by (auto simp: new_absent_def)
  have "change_ok st new x" if "x \<in> set changes" for x
  proof -
    obtain n a c where x: "x = (n, a, c)" by (cases x)
    with that f4 [of n a c] obtain k where "owns st new n a" "c = Normal k" "valid (heap st a) k" by blast
    then show ?thesis using new_absentD [OF na, of n] by (cases "map_of new n") (auto simp: change_ok_def owns_def x)
  qed
  then have lc: "list_all (change_ok st new) changes" by (simp add: list_all_iff)
  have lf: "list_all (fresh st) new" using f(2) by (auto simp: list_all_iff)
  have dn: "distinct (al_keys new)" using f(1) by (simp add: strict_sorted_iff)
  have "\<forall>(n, a)\<in>set new. map_name (heap st a) = n" using f(2) by (auto simp: fresh_def)
  then have ds: "distinct (map snd new)"
    using named_distinct [OF f(1), of "\<lambda>a. map_name (heap st a)" "\<lambda>a. a"] by simp
  have "\<forall>(n, x)\<in>set changes. map_name (heap st (fst x)) = n"
  proof clarify
    fix n a c assume "(n, a, c) \<in> set changes"
    then have "owns st new n a" by (rule f4)
    then show "map_name (heap st (fst (a, c))) = n" using filled_owner(1) [OF assms] by simp
  qed
  then have "distinct (map (\<lambda>x. fst (snd x)) changes)"
    by (rule named_distinct [OF f(3), of "\<lambda>a. map_name (heap st a)" fst])
  then show c: "changes_ok st new changes" using f(3) lc lf dn ds by (simp add: changes_ok_def)
  show "prepare_all False changes st"
    using f4(2) by (intro undisturbed_prepared [OF c]) fastforce
qed

lemma filled_add:
  assumes "filled (st, new) changes" and "owns st new n a" and "map_of changes n = None"
    and "valid (heap st a) k" and "undisturbed st a k"
  shows "filled (st, new) (upd_sorted n (a, Normal k) changes)"
  using assms by (auto simp: filled_def sorted_upd_sorted set_upd_sorted)

lemma filled_alloc:
  assumes "filled (st, new) changes" and "map_of (maps st) n = None" and "map_of new n = None" and "map_of changes n = None"
  shows "filled (fst (alloc_map n st), upd_sorted n (next_addr st) new) changes"
proof -
  let ?st = "fst (alloc_map n st)" and ?new = "upd_sorted n (next_addr st) new"
  have st: "maps ?st = maps st" "next_addr ?st = next_addr st + 1" "st_version ?st = st_version st"
    "heap ?st (next_addr st) = new_map n (get_security_domain n) (is_map_replicated n st)"
    and old: "\<And>a. a < next_addr st \<Longrightarrow> heap ?st a = heap st a"
    by (simp_all add: alloc_map_def)
  have mo: "map_ok w ?st x" if "map_ok w st x" for w x
    using that old by (cases x) (auto simp: map_ok_def st)
  have ad: "a < next_addr st" if "a \<in> set (addrs st)" for a
    using that assms(1) by (force simp: addrs_def filled_def maps_ok_def list_all_iff map_ok_def)
  have "maps_ok (st_version ?st) ?st"
    using assms(1) mo by (auto simp: filled_def maps_ok_def st list_all_iff)
  moreover have fr: "fresh ?st (m, a)" if "fresh st (m, a)" for m a
    using that old by (auto simp: fresh_def st addrs_def)
  moreover have "fresh ?st (n, next_addr st)"
    using ad by (auto simp: fresh_def st hist_new_map addrs_def) (simp add: new_map_def)
  moreover have "owns ?st ?new m a \<and> (\<exists>k. c = Normal k \<and> valid (heap ?st a) k \<and> undisturbed ?st a k)"
    if m: "(m, a, c) \<in> set changes" for m a c
  proof -
    have o: "owns st new m a" "\<exists>k. c = Normal k \<and> valid (heap st a) k \<and> undisturbed st a k"
      using assms(1) m by (auto simp: filled_def)
    have "m \<noteq> n" using m assms(4) by (auto simp: map_of_eq_None_iff image_iff)
    then show ?thesis
      using o old [OF filled_owner(2) [OF assms(1) o(1)]] by (auto simp: owns_def st map_of_upd_sorted undisturbed_def)
  qed
  ultimately show ?thesis
    using assms(1,2,3) unfolding filled_def
    by (auto simp: sorted_upd_sorted set_upd_sorted st)
qed

text \<open>The map of an item, after it has been looked up or created.\<close>

lemma find_or_create_filled:
  assumes "filled (st, new) changes" and "st_version st < v" and "map_of new n = None" and "map_of changes n = None"
  obtains st' new' a where "find_or_create v n (st, new) = ((st', new'), a)" and "filled (st', new') changes"
    and "owns st' new' n a" and "allocated st st'" and "set (al_keys new') \<subseteq> insert n (set (al_keys new))"
proof (cases "map_of (maps st) n")
  case None
  then have "find_or_create v n (st, new) = ((fst (alloc_map n st), upd_sorted n (next_addr st) new), next_addr st)"
    by (simp add: find_or_create_def get_map_internal_def alloc_map_def)
  moreover have "owns (fst (alloc_map n st)) (upd_sorted n (next_addr st) new) n (next_addr st)"
    by (simp add: owns_def map_of_upd_sorted)
  ultimately show ?thesis
    using that filled_alloc [OF assms(1) None assms(3,4)] alloc_allocated [of st n] by (simp add: set_keys_upd_sorted)
next
  case (Some x)
  then obtain c a where x: "map_of (maps st) n = Some (c, a)" by (cases x) auto
  have "list_all (map_ok (st_version st) st) (maps st)" using assms(1) by (simp add: filled_def maps_ok_def)
  then have "map_ok (st_version st) st (n, c, a)" using map_of_SomeD [OF x] by (simp add: list_all_iff)
  then have "find_or_create v n (st, new) = ((st, new), a)"
    using x assms(2) by (simp add: find_or_create_def get_map_internal_def map_ok_def)
  moreover have "owns st new n a" using x by (simp add: owns_def)
  ultimately show ?thesis using that assms(1) allocated_refl [of st] by blast
qed

lemma filled_step:
  assumes "filled (st, new) changes" and "st_version st < v" and "map_of new n = None" and "map_of changes n = None"
    and "item_ok (n, w)"
  obtains st' new' a k where "fill_one v (n, w) ((st, new), changes) = ((st', new'), upd_sorted n (a, Normal k) changes)"
    and "can_fill v n (st, new)" and "writes k = w" and "filled (st', new') (upd_sorted n (a, Normal k) changes)"
    and "allocated st st'" and "set (al_keys new') \<subseteq> insert n (set (al_keys new))"
proof -
  from find_or_create_filled [OF assms(1-4)] obtain st' new' a where f: "find_or_create v n (st, new) = ((st', new'), a)"
    "filled (st', new') changes" "owns st' new' n a" "allocated st st'" "set (al_keys new') \<subseteq> insert n (set (al_keys new))" .
  note o = filled_owner [OF f(2,3)]
  have "lc_version (get_tail (heap st' a)) \<le> v" using o(4) assms(2) allocated_fields(2) [OF f(4)] by simp
  from create_current [OF o(3) this] obtain cs where cs: "create_change_set v (heap st' a) = Some cs"
    "cs_state cs = lc_state (get_tail (heap st' a))" "start_version cs = lc_version (get_tail (heap st' a))"
    "cs_rollback_counter cs = rollback_counter (roll (heap st' a))" .
  let ?k = "cs\<lparr>writes := w\<rparr>"
  have "valid (heap st' a) cs" by (rule valid_create [OF o(3) cs(1)])
  then have "valid (heap st' a) ?k" using assms(5) by (simp add: valid_def cs_ok_def reads_ok_def item_ok_def)
  moreover have "undisturbed st' a ?k" using cs by (simp add: undisturbed_def)
  ultimately have "filled (st', new') (upd_sorted n (a, Normal ?k) changes)"
    using filled_add [OF f(2,3) assms(4)] by blast
  then show ?thesis
    using that [of st' new' a ?k] f cs(1) by (simp add: fill_one_def can_fill_def)
qed

lemma writes_of_upd: "writes_of (upd_sorted n (a, Normal k) cs) m = (if m = n then writes k else writes_of cs m)"
  by (simp add: writes_of_def map_of_upd_sorted)

lemma filled_items:
  assumes "filled (st, new) changes" and "st_version st < v" and "set (al_keys new) \<subseteq> set (al_keys changes)"
    and "\<forall>x\<in>set xs. item_ok x" and "distinct (map fst xs)" and "fst ` set xs \<inter> set (al_keys changes) = {}"
  shows "can_fill_all v xs ((st, new), changes) \<and> (\<exists>st' new' changes'. fold (fill_one v) xs ((st, new), changes) = ((st', new'), changes')
      \<and> filled (st', new') changes' \<and> allocated st st'
      \<and> set (al_keys changes') = set (al_keys changes) \<union> fst ` set xs
      \<and> (\<forall>n. writes_of changes' n = (case map_of xs n of None \<Rightarrow> writes_of changes n | Some w \<Rightarrow> w)))"
  using assms
proof (induction xs arbitrary: st new changes)
  case Nil
  then show ?case by (simp add: allocated_refl)
next
  case (Cons x xs)
  obtain n w where x: "x = (n, w)" by (cases x)
  have nc: "map_of changes n = None" "map_of new n = None"
    using Cons.prems(3,6) by (auto simp: x map_of_None_iff_keys)
  have "item_ok (n, w)" using Cons.prems(4) by (simp add: x)
  from filled_step [OF Cons.prems(1,2) nc(2,1) this] obtain st' new' a k where
    s: "fill_one v (n, w) ((st, new), changes) = ((st', new'), upd_sorted n (a, Normal k) changes)"
    "can_fill v n (st, new)" "writes k = w" "filled (st', new') (upd_sorted n (a, Normal k) changes)"
    "allocated st st'" "set (al_keys new') \<subseteq> insert n (set (al_keys new))" .
  let ?c = "upd_sorted n (a, Normal k) changes"
  have nx: "map_of xs n = None" using Cons.prems(5) by (simp add: x map_of_eq_None_iff)
  have "st_version st' < v" using Cons.prems(2) allocated_fields(2) [OF s(5)] by simp
  moreover have "set (al_keys new') \<subseteq> set (al_keys ?c)" using s(6) Cons.prems(3) by (auto simp: set_keys_upd_sorted)
  moreover have "fst ` set xs \<inter> set (al_keys ?c) = {}"
    using Cons.prems(5,6) by (auto simp: x set_keys_upd_sorted)
  ultimately have IH: "can_fill_all v xs ((st', new'), ?c) \<and> (\<exists>st'' new'' changes'. fold (fill_one v) xs ((st', new'), ?c) = ((st'', new''), changes')
      \<and> filled (st'', new'') changes' \<and> allocated st' st''
      \<and> set (al_keys changes') = set (al_keys ?c) \<union> fst ` set xs
      \<and> (\<forall>n. writes_of changes' n = (case map_of xs n of None \<Rightarrow> writes_of ?c n | Some w \<Rightarrow> w)))"
    using Cons.IH [OF s(4)] Cons.prems(4,5) by simp
  then obtain st'' new'' changes' where r: "fold (fill_one v) xs ((st', new'), ?c) = ((st'', new''), changes')"
      "filled (st'', new'') changes'" "allocated st' st''" "set (al_keys changes') = set (al_keys ?c) \<union> fst ` set xs"
      "\<And>n. writes_of changes' n = (case map_of xs n of None \<Rightarrow> writes_of ?c n | Some w \<Rightarrow> w)" by blast
  have "can_fill_all v (x # xs) ((st, new), changes)"
    using IH s(1,2) Cons.prems(4) nc by (simp add: x)
  moreover have "writes_of changes' m = (case map_of (x # xs) m of None \<Rightarrow> writes_of changes m | Some w \<Rightarrow> w)" for m
    using r(5) [of m] nx s(3) by (auto simp: x writes_of_upd split: option.split)
  moreover have "set (al_keys changes') = set (al_keys changes) \<union> fst ` set (x # xs)"
    using r(4) by (auto simp: x set_keys_upd_sorted)
  ultimately show ?case
    using r(1,2) allocated_trans [OF s(5) r(3)] s(1) by (simp add: x)
qed

section \<open>Applying an entry\<close>

lemma rollback_to_current:
  assumes "compacted st \<le> st_version st"
  shows "\<exists>ev. store_rollback (term_of_last_version st, st_version st) (term_of_next_version st) st = ok (st\<lparr>events := ev\<rparr>)"
  using assms by (cases st) (auto simp: store_rollback_def st_emit_def Let_def)

text \<open>What an entry writes, by the name of the map.\<close>

definition written_by :: "item list \<Rightarrow> string \<Rightarrow> Write" where
  "written_by xs n = (case map_of xs n of None \<Rightarrow> [] | Some w \<Rightarrow> w)"

lemma commit_filled:
  assumes "store_ok st" and "filled (st, new) changes" and "st_version st < v" and "v < 2 ^ 63"
  shows "\<exists>st' hooks. commit_deserialised changes v t new st = Done st' (True, hooks) \<and> store_ok st'
    \<and> st_version st' = v \<and> term_of_last_version st' = t
    \<and> (\<forall>n. contents st' n = put_writes (writes_of changes n) (contents st n))"
proof -
  let ?res = "\<lambda>_ st. (st, v, (v + 2 ^ 64 - 1) mod 2 ^ 64)"
  note ok = filled_ok [OF assms(2)]
  have g: "gives ?res v st (new \<noteq> []) st" by (simp add: gives_def)
  have "\<exists>st1 r hooks. apply_changes changes ?res new None False st = Done st1 (Some r, hooks) \<and> maps_ok v st1
    \<and> compacted st1 = compacted st \<and> (\<forall>n. contents st1 n = put_writes (writes_of changes n) (contents st n))"
  proof (cases rule: apply_changes_cases [OF assms(1) ok(1) g assms(3,4)])
    case 1
    then show ?thesis using ok by blast
  next
    case 2
    have "maps_ok v st" using assms(1,3) by (auto simp: store_ok_def maps_ok_def list_all_iff map_ok_def)
    then show ?thesis using 2 no_writes_of [of changes] by simp
  next
    case (3 st1)
    then show ?thesis using same_but_mapsD [OF 3(5)] by auto
  qed
  then obtain st1 r hooks where a: "apply_changes changes ?res new None False st = Done st1 (Some r, hooks)" "maps_ok v st1"
    "compacted st1 = compacted st" "\<forall>n. contents st1 n = put_writes (writes_of changes n) (contents st n)" by blast
  let ?st = "st1\<lparr>st_version := v, last_replicated := v, term_of_last_version := t\<rparr>"
  have m: "map_ok w ?st = map_ok w st1" for w by (rule ext) (simp add: map_ok_def)
  have "store_ok ?st" using a(2,3) assms(1,3,4) by (simp add: store_ok_def maps_ok_def m)
  moreover have "contents ?st = contents st1" by (rule contents_cong) simp_all
  ultimately show ?thesis using a by (simp add: commit_deserialised_def)
qed

lemma classify_not_signature:
  assumes "map_of (w_changes w) SIGNATURES = None"
  shows "\<exists>ev r. classify_entry verify (st, e, w) = ((st\<lparr>events := ev\<rparr>, e, w), r) \<and> r \<noteq> FAIL"
  using assms by (cases st) (auto simp: classify_entry_def Let_def st_emit_def split: prod.splits)

lemma fill_maps_items:
  fixes pubs privs :: "item list"
  defines "xs \<equiv> pubs @ privs"
  assumes "store_ok st" and "st_version st + 1 = v" and "v < 2 ^ 63" and "has_encryptor st" and "\<not> is_historical st"
    and "readable_entry c k (t, v) (public_header_bytes (t, v) et ced claims @ items_bytes pubs) (items_bytes privs) data"
    and "length data < 2 ^ 48" and "length ced = 32" and "length (digest claims) = 32"
    and "uses_key v e k" and "\<forall>x\<in>set xs. item_ok x" and "distinct (map fst xs)" and "length xs < fuel"
  shows "\<exists>st' e' w. fill_maps c fuel True (st, e, new_wrapper data False expected some) = Done (st', e', w) True
    \<and> filled (st', w_new_maps w) (w_changes w) \<and> store_ok st' \<and> st_version st' = st_version st
    \<and> contents st' = contents st \<and> w_version w = v \<and> w_term w = t \<and> w_expected_txid w = expected
    \<and> set (al_keys (w_changes w)) = fst ` set xs \<and> (\<forall>n. writes_of (w_changes w) n = written_by xs n)"
proof -
  let ?pub = "public_header_bytes (t, v) et ced claims @ items_bytes pubs" and ?priv = "items_bytes privs"
  from assms(7) obtain hf hdr cipher where data: "data = entry_layout hf hdr ?pub cipher" and hf: "hf < 256"
    and lh: "length hdr = header_length c" and lc: "length cipher = length ?priv"
    and dec: "\<And>eb. uses_key v eb k \<Longrightarrow> \<exists>eb'. decrypt c cipher ?pub hdr v False eb = Done eb' (Some ?priv, t)"
    by (auto simp: readable_entry_def)
  from dec [OF assms(11)] obtain e' where e': "decrypt c cipher ?pub hdr v False e = Done e' (Some ?priv, t)" ..
  have len: "length hdr + 8 + length ?pub + length cipher < 2 ^ 48"
    using assms(8) by (simp add: data entry_layout_def)
  have v64: "snd (t, v) < 2 ^ 64" using assms(4) by simp
  have dec': "decrypt c cipher ?pub hdr (snd (t, v)) False e = Done e' (Some ?priv, t)" using e' by simp
  from init_layout [OF hf len lh refl v64 assms(9,10) dec' lc [symmetric]]
  obtain d where d: "deserialiser_init (Some c) None False data e = Done e' (Some d, Some t)"
    "left d pubs privs" "d_header d = header_of (t, v) et ced claims"
    by (auto simp: data left_def)
  have cv: "compacted st \<le> st_version st" using assms(2) by (simp add: store_ok_def)
  from rollback_to_current [OF cv] obtain ev where rb: "store_rollback (term_of_last_version st, st_version st)
      (term_of_next_version st) st = ok (st\<lparr>events := ev\<rparr>)" ..
  let ?st = "st\<lparr>events := ev\<rparr>"
  have sok: "store_ok ?st" using assms(2) store_ok_cong [of ?st st] by simp
  then have "filled (?st, []) []" by (simp add: filled_def store_ok_def)
  then have items: "can_fill_all v xs ((?st, []), []) \<and> (\<exists>st' new' changes'. fold (fill_one v) xs ((?st, []), []) = ((st', new'), changes')
      \<and> filled (st', new') changes' \<and> allocated ?st st' \<and> set (al_keys changes') = set (al_keys ([] :: OrderedChanges)) \<union> fst ` set xs
      \<and> (\<forall>n. writes_of changes' n = (case map_of xs n of None \<Rightarrow> writes_of [] n | Some w \<Rightarrow> w)))"
    using assms(3,12,13) by (intro filled_items) simp_all
  moreover have "(case map_of xs n of None \<Rightarrow> writes_of [] n | Some w \<Rightarrow> w) = written_by xs n" for n
    by (simp add: written_by_def writes_of_def split: option.split)
  ultimately obtain st' new' changes' where f: "fold (fill_one v) xs ((?st, []), []) = ((st', new'), changes')"
    "filled (st', new') changes'" "allocated ?st st'" "set (al_keys changes') = fst ` set xs"
    "\<And>n. writes_of changes' n = written_by xs n" by auto
  from fill_loop_items [OF d(2) _ _ assms(14), of v "(?st, [])" "[]"] items f(1) obtain d' where
    loop: "fill_loop fuel v ((?st, []), d, []) = Done ((st', new'), d', changes') True" "d_end d'"
    by (auto simp: xs_def)
  have prev: "(v + 2 ^ 64 - 1) mod 2 ^ 64 = st_version st" using assms(3,4) by auto
  have ph: "ph_version (d_header d) = v" using d(3) by (simp add: header_of_def)
  define w where "w = (new_wrapper data False expected some)\<lparr>w_term := t, w_version := v,
      w_claims_digest := ph_claims_digest (d_header d), w_commit_evidence_digest := ph_commit_evidence_digest (d_header d)\<rparr>"
  have "fill_maps c fuel True (st, e, new_wrapper data False expected some) = fill_from c fuel True d (st, e', w)"
    using d(1) ph assms(5,6) by (simp add: fill_maps_def set_term_def w_def new_wrapper_def)
  also have "\<dots> = Done (st', e', w\<lparr>w_changes := changes', w_new_maps := new'\<rparr>) True"
    using rb loop prev by (simp add: fill_from_def w_def Let_def) (simp add: new_wrapper_def)
  finally have "fill_maps c fuel True (st, e, new_wrapper data False expected some) =
      Done (st', e', w\<lparr>w_changes := changes', w_new_maps := new'\<rparr>) True" .
  moreover have "contents st' = contents st"
    using allocated_contents [OF f(3) store_okD [OF sok]] contents_cong [of ?st st] by simp
  moreover have "store_ok st'" "st_version st' = st_version st"
    using f(2) allocated_fields [OF f(3)] assms(2) by (simp_all add: filled_def store_ok_def)
  ultimately show ?thesis using f(2,4,5) by (simp add: w_def new_wrapper_def)
qed

text \<open>An entry is applied: the writes of its items go on top of the contents.\<close>

lemma entry_replayed:
  fixes pubs privs :: "item list"
  defines "xs \<equiv> pubs @ privs"
  assumes "store_ok st" and "st_version st + 1 = v" and "v < 2 ^ 63" and "has_encryptor st" and "\<not> is_historical st"
    and "readable_entry c k (t, v) (public_header_bytes (t, v) et ced claims @ items_bytes pubs) (items_bytes privs) data"
    and "length data < 2 ^ 48" and "length ced = 32" and "length (digest claims) = 32"
    and "uses_key v e k" and "\<forall>x\<in>set xs. item_ok x" and "distinct (map fst xs)" and "length xs < fuel"
    and "SIGNATURES \<notin> fst ` set xs" and "expected = None \<or> expected = Some (t, v)"
  shows "\<exists>st' e' w r. cft_apply c verify fuel (st, e, new_wrapper data False expected some) = Done (st', e', w) r
    \<and> r \<noteq> FAIL \<and> store_ok st' \<and> st_version st' = v \<and> term_of_last_version st' = t
    \<and> (\<forall>n. contents st' n = put_writes (written_by xs n) (contents st n))"
proof -
  from fill_maps_items [OF assms(2-11) assms(12-14) [unfolded xs_def], of expected some]
  obtain st1 e1 w where f: "fill_maps c fuel True (st, e, new_wrapper data False expected some) = Done (st1, e1, w) True"
    "filled (st1, w_new_maps w) (w_changes w)" "store_ok st1" "st_version st1 = st_version st" "contents st1 = contents st"
    "w_version w = v" "w_term w = t" "w_expected_txid w = expected" "set (al_keys (w_changes w)) = fst ` set xs"
    "\<And>n. writes_of (w_changes w) n = written_by xs n" unfolding xs_def by blast
  have "st_version st1 < v" using f(4) assms(3) by simp
  from commit_filled [OF f(3,2) this assms(4), of t] obtain st2 hooks where
    c: "commit_deserialised (w_changes w) v t (w_new_maps w) st1 = Done st2 (True, hooks)" "store_ok st2"
    "st_version st2 = v" "term_of_last_version st2 = t"
    "\<And>n. contents st2 n = put_writes (writes_of (w_changes w) n) (contents st1 n)" by blast
  let ?w = "w\<lparr>w_hooks := w_hooks w @ hooks\<rparr>"
  have "map_of (w_changes ?w) SIGNATURES = None" using f(9) assms(15) by (simp add: map_of_None_iff_keys)
  from classify_not_signature [OF this, of verify st2 e1] obtain ev r where
    cl: "classify_entry verify (st2, e1, ?w) = ((st2\<lparr>events := ev\<rparr>, e1, ?w), r)" "r \<noteq> FAIL" by blast
  have "\<not> (case expected of None \<Rightarrow> False | Some txid \<Rightarrow> w_term w \<noteq> fst txid \<or> w_version w \<noteq> snd txid)"
    using assms(16) f(6,7) by auto
  then have "cft_apply c verify fuel (st, e, new_wrapper data False expected some) = Done (st2\<lparr>events := ev\<rparr>, e1, ?w) r"
    using f(1,6-8) c(1) cl(1) by (simp add: cft_apply_def)
  moreover have "store_ok (st2\<lparr>events := ev\<rparr>)" using c(2) store_ok_cong [of "st2\<lparr>events := ev\<rparr>" st2] by simp
  moreover have "contents (st2\<lparr>events := ev\<rparr>) = contents st2" by (rule contents_cong) simp_all
  ultimately show ?thesis using cl(2) c(3-5) f(5,10) by simp
qed

section \<open>What is sent is what was written\<close>

lemma sets_length: "length w \<le> length (changes_bytes w)"
proof -
  have "length xs \<le> length (concat (map (\<lambda>(k, v). entry_bytes8 k @ entry_bytes8 v) xs))" for xs :: "(Key \<times> Value) list"
    by (induction xs) (auto simp: entry_bytes8_def)
  moreover have "length xs \<le> length (concat (map entry_bytes8 xs))" for xs :: "Key list"
    by (induction xs) (simp_all add: entry_bytes8_def)
  ultimately have "length (sets w) + length (rems w) \<le> length (writes_bytes w)"
    unfolding writes_bytes_def by (simp only: length_append) (metis add_mono trans_le_add2 trans_le_add1)
  then show ?thesis by (simp add: length_sets changes_bytes_def)
qed

lemma item_length: "x \<in> set xs \<Longrightarrow> length (snd x) \<le> length (items_bytes xs)"
  using sets_length by (induction xs) (auto simp: item_bytes_def intro: trans_le_add1 trans_le_add2)

text \<open>Everything that a transaction writes is sent, in one of the two parts.\<close>

definition all_items :: "'p kv_store \<Rightarrow> OrderedChanges \<Rightarrow> item list" where
  "all_items st cs = sent_items PUBLIC st cs @ sent_items PRIVATE st cs"

lemma sent_items_iff:
  "(n, w) \<in> set (sent_items domain st cs) \<longleftrightarrow> (\<exists>a c. (n, a, c) \<in> set cs \<and> w = writes (change_set_of c)
     \<and> security_domain (heap st a) = domain \<and> replicated (heap st a) \<and> changes_have_writes c)"
  by (force simp: sent_items_def items_def sent_def image_iff)

lemma names_sent: "map fst (sent_items domain st cs) = al_keys (sent domain st cs)"
  by (simp add: sent_items_def items_def al_keys_def case_prod_beta)

lemma all_items_distinct:
  assumes "sorted_wrt (<) (al_keys cs)"
  shows "distinct (map fst (all_items st cs))"
proof -
  have d: "distinct (al_keys cs)" using assms by (simp add: strict_sorted_iff)
  then have "distinct (al_keys (sent domain st cs))" for domain
    by (simp add: sent_def al_keys_def distinct_map_filter)
  moreover have "n \<notin> set (al_keys (sent PRIVATE st cs))" if "n \<in> set (al_keys (sent PUBLIC st cs))" for n
  proof
    assume "n \<in> set (al_keys (sent PRIVATE st cs))"
    with that obtain a c a' c' where "(n, a, c) \<in> set cs" "(n, a', c') \<in> set cs"
      "security_domain (heap st a) = PUBLIC" "security_domain (heap st a') = PRIVATE"
      by (auto simp: al_keys_def sent_def)
    moreover from this have "(a, c) = (a', c')" using d eq_key_imp_eq_value [of cs n "(a, c)" "(a', c')"] by (simp add: al_keys_def)
    ultimately show False by simp
  qed
  ultimately show ?thesis by (auto simp: all_items_def names_sent)
qed

lemma all_items_written:
  assumes "sorted_wrt (<) (al_keys cs)" and "\<forall>(n, a, c)\<in>set cs. (\<exists>k. c = Normal k) \<and> (changes_have_writes c \<longrightarrow> replicated (heap st a))"
  shows "written_by (all_items st cs) n = writes_of cs n"
proof -
  have "map_of (all_items st cs) n = (case map_of cs n of
      Some (a, Normal k) \<Rightarrow> if writes k = [] then None else Some (writes k) | _ \<Rightarrow> None)"
  proof (cases "\<exists>a k. map_of cs n = Some (a, Normal k) \<and> writes k \<noteq> []")
    case True
    then obtain a k where k: "map_of cs n = Some (a, Normal k)" "writes k \<noteq> []" by blast
    have "(n, writes k) \<in> set (all_items st cs)"
      using map_of_SomeD [OF k(1)] k(2) assms(2)
      by (cases "security_domain (heap st a)") (auto simp: all_items_def sent_items_iff has_writes_def
          intro!: exI [of _ a] exI [of _ "Normal k"])
    then have "map_of (all_items st cs) n = Some (writes k)"
      using all_items_distinct [OF assms(1), of st] by simp
    then show ?thesis using k by simp
  next
    case False
    have "n \<notin> fst ` set (all_items st cs)"
    proof
      assume "n \<in> fst ` set (all_items st cs)"
      then obtain a c where ac: "(n, a, c) \<in> set cs" "changes_have_writes c"
        by (auto simp: all_items_def sent_items_iff)
      then obtain k where k: "c = Normal k" using assms(2) by auto
      then have "map_of cs n = Some (a, Normal k)" using ac(1) assms(1) by (simp add: sorted_map_of_iff)
      with False ac(2) k show False by (simp add: has_writes_def)
    qed
    then show ?thesis using False by (auto simp: map_of_eq_None_iff split: option.splits changes.splits)
  qed
  then show ?thesis by (auto simp: written_by_def writes_of_def split: option.split changes.split)
qed

lemma length_sent: "length (sent PUBLIC st cs) + length (sent PRIVATE st cs) \<le> length cs"
  by (induction cs) (auto simp: sent_def)

lemma length_all_items: "length (all_items st cs) \<le> length cs"
  using length_sent [of st cs] by (simp add: all_items_def sent_items_def items_def)

lemma changes_normal: "changes_ok st new cs \<Longrightarrow> (n, a, c) \<in> set cs \<Longrightarrow> \<exists>k. c = Normal k"
  by (cases c) (auto simp: changes_ok_def list_all_iff change_ok_def)

lemma length_items_bytes:
  "length (items_bytes (sent_items PUBLIC st cs)) + length (items_bytes (sent_items PRIVATE st cs)) \<le> length (items_bytes (items cs))"
  by (induction cs) (auto simp: sent_items_def sent_def items_def)

lemma all_items_ok:
  assumes "changes_ok st0 new cs" and "length (items_bytes (items cs)) < 2 ^ 48"
  shows "\<forall>x\<in>set (all_items st cs). item_ok x"
proof
  fix x assume x: "x \<in> set (all_items st cs)"
  obtain n w where nw: "x = (n, w)" by (cases x)
  then obtain a c where ac: "(n, a, c) \<in> set cs" "w = writes (change_set_of c)"
    using x by (auto simp: all_items_def sent_items_iff)
  have "change_ok st0 new (n, a, c)" using assms(1) ac(1) by (simp add: changes_ok_def list_all_iff)
  then have "sorted_wrt (<) (al_keys w)" by (cases c) (auto simp: ac(2) change_ok_def valid_def cs_ok_def)
  moreover have "length w < 2 ^ 64"
    using x item_length [of x] assms(2) length_items_bytes [of st cs] by (fastforce simp: nw all_items_def)
  ultimately show "item_ok x" by (simp add: item_ok_def nw)
qed

text \<open>C3: Replication gives every node the same store. When a transaction that is not a signature and uses
  replicated maps only has committed on the primary, its entry is serialised, and a backup that holds what the primary held before and uses the same ledger
  secret applies the entry: it does not fail, its version and term are those of the transaction, and
  it holds exactly what the primary holds.\<close>

theorem backup_replays:
  fixes enc dec hmac
  defines "c \<equiv> node_encryptor enc dec hmac"
  assumes "gcm_ok enc dec" and "\<forall>x. length (sha256 x) = 32" and "is_set claims" and "length (digest claims) = 32"
    and "store_ok st" and "has_encryptor st" and "changes_ok st (created_maps tx) (all_changes tx)"
    and "\<forall>(n, a, ch)\<in>set (all_changes tx). replicated (heap st a)" and "any_writes (all_changes tx)"
    and "map_of (all_changes tx) SIGNATURES = None"
    and "apply_changes (all_changes tx) next_version (created_maps tx) None False st = Done st1 (Some v, hooks)"
    and "st_version st + 1 < 2 ^ 63" and "tx_version tx = v" and "tx_committed tx" and "tx_success tx"
    and "commit_view tx < 2 ^ 31" and "uses_key v e k" and "uses_key v be k"
    and "store_ok bst" and "st_version bst = st_version st" and "contents bst = contents st" and "has_encryptor bst"
    and "\<not> is_historical bst" and "length (all_changes tx) < fuel" and "length (items_bytes (items (all_changes tx))) < 2 ^ 47"
  shows "\<exists>e' tx' data ced evidence. tx_serialise sha256 c claims False (st1, e, tx) = Done (st1, e', tx') (data, ced, evidence)
    \<and> (\<exists>bst' be' w r.
         cft_apply c verify fuel (bst, be, new_wrapper data False (Some (commit_view tx, v)) some) = Done (bst', be', w) r
         \<and> r \<noteq> FAIL \<and> store_ok bst' \<and> st_version bst' = st_version st1 \<and> term_of_last_version bst' = commit_view tx
         \<and> contents bst' = contents st1)"
proof -
  let ?cs = "all_changes tx" and ?new = "created_maps tx" and ?txid = "(commit_view tx, v)"
  note nv = next_version_gives [OF assms(13), of "?new \<noteq> []"]
  have "v = st_version st + 1 \<and> same_but_maps (fst (next_version (?new \<noteq> []) st)) st1 \<and> prepare_all False ?cs st
    \<and> (\<forall>n. contents st1 n = put_writes (writes_of ?cs n) (contents st n))
    \<and> (\<forall>n a. owns st ?new n a \<longrightarrow> map_name (heap st1 a) = n \<and> replicated (heap st1 a) = replicated (heap st a))"
    using assms(10,12)
    by (cases rule: apply_changes_cases [OF assms(6,8) nv(1) _ assms(13)]) auto
  then have p: "v = st_version st + 1" "same_but_maps (fst (next_version (?new \<noteq> []) st)) st1" "prepare_all False ?cs st"
    "\<And>n. contents st1 n = put_writes (writes_of ?cs n) (contents st n)"
    "\<And>n a. owns st ?new n a \<Longrightarrow> map_name (heap st1 a) = n \<and> replicated (heap st1 a) = replicated (heap st a)" by blast+
  have sc: "sorted_wrt (<) (al_keys ?cs)" using assms(8) by (simp add: changes_ok_def)
  have own: "map_name (heap st1 a) = n \<and> replicated (heap st1 a)" if "(n, a, ch) \<in> set ?cs" "changes_have_writes ch" for n a ch
    using prepared_owner [OF assms(8) p(3) that] p(5) that(1) assms(9) by fastforce
  have he: "has_encryptor st1" using p(2) assms(7)
    by (cases st, cases st1) (simp add: same_but_maps_def next_version_def next_version_unsafe_def Let_def split: if_splits)
  have names: "\<forall>(n, a, ch)\<in>set ?cs. changes_have_writes ch \<longrightarrow> map_name (heap st1 a) = n" using own by auto
  from tx_serialise_entry [OF assms(2) _ assms(17,10) names he assms(15,16,4), of e k sha256 hmac] assms(14,18)
  obtain e' tx' data ced evidence where ser: "tx_serialise sha256 c claims False (st1, e, tx) = Done (st1, e', tx') (data, ced, evidence)"
    "ced = sha256 (string_bytes evidence)" "readable_entry c k ?txid (public_part ?txid ced claims st1 ?cs) (private_part st1 ?cs) data"
    "length data = 44 + length (public_part ?txid ced claims st1 ?cs) + length (private_part st1 ?cs)"
    unfolding c_def by blast
  obtain bst' be' w r where rep: "cft_apply c verify fuel (bst, be, new_wrapper data False (Some ?txid) some) = Done (bst', be', w) r"
    "r \<noteq> FAIL" "store_ok bst'" "st_version bst' = v" "term_of_last_version bst' = commit_view tx"
    "\<forall>n. contents bst' n = put_writes (written_by (all_items st1 ?cs) n) (contents bst n)"
  proof -
    have ced: "length ced = 32" using assms(3) ser(2) by simp
    have small: "length data < 2 ^ 48"
      using ser(4) ced assms(5,26) length_items_bytes [of st1 ?cs]
      by (simp add: public_part_def private_part_def public_header_bytes_def)
    have "SIGNATURES \<notin> fst ` set (all_items st1 ?cs)" using assms(11) weak_map_of_SomeI [of SIGNATURES _ ?cs]
      by (auto simp: all_items_def sent_items_iff)
    moreover have "\<forall>x\<in>set (all_items st1 ?cs). item_ok x" using assms(26) by (intro all_items_ok [OF assms(8)]) simp
    moreover have "length (all_items st1 ?cs) < fuel" using length_all_items [of st1 ?cs] assms(25) by simp
    moreover have "v < 2 ^ 63" "st_version bst + 1 = v" using p(1) assms(13,21) by simp_all
    ultimately have "\<exists>bst' be' w r. cft_apply c verify fuel (bst, be, new_wrapper data False (Some ?txid) some) = Done (bst', be', w) r
      \<and> r \<noteq> FAIL \<and> store_ok bst' \<and> st_version bst' = v \<and> term_of_last_version bst' = commit_view tx
      \<and> (\<forall>n. contents bst' n = put_writes (written_by (all_items st1 ?cs) n) (contents bst n))"
      using ced entry_replayed [of bst v c k "commit_view tx" WriteSetWithCommitEvidenceAndClaims ced claims "sent_items PUBLIC st1 ?cs" "sent_items PRIVATE st1 ?cs" data be fuel "Some ?txid" verify some]
        ser(3) assms(5,19,20,23,24) all_items_distinct [OF sc, of st1] small
      by (simp add: all_items_def public_part_def private_part_def)
    then show ?thesis using that by blast
  qed
  have "written_by (all_items st1 ?cs) n = writes_of ?cs n" for n
    using own changes_normal [OF assms(8)] by (intro all_items_written [OF sc]) blast
  then have "contents bst' = contents st1" using rep(6) p(4) assms(22) by (simp add: fun_eq_iff)
  moreover have "st_version st1 = v" using same_but_mapsD [OF p(2)] nv(2) p(1) by simp
  ultimately show ?thesis using ser(1) rep(1-5) by blast
qed

theorem backup_replays_witness:
  defines "st \<equiv> sample_store :: unit pending_tx kv_store" and "c \<equiv> node_encryptor sample_encrypt sample_decrypt (\<lambda>_ _. [])"
    and "ls \<equiv> secrets_init 1 \<lparr>raw_key = [3], previous_secret_stored_version = None\<rparr> new_secrets"
    and "claims \<equiv> \<lparr>is_set = True, digest = replicate 32 0\<rparr>"
    and "tx \<equiv> new_tx\<lparr>created_maps := [(''b'', 1)], all_changes := sample_changes, tx_version := 1, commit_view := 2,
      tx_committed := True, tx_success := True\<rparr>"
  shows "\<exists>st1 hooks e' tx' data x y bst' be' w r.
      apply_changes sample_changes next_version [(''b'', 1)] None False st = Done st1 (Some 1, hooks)
      \<and> tx_serialise (\<lambda>_. replicate 32 0) c claims False (st1, ls, tx) = Done (st1, e', tx') (data, x, y)
      \<and> cft_apply c (\<lambda>_ t. (True, t)) 3 (st, ls, new_wrapper data False (Some (2, 1)) (0, 0)) = Done (bst', be', w) r
      \<and> r \<noteq> FAIL \<and> contents bst' ''b'' [2] = Some [8]"
proof -
  note ok = sample_ok [where 'p = "unit pending_tx", folded st_def]
  note un = sample_undisturbed [where 'p = "unit pending_tx", folded st_def]
  have v: "st_version st = 0" by (simp add: st_def)
  have p: "prepare_all False sample_changes st" using undisturbed_prepared [OF ok(2)] un by blast
  have nv: "gives next_version 1 st b (fst (next_version b st))" for b using next_version_gives(1) [of st b] by (simp add: v)
  obtain st1 hooks where st1: "apply_changes sample_changes next_version [(''b'', 1)] None False st = Done st1 (Some 1, hooks)"
    "contents st1 ''b'' = put_writes (writes_of sample_changes ''b'') (contents st ''b'')"
    using p un sample_writes(1) v by (auto intro: apply_changes_cases [OF ok nv])
  have key: "uses_key 1 ls [3]"
    by (auto simp: uses_key_def ls_def secrets_init_def new_secrets_def secret_at_def emplace_def al_keys_def intro!: exI [of _ 1] in_order.start)
  have tx: "all_changes tx = sample_changes" "created_maps tx = [(''b'', 1)]" "tx_version tx = 1" "commit_view tx = 2"
    "tx_committed tx" "tx_success tx" by (simp_all add: tx_def)
  have rep: "\<forall>(n, a, ch)\<in>set sample_changes. replicated (heap st a)"
    by (simp add: sample_changes_def st_def sample_store_def new_map_def)
  have sig: "map_of sample_changes SIGNATURES = None" and fuel: "length sample_changes < 3"
    by (simp_all add: sample_changes_def SIGNATURES_def)
  have size: "length (items_bytes (items sample_changes)) < 2 ^ 47"
    by (simp add: sample_changes_def items_def item_bytes_def entry_bytes8_def changes_bytes_def writes_bytes_def string_bytes_def
        handle_put_def empty_change_set_def make_change_set_def)
  have cl: "is_set claims" "length (digest claims) = 32" and len: "\<forall>x :: byte list. length (replicate 32 (0 :: byte)) = 32"
    by (simp_all add: claims_def)
  have he: "has_encryptor st" "\<not> is_historical st" by (simp_all add: st_def sample_store_def new_store_def)
  have bounds: "st_version st + 1 < 2 ^ 63" "(2 :: nat) < 2 ^ 31" by (simp_all add: v)
  obtain e' tx' data x y bst' be' w r where
    "tx_serialise (\<lambda>_. replicate 32 0) c claims False (st1, ls, tx) = Done (st1, e', tx') (data, x, y)"
    "cft_apply c (\<lambda>_ t. (True, t)) 3 (st, ls, new_wrapper data False (Some (2, 1)) (0, 0)) = Done (bst', be', w) r"
    "r \<noteq> FAIL" "contents bst' = contents st1"
    using backup_replays [where tx = tx and hmac = "\<lambda>_ _. []" and verify = "\<lambda>_ t. (True, t)" and some = "(0, 0)" and ?sha256.0 = "\<lambda>_. replicate 32 0", unfolded tx(1-4), OF sample_gcm_ok len cl ok(1) he(1) ok(2) rep sample_writes(1) sig st1(1)
      bounds(1) refl tx(5,6) bounds(2) key key ok(1) refl refl he fuel size, folded c_def] by blast
  moreover from this have "contents bst' ''b'' [2] = Some [8]" using st1(2) by (simp add: put_writes_def sample_writes)
  ultimately show ?thesis using st1(1) by blast
qed

end
