(* ===== verification/Kv_System.thy ===== *)
theory Kv_System
  imports Kv_Tx Kv_Apply
begin

text \<open>
  A store with any number of open transactions: what transactions do through their handles, their
  commits, compaction and rollback, in any order. The invariant of the store and of the open
  transactions holds in every state, and no operation ends with an internal error.
\<close>

section \<open>Steps\<close>

datatype handle_op = Get Key | Has Key | PreviousWrite Key | Put Key Value | Remove Key | Size | Clear | Range Key Key

definition run_op :: "handle_op \<Rightarrow> ChangeSet \<Rightarrow> ChangeSet \<times> unit" where
  "run_op f cs =
     (case f of
        Get k \<Rightarrow> fst (handle_get k cs)
      | Has k \<Rightarrow> fst (handle_has k cs)
      | PreviousWrite k \<Rightarrow> fst (get_version_of_previous_write k cs)
      | Put k v \<Rightarrow> handle_put k v cs
      | Remove k \<Rightarrow> fst (handle_remove k cs)
      | Size \<Rightarrow> fst (handle_size cs)
      | Clear \<Rightarrow> handle_clear cs
      | Range k k' \<Rightarrow> fst (handle_range k k' cs), ())"

type_synonym 'p system = "'p kv_store \<times> Tx list"

text \<open>
  A transaction whose operation throws is abandoned. Consensus does not compact to before what it has
  committed already.
\<close>

inductive system_step :: "'p system \<Rightarrow> 'p system \<Rightarrow> bool" where
  open_tx: "system_step (st, txs) (st, new_tx # txs)"
| operate: "i < length txs \<Longrightarrow> on_handle name (run_op f) (st, txs ! i) = Done (st', tx') u \<Longrightarrow>
    system_step (st, txs) (st', txs[i := tx'])"
| throw: "i < length txs \<Longrightarrow> on_handle name (run_op f) (st, txs ! i) = Throw (st', tx') x \<Longrightarrow>
    system_step (st, txs) (st', without i txs)"
| commit_tx: "i < length txs \<Longrightarrow> st_version st + 1 < 2 ^ 63 \<Longrightarrow>
    apply_changes (all_changes (txs ! i)) next_version (created_maps (txs ! i)) None False st = Done st' r \<Longrightarrow>
    system_step (st, txs) (st', without i txs)"
| abandon: "i < length txs \<Longrightarrow> system_step (st, txs) (st, without i txs)"
| compact: "compacted st \<le> v \<Longrightarrow> system_step (st, txs) (store_compact v st, txs)"
| rollback: "store_rollback txid t st = Done st' u \<Longrightarrow> system_step (st, txs) (st', txs)"
| map_hook: "system_step (st, txs) (set_map_hook name st, txs)"
| global_hook: "system_step (st, txs) (set_global_hook name st, txs)"

inductive system_reachable :: "'p system \<Rightarrow> bool" where
  start: "maps st = [] \<Longrightarrow> compacted st \<le> st_version st \<Longrightarrow> st_version st < 2 ^ 63 \<Longrightarrow> system_reachable (st, [])"
| step: "system_reachable s \<Longrightarrow> system_step s s' \<Longrightarrow> system_reachable s'"

section \<open>Invariant\<close>

text \<open>A transaction removes only what the state of its change set has.\<close>

definition removes_known :: "ChangeSet \<Rightarrow> bool" where
  "removes_known cs \<longleftrightarrow> (\<forall>k. map_of (writes cs) k = Some None \<longrightarrow> state_get (cs_state cs) k \<noteq> None)"

text \<open>
  A map that a rollback can make the store forget has a version that the rollback takes away, and
  every map has a version that no rollback takes away.
\<close>

definition created_ok :: "'p kv_store \<Rightarrow> bool" where
  "created_ok st \<longleftrightarrow> (\<forall>(n, created, a)\<in>set (maps st). fst (hd (hist (heap st a))) \<le> compacted st
     \<and> (created \<le> compacted st \<or> created \<in> fst ` set (tl (hist (heap st a)))))"

text \<open>A change set is on a map of its name; if that is not in the store, the change set is out of date.\<close>

definition named :: "'p kv_store \<Rightarrow> MapCollection \<Rightarrow> string \<times> addr \<times> changes \<Rightarrow> bool" where
  "named st new x \<longleftrightarrow> (case x of (n, a, c) \<Rightarrow>
     map_name (heap st a) = n \<and> a < next_addr st \<and> removes_known (change_set_of c)
     \<and> (owns st new n a \<or> cs_rollback_counter (change_set_of c) < rollback_counter (roll (heap st a))))"

definition tx_inv :: "'p kv_store \<Rightarrow> Tx \<Rightarrow> bool" where
  "tx_inv st tx \<longleftrightarrow> changes_ok st (created_maps tx) (all_changes tx) \<and> list_all (named st (created_maps tx)) (all_changes tx)
     \<and> sorted_wrt (<) (al_keys (created_maps tx)) \<and> set (al_keys (created_maps tx)) \<subseteq> set (al_keys (all_changes tx))"

definition created_addrs :: "Tx \<Rightarrow> addr set" where
  "created_addrs tx = snd ` set (created_maps tx)"

definition system_inv :: "'p system \<Rightarrow> bool" where
  "system_inv s \<longleftrightarrow> store_ok (fst s) \<and> created_ok (fst s) \<and> list_all (tx_inv (fst s)) (snd s)
     \<and> sorted_wrt (\<lambda>t t'. created_addrs t \<inter> created_addrs t' = {}) (snd s)"

section \<open>Handles\<close>

lemma removes_known_put: "removes_known cs \<Longrightarrow> removes_known (handle_put k v cs)"
  by (simp add: removes_known_def handle_put_def map_of_upd_sorted)

lemma removes_known_remove: "removes_known cs \<Longrightarrow> removes_known (fst (handle_remove k cs))"
  by (auto simp: removes_known_def handle_remove_def Let_def map_of_upd_sorted map_of_erase_key)

lemma visits_clear_inv:
  assumes "valid m (fst x)" and "removes_known (fst x)"
  shows "valid m (fst (visits remove_visitor kvs x)) \<and> removes_known (fst (visits remove_visitor kvs x))
    \<and> cs_rollback_counter (fst (visits remove_visitor kvs x)) = cs_rollback_counter (fst x)"
  using assms by (induction kvs arbitrary: x) (auto simp: remove_visitor_def valid_remove removes_known_remove)

lemma fst_visits_range: "fst (visits (range_visitor k k') kvs x) = fst x"
  by (induction kvs arbitrary: x) (auto simp: range_visitor_def)

lemma valid_read_key: "valid m cs \<Longrightarrow> valid m (fst (read_key k cs))"
  using valid_get [of m cs k] by (simp add: handle_get_def)

lemma removes_known_reads:
  "removes_known (fst (read_key k cs)) = removes_known cs" "removes_known (fst (read_state k cs)) = removes_known cs"
  by (simp_all add: removes_known_def)

lemma iterating_ok: "valid m cs \<Longrightarrow> valid m (cs\<lparr>read_version := start_version cs\<rparr>)"
  by (simp add: valid_def cs_ok_def reads_ok_def)

lemma run_op_ok:
  assumes "valid m cs" and "removes_known cs"
  shows "valid m (fst (run_op f cs))" and "removes_known (fst (run_op f cs))"
    and "cs_rollback_counter (fst (run_op f cs)) = cs_rollback_counter cs"
proof -
  have it: "valid m (cs\<lparr>read_version := start_version cs\<rparr>)" "removes_known (cs\<lparr>read_version := start_version cs\<rparr>)"
    using assms iterating_ok by (auto simp: removes_known_def)
  have "valid m (fst (run_op f cs)) \<and> removes_known (fst (run_op f cs))
    \<and> cs_rollback_counter (fst (run_op f cs)) = cs_rollback_counter cs"
  proof (cases f)
    case Clear
    have "handle_clear cs = fst (visits remove_visitor (view_list cs) (cs\<lparr>read_version := start_version cs\<rparr>, ()))"
      unfolding handle_clear_def handle_foreach_def by (subst foreach_visits) (simp_all add: remove_visitor_def)
    then show ?thesis using visits_clear_inv it by (simp add: run_op_def Clear)
  next
    case (Range k k')
    have "fst (handle_range k k' cs) = cs \<or> fst (handle_range k k' cs) = cs\<lparr>read_version := start_version cs\<rparr>"
      unfolding handle_range_def by (subst foreach_visits) (simp_all add: range_visitor_def fst_visits_range)
    then show ?thesis using assms it by (auto simp: run_op_def Range)
  next
    case Size
    then show ?thesis using it by (simp add: run_op_def handle_size_fst)
  qed (insert assms, simp_all add: run_op_def valid_get valid_put valid_remove removes_known_put removes_known_remove
      handle_get_def handle_has_def get_version_of_previous_write_def case_prod_beta Let_def valid_read_key valid_read_state
      removes_known_reads)
  then show "valid m (fst (run_op f cs))" and "removes_known (fst (run_op f cs))"
    and "cs_rollback_counter (fst (run_op f cs)) = cs_rollback_counter cs" by auto
qed

section \<open>Transactions and what happens to the store\<close>

definition later_map :: "kv_map \<Rightarrow> kv_map \<Rightarrow> bool" where
  "later_map m m' \<longleftrightarrow> map_name m' = map_name m \<and> rollback_counter (roll m) \<le> rollback_counter (roll m')
     \<and> (\<forall>cs. valid m cs \<longrightarrow> valid m' cs)"

lemma later_map_same: "same_map m m' \<Longrightarrow> later_map m m'"
  using same_map_valid [of m m'] by (simp add: later_map_def same_map_def)

text \<open>A change that an open transaction survives.\<close>

definition later_store :: "'p kv_store \<Rightarrow> 'p kv_store \<Rightarrow> bool" where
  "later_store st st' \<longleftrightarrow> next_addr st \<le> next_addr st' \<and> (\<forall>a<next_addr st. later_map (heap st a) (heap st' a))
     \<and> (\<forall>n a. map_option snd (map_of (maps st) n) = Some a \<longrightarrow>
          map_option snd (map_of (maps st') n) = Some a
          \<or> rollback_counter (roll (heap st a)) < rollback_counter (roll (heap st' a)))"

lemma change_ok_later:
  assumes "later_store st st'" and "change_ok st new x" and "named st new x"
  shows "change_ok st' new x" and "named st' new x"
proof -
  obtain n a c where x: "x = (n, a, c)" by (cases x)
  obtain k where k: "c = Normal k" using assms(2) by (cases c) (auto simp: change_ok_def x)
  have a: "a < next_addr st" using assms(3) by (simp add: named_def x)
  then have m: "later_map (heap st a) (heap st' a)" using assms(1) by (simp add: later_store_def)
  have v: "valid (heap st a) k" using assms(2) by (simp add: change_ok_def x k)
  then have c: "cs_rollback_counter k \<le> rollback_counter (roll (heap st a))" by (simp add: valid_def)
  have "owns st' new n a \<or> cs_rollback_counter k < rollback_counter (roll (heap st' a))"
    using assms(1,3) m c unfolding x k named_def owns_def later_store_def later_map_def by fastforce
  then show "named st' new x" using assms(1,3) a m by (auto simp: named_def x k later_store_def later_map_def)
  have "valid (heap st' a) k" using v m by (simp add: later_map_def)
  moreover have "map_option snd (map_of (maps st') n) = Some a \<or> writes k = []
      \<or> cs_rollback_counter k < rollback_counter (roll (heap st' a))" if "map_of new n = None"
    using assms(1,2) that c m unfolding x k change_ok_def later_store_def later_map_def by fastforce
  ultimately show "change_ok st' new x" using assms(2) by (auto simp: change_ok_def x k)
qed

lemma tx_inv_later:
  assumes "later_store st st'" and "tx_inv st tx"
    and "\<forall>a\<in>created_addrs tx. hist (heap st' a) = hist (heap st a) \<and> a \<notin> set (addrs st')"
  shows "tx_inv st' tx"
proof -
  have "list_all (change_ok st' (created_maps tx)) (all_changes tx)" "list_all (named st' (created_maps tx)) (all_changes tx)"
    using assms(2) change_ok_later [OF assms(1)] by (auto simp: tx_inv_def changes_ok_def list_all_iff)
  moreover have "fresh st' x" if x: "x \<in> set (created_maps tx)" for x
  proof -
    obtain n a where na: "x = (n, a)" by (cases x)
    have "fresh st x" using assms(2) x by (auto simp: tx_inv_def changes_ok_def list_all_iff)
    then show ?thesis using assms(1,3) x by (force simp: na fresh_def created_addrs_def later_store_def later_map_def)
  qed
  ultimately show ?thesis using assms(2) by (simp add: tx_inv_def changes_ok_def list_all_iff)
qed

section \<open>Operations through handles\<close>

lemma tx_inv_cong: "created_maps tx' = created_maps tx \<Longrightarrow> all_changes tx' = all_changes tx \<Longrightarrow> tx_inv st tx' = tx_inv st tx"
  by (simp add: tx_inv_def)

lemma allocated_later: "allocated st st' \<Longrightarrow> later_store st st'"
  by (auto simp: later_store_def allocated_fields) (auto simp: allocated_def later_map_same)

lemma allocated_created_ok:
  assumes "allocated st st'" and "store_ok st" and "created_ok st"
  shows "created_ok st'"
proof -
  have "heap st' a = heap st a" if "(n, c, a) \<in> set (maps st)" for n c a
    using assms(1,2) that by (fastforce simp: store_ok_def maps_ok_def map_ok_def allocated_def list_all_iff)
  then show ?thesis using assms(3) allocated_fields [OF assms(1)] by (auto simp: created_ok_def)
qed

lemma mapped_addr: "store_ok st \<Longrightarrow> a \<in> set (addrs st) \<Longrightarrow> a < next_addr st"
  by (force simp: addrs_def store_ok_def maps_ok_def list_all_iff map_ok_def)

lemma tx_inv_allocated:
  assumes "allocated st st'" and "store_ok st" and "tx_inv st tx"
  shows "tx_inv st' tx"
proof (rule tx_inv_later [OF allocated_later [OF assms(1)] assms(3)], intro ballI conjI)
  fix a assume "a \<in> created_addrs tx"
  then obtain n where "fresh st (n, a)"
    using assms(3) by (auto simp: created_addrs_def tx_inv_def changes_ok_def list_all_iff)
  then have a: "a < next_addr st" "a \<notin> set (addrs st)" by (auto simp: fresh_def)
  show "hist (heap st' a) = hist (heap st a)" using assms(1) a(1) by (simp add: allocated_def)
  show "a \<notin> set (addrs st')" using a(2) allocated_fields [OF assms(1)] by (simp add: addrs_def)
qed

lemma tx_inv_add:
  assumes "tx_inv st tx" and "map_of (all_changes tx) n = None" and "change_ok st new (n, a, c)" and "named st new (n, a, c)"
    and "new = created_maps tx \<or> new = upd_sorted n a (created_maps tx) \<and> map_of (created_maps tx) n = None \<and> fresh st (n, a)"
  shows "tx_inv st (tx\<lparr>created_maps := new, all_changes := upd_sorted n (a, c) (all_changes tx)\<rparr>)"
proof -
  let ?cs = "upd_sorted n (a, c) (all_changes tx)"
  have set: "set ?cs = insert (n, a, c) (set (all_changes tx))" using assms(2) by (rule set_upd_sorted)
  have same: "map_of new m = map_of (created_maps tx) m" if "m \<noteq> n" for m using assms(5) that by (auto simp: map_of_upd_sorted)
  have ne: "m \<noteq> n" if "(m, x) \<in> set (all_changes tx)" for m x using that assms(2) by (auto simp: map_of_eq_None_iff image_iff)
  have "change_ok st new (m, b, d)" if "(m, b, d) \<in> set (all_changes tx)" for m b d
    using assms(1) that same [OF ne [OF that]] unfolding tx_inv_def changes_ok_def change_ok_def list_all_iff
    by (auto split: changes.splits)
  then have ok: "\<forall>x\<in>set ?cs. change_ok st new x" using assms(3) by (auto simp: set)
  have "named st new (m, b, d)" if "(m, b, d) \<in> set (all_changes tx)" for m b d
    using assms(1) that same [OF ne [OF that]] unfolding tx_inv_def named_def owns_def list_all_iff by auto
  then have nm: "\<forall>x\<in>set ?cs. named st new x" using assms(4) by (auto simp: set)
  have sc: "sorted_wrt (<) (al_keys ?cs)" using assms(1) by (simp add: tx_inv_def changes_ok_def sorted_upd_sorted)
  have "\<forall>(m, x)\<in>set ?cs. map_name (heap st (fst x)) = m" using nm by (auto simp: named_def)
  from named_distinct [where name = "\<lambda>b. map_name (heap st b)" and f = fst, OF sc this]
  have dc: "distinct (map (\<lambda>x. fst (snd x)) ?cs)" .
  have sn: "sorted_wrt (<) (al_keys new)" using assms(1,5) by (auto simp: tx_inv_def sorted_upd_sorted)
  have fr: "\<forall>x\<in>set new. fresh st x" using assms(1,5) by (auto simp: tx_inv_def changes_ok_def list_all_iff set_upd_sorted)
  then have "\<forall>(m, x)\<in>set new. map_name (heap st x) = m" by (auto simp: fresh_def)
  from named_distinct [where name = "\<lambda>b. map_name (heap st b)" and f = "\<lambda>x. x", OF sn this]
  have dn: "distinct (map snd new)" .
  have "set (al_keys new) \<subseteq> set (al_keys ?cs)"
    using assms(1,5) by (auto simp: tx_inv_def set_keys_upd_sorted)
  then show ?thesis
    using ok nm sc dc sn fr dn by (simp add: tx_inv_def changes_ok_def list_all_iff strict_sorted_iff)
qed

lemma created_no_removes: "create_change_set v m = Some cs \<Longrightarrow> removes_known cs"
  by (auto simp: create_change_set_def make_change_set_def removes_known_def)

lemma handle_on_existing:
  assumes "store_ok st" and "tx_inv st tx" and "map_of (all_changes tx) n = None"
    and "map_option snd (map_of (maps st) n) = Some a" and "create_change_set v (heap st a) = Some cs"
  shows "tx_inv st (tx\<lparr>all_changes := upd_sorted n (a, Normal cs) (all_changes tx)\<rparr>)"
proof -
  from mapped_ok [OF store_okD [OF assms(1)] assms(4)] obtain c where ok: "map_ok (st_version st) st (n, c, a)" .
  have new: "map_of (created_maps tx) n = None" using assms(2,3) by (auto simp: tx_inv_def map_of_None_iff_keys)
  have "valid (heap st a) cs" using valid_create [OF _ assms(5)] ok by (simp add: map_ok_def)
  then have "change_ok st (created_maps tx) (n, a, Normal cs)" using assms(4) new by (simp add: change_ok_def)
  moreover have "named st (created_maps tx) (n, a, Normal cs)"
    using ok created_no_removes [OF assms(5)] assms(4) by (simp add: named_def map_ok_def owns_def)
  ultimately show ?thesis
    using tx_inv_add [OF assms(2,3), of "created_maps tx" a "Normal cs"] by (simp add: tx_inv_def)
qed

lemma handle_on_new:
  assumes "store_ok st" and "tx_inv st tx" and "map_of (all_changes tx) n = None" and "alloc_map n st = (st', a)"
  shows "\<exists>cs. create_change_set v (heap st' a) = Some cs
    \<and> tx_inv st' (tx\<lparr>created_maps := upd_sorted n a (created_maps tx), all_changes := upd_sorted n (a, Normal cs) (all_changes tx)\<rparr>)"
proof -
  let ?new = "upd_sorted n a (created_maps tx)"
  have a: "a = next_addr st" "allocated st st'" "next_addr st' = next_addr st + 1"
    "heap st' a = new_map n (get_security_domain n) (is_map_replicated n st)" "addrs st' = addrs st"
    using assms(4) alloc_allocated [of st n] by (auto simp: alloc_map_def addrs_def)
  have new: "map_of (created_maps tx) n = None" using assms(2,3) by (auto simp: tx_inv_def map_of_None_iff_keys)
  have h: "hist (heap st' a) = [(0, champ_empty)]" using a(4) by (simp add: hist_new_map)
  then obtain cs where cs: "create_change_set v (heap st' a) = Some cs"
    using commit_at_hist [of v "heap st' a"] by (auto simp: create_change_set_def state_at_def)
  have "map_name (heap st' a) = n" using a(4) by (simp add: new_map_def)
  then have fr: "fresh st' (n, a)" using h mapped_addr [OF assms(1), of a] a(1,3,5) by (auto simp: fresh_def)
  have "valid (heap st' a) cs" using valid_create [OF hist_ok_fresh [OF h] cs] .
  then have "change_ok st' ?new (n, a, Normal cs)" by (simp add: change_ok_def map_of_upd_sorted)
  moreover have "named st' ?new (n, a, Normal cs)"
    using fr created_no_removes [OF cs] by (simp add: named_def fresh_def owns_def map_of_upd_sorted)
  ultimately show ?thesis
    using cs tx_inv_add [OF tx_inv_allocated [OF a(2) assms(1,2)] assms(3), of ?new a "Normal cs"] new fr by simp
qed

text \<open>What a transaction gets a handle on, and the only exception.\<close>

lemma get_handle_cases:
  assumes "store_ok st" and "tx_inv st tx"
  obtains (gets) st' tx' a cs where "get_handle_by_name name (st, tx) = ok (st', tx')" "allocated st st'" "tx_inv st' tx'"
      "map_of (all_changes tx') name = Some (a, Normal cs)" "created_addrs tx' \<subseteq> created_addrs tx \<union> {a. next_addr st \<le> a}"
  | (compacted) tx' where "get_handle_by_name name (st, tx) = Throw (st, tx') (CompactedVersionConflict name)"
proof (cases "map_of (all_changes tx) name")
  case (Some x)
  then obtain a c where x: "map_of (all_changes tx) name = Some (a, c)" by (cases x) auto
  then have "change_ok st (created_maps tx) (name, a, c)"
    using assms(2) map_of_SomeD [OF x] by (simp add: tx_inv_def changes_ok_def list_all_iff)
  then obtain cs where "c = Normal cs" by (cases c) (auto simp: change_ok_def)
  then show ?thesis using x assms gets [of st tx a cs] allocated_refl [of st] by (auto simp: get_handle_by_name_def)
next
  case none: None
  then have new: "map_of (created_maps tx) name = None" using assms(2) by (auto simp: tx_inv_def map_of_None_iff_keys)
  define tx1 where "tx1 = (if read_txid tx = None
    then tx\<lparr>read_txid := Some (current_txid st), commit_view := term_of_next_version st\<rparr> else tx)"
  have tx1: "created_maps tx1 = created_maps tx" "all_changes tx1 = all_changes tx" by (simp_all add: tx1_def)
  then have inv1: "tx_inv st tx1" using assms(2) tx_inv_cong by blast
  let ?v = "snd (the (read_txid tx1))"
  note defs = get_handle_by_name_def get_map_and_change_set_by_name_def Let_def tx1_def [symmetric]
  show ?thesis
  proof (cases "get_map_internal ?v name st")
    case (Some a)
    then have m: "map_option snd (map_of (maps st) name) = Some a" by (auto simp: get_map_internal_def split: option.splits if_splits)
    show ?thesis
    proof (cases "create_change_set ?v (heap st a)")
      case None
      then show ?thesis using compacted [of tx1] none Some by (simp add: defs)
    next
      case cs: (Some cs)
      then show ?thesis
        using gets [of st "tx1\<lparr>all_changes := upd_sorted name (a, Normal cs) (all_changes tx1)\<rparr>" a cs] none Some
          handle_on_existing [OF assms(1) inv1 _ m cs] allocated_refl [of st]
        by (simp add: defs map_of_upd_sorted created_addrs_def tx1)
    qed
  next
    case None
    obtain st' a where al: "alloc_map name st = (st', a)" by (cases "alloc_map name st")
    from handle_on_new [OF assms(1) inv1 _ al, of ?v] none obtain cs where cs: "create_change_set ?v (heap st' a) = Some cs"
      "tx_inv st' (tx1\<lparr>created_maps := upd_sorted name a (created_maps tx1), all_changes := upd_sorted name (a, Normal cs) (all_changes tx1)\<rparr>)"
      by (auto simp: tx1)
    have "allocated st st'" "a = next_addr st" using al alloc_allocated [of st name] by (auto simp: alloc_map_def)
    then show ?thesis
      using gets [OF _ _ cs(2), of a cs] none None cs(1) al new
      by (simp add: defs map_of_upd_sorted created_addrs_def tx1 set_upd_sorted)
  qed
qed

lemma set_upd_sorted_subset: "set (upd_sorted k v m) \<subseteq> insert (k, v) (set m)"
  by (induction k v m rule: upd_sorted.induct) auto

lemma tx_inv_update:
  assumes "tx_inv st tx" and "map_of (all_changes tx) n = Some (a, Normal cs)" and "valid (heap st a) cs'"
    and "removes_known cs'" and "cs_rollback_counter cs' = cs_rollback_counter cs"
  shows "tx_inv st (tx\<lparr>all_changes := upd_sorted n (a, Normal cs') (all_changes tx)\<rparr>)"
proof -
  let ?cs = "upd_sorted n (a, Normal cs') (all_changes tx)" and ?new = "created_maps tx"
  have sc: "sorted_wrt (<) (al_keys (all_changes tx))" using assms(1) by (simp add: tx_inv_def changes_ok_def)
  have "n \<in> set (al_keys (all_changes tx))" using assms(2) map_of_None_iff_keys [of "all_changes tx" n] by simp
  then have keys: "set (al_keys ?cs) = set (al_keys (all_changes tx))" by (auto simp: set_keys_upd_sorted)
  have sc': "sorted_wrt (<) (al_keys ?cs)" using sc by (simp add: sorted_upd_sorted)
  have old: "change_ok st ?new (n, a, Normal cs)" "named st ?new (n, a, Normal cs)"
    using assms(1) map_of_SomeD [OF assms(2)] by (auto simp: tx_inv_def changes_ok_def list_all_iff)
  have "change_ok st ?new (n, a, Normal cs')"
    using old assms(3,5) by (auto simp: change_ok_def named_def owns_def)
  moreover have "named st ?new (n, a, Normal cs')" using old(2) assms(4,5) by (simp add: named_def)
  moreover have "\<forall>x\<in>set (all_changes tx). change_ok st ?new x \<and> named st ?new x"
    using assms(1) by (simp add: tx_inv_def changes_ok_def list_all_iff)
  ultimately have "\<forall>x\<in>insert (n, a, Normal cs') (set (all_changes tx)). change_ok st ?new x \<and> named st ?new x" by simp
  from bspec [OF this subsetD [OF set_upd_sorted_subset]]
  have all: "\<forall>x\<in>set ?cs. change_ok st ?new x \<and> named st ?new x" by (rule ballI)
  then have "\<forall>(m, x)\<in>set ?cs. map_name (heap st (fst x)) = m" by (auto simp: named_def)
  from named_distinct [where name = "\<lambda>b. map_name (heap st b)" and f = fst, OF sc' this]
  have "distinct (map (\<lambda>x. fst (snd x)) ?cs)" .
  then show ?thesis using assms(1) all sc' keys by (simp add: tx_inv_def changes_ok_def list_all_iff)
qed

lemma on_handle_cases:
  assumes "store_ok st" and "tx_inv st tx"
  obtains (works) st' tx' where "on_handle name (run_op f) (st, tx) = Done (st', tx') ()" "allocated st st'" "tx_inv st' tx'"
      "created_addrs tx' \<subseteq> created_addrs tx \<union> {a. next_addr st \<le> a}"
  | (compacted) tx' where "on_handle name (run_op f) (st, tx) = Throw (st, tx') (CompactedVersionConflict name)"
proof (cases rule: get_handle_cases [OF assms, of name])
  case (1 st' tx' a cs)
  have ok: "change_ok st' (created_maps tx') (name, a, Normal cs)" "named st' (created_maps tx') (name, a, Normal cs)"
    using 1(3) map_of_SomeD [OF 1(4)] by (auto simp: tx_inv_def changes_ok_def list_all_iff)
  then have v: "valid (heap st' a) cs" "removes_known cs" by (simp_all add: change_ok_def named_def)
  let ?tx = "tx'\<lparr>all_changes := upd_sorted name (a, Normal (fst (run_op f cs))) (all_changes tx')\<rparr>"
  have "on_handle name (run_op f) (st, tx) = Done (st', ?tx) ()"
    using 1(1,4) by (simp add: on_handle_def case_prod_beta Let_def)
  moreover have "tx_inv st' ?tx" by (rule tx_inv_update [OF 1(3,4) run_op_ok [OF v]])
  moreover have "created_addrs ?tx = created_addrs tx'" by (simp add: created_addrs_def)
  ultimately show ?thesis using works [of st' ?tx] 1(2,5) by simp
next
  case (2 tx')
  then show ?thesis using compacted by (simp add: on_handle_def)
qed

section \<open>Commits\<close>

text \<open>The first commit to a new map adds a version to it.\<close>

lemma first_commit:
  assumes "hist m = [(0, champ_empty)]" and "valid m k" and "prepare False m k" and "writes k \<noteq> []" and "removes_known k"
    and "0 < v" and "v < 2 ^ 63"
  shows "\<exists>s. hist (fst (handle_commit v False m k)) = [(0, champ_empty), (v, s)]"
proof -
  let ?m = "fst (handle_commit v False m k)"
  have "cs_rollback_counter k = rollback_counter (roll m)" using assms(3,4) by (simp add: prepare_def split: if_splits)
  then have "follows (start_version k, cs_state k) (0, champ_empty)" using assms(1,2) by (simp add: valid_def)
  then have empty: "cs_state k = champ_empty" by (auto simp: follows_def newer_def)
  obtain key x w where w: "writes k = (key, x) # w" using assms(4) by (cases "writes k") auto
  then have x: "x \<noteq> None" using spec [OF assms(5) [unfolded removes_known_def], of key] by (auto simp: empty kvs.get_empty)
  have ok: "cs_ok k" "hist_ok (hist m)" "fst (last (hist m)) < v"
    using assms(2,6) hist_ok_fresh [OF assms(1)] by (simp_all add: valid_def assms(1))
  note c = handle_commit_hist [OF ok assms(7,4)]
  have "hist ?m \<noteq> hist m"
  proof
    assume "hist ?m = hist m"
    then have "written v x None = None" using c(3) [of key] by (simp add: w assms(1) kvs.get_empty)
    then show False using x by (auto simp: written_def split: option.splits)
  qed
  then show ?thesis using c(2) by (auto simp: assms(1))
qed

lemma later_commit:
  assumes "valid m k" and "hist_ok (hist m)" and "lc_version (get_tail m) < v" and "v < 2 ^ 63"
  shows "later_map m (fst (handle_commit v False m k))"
proof -
  note h = hist_commit [OF assms]
  have "map_name (fst (handle_commit v False m k)) = map_name m"
    by (simp add: handle_commit_def insert_back_def Let_def case_prod_beta)
  then show ?thesis using h valid_mono [of m _ "fst (handle_commit v False m k)"] by (simp add: later_map_def)
qed

lemma hist_extends:
  assumes "valid m k" and "hist_ok (hist m)" and "lc_version (get_tail m) < v" and "v < 2 ^ 63"
  shows "\<exists>h. hist (fst (handle_commit v False m k)) = hist m @ h"
proof (cases "writes k = []")
  case True
  then show ?thesis by (simp add: handle_commit_def)
next
  case False
  have "cs_ok k" "fst (last (hist m)) < v" using assms(1,3) tail_version [OF assms(2)] by (simp_all add: valid_def)
  from handle_commit_hist(2) [OF this(1) assms(2) this(2) assms(4) False] show ?thesis by auto
qed

lemma same_map_prepare: "same_map m m' \<Longrightarrow> prepare t m' cs = prepare t m cs"
  by (simp add: prepare_def same_map_def get_tail_def)

text \<open>Every address after a commit: what it held, or what it held and one commit.\<close>

lemma advances_cases:
  assumes "store_ok st" and "changes_ok st new cs" and "advances st new cs v st'" and "st_version st < v" and "v < 2 ^ 63"
  obtains (same) "same_map (heap st b) (heap st' b)"
  | (commit) n k m where "(n, b, Normal k) \<in> set cs" "writes k \<noteq> []" "owns st new n b" "same_map (heap st b) m"
      "heap st' b = fst (handle_commit v False m k)" "valid m k" "prepare False m k" "hist_ok (hist m)" "lc_version (get_tail m) < v"
proof (cases "\<exists>n k. (n, b, Normal k) \<in> set cs \<and> writes k \<noteq> []")
  case True
  then obtain n k where nk: "(n, b, Normal k) \<in> set cs" "writes k \<noteq> []" by blast
  then obtain m where m: "owns st new n b" "valid (heap st b) k" "prepare False (heap st b) k"
    "same_map (heap st b) m" "heap st' b = fst (handle_commit v False m k)"
    using assms(3) unfolding advances_def by blast
  note o = owner_ok [OF store_okD [OF assms(1)] assms(2) m(1) assms(4)]
  have "valid m k" "hist_ok (hist m)" "lc_version (get_tail m) < v"
    using m(2,4) o by (simp_all add: same_map_valid same_map_hist same_map_tail)
  moreover have "prepare False m k" using m(3,4) same_map_prepare by blast
  ultimately show ?thesis using commit nk m(1,4,5) by blast
next
  case False
  then show ?thesis using assms(3) same unfolding advances_def by blast
qed

lemma advances_later:
  assumes "store_ok st" and "changes_ok st new cs" and "advances st new cs v st'" and "st_version st < v" and "v < 2 ^ 63"
    and "maps_ok v st'" and "next_addr st' = next_addr st"
  shows "later_store st st'"
proof -
  have "later_map (heap st a) (heap st' a)" for a
  proof (cases rule: advances_cases [OF assms(1-5), of a])
    case 1
    then show ?thesis by (rule later_map_same)
  next
    case (2 n k m)
    from later_commit [OF 2(6,8,9) assms(5)] 2(5) have "later_map m (heap st' a)" by simp
    then show ?thesis using later_map_same [OF 2(4)] by (simp add: later_map_def)
  qed
  moreover have "map_of (maps st') n = Some x" if "map_of (maps st) n = Some x" for n x
    using map_of_SomeD [OF that] assms(3,6) by (simp add: advances_def maps_ok_def sorted_map_of_iff)
  ultimately show ?thesis using assms(7) by (auto simp: later_store_def)
qed

lemma advances_new:
  assumes "store_ok st" and "tx_inv st tx" and "advances st (created_maps tx) (all_changes tx) v st'" and "st_version st < v"
    and "v < 2 ^ 63" and "(n, a) \<in> set (created_maps tx)" and "written_to (all_changes tx) n"
    and "new_absent st (created_maps tx)"
  shows "\<exists>s. hist (heap st' a) = [(0, champ_empty), (v, s)]"
proof -
  let ?cs = "all_changes tx" and ?new = "created_maps tx"
  have ok: "changes_ok st ?new ?cs" "list_all (named st ?new) ?cs" using assms(2) by (simp_all add: tx_inv_def)
  obtain a' c where ac: "(n, a', c) \<in> set ?cs" "changes_have_writes c"
    using assms(7) by (auto simp: written_to_def split: option.splits dest: map_of_SomeD)
  have "change_ok st ?new (n, a', c)" using ok(1) ac(1) by (simp add: changes_ok_def list_all_iff)
  then obtain k where k: "c = Normal k" by (cases c) (auto simp: change_ok_def)
  have mem: "(n, a', Normal k) \<in> set ?cs" "writes k \<noteq> []" using ac by (simp_all add: k has_writes_def)
  then obtain m where m: "owns st ?new n a'" "valid (heap st a') k" "prepare False (heap st a') k" "same_map (heap st a') m"
    "heap st' a' = fst (handle_commit v False m k)" using assms(3) unfolding advances_def by blast
  have "sorted_wrt (<) (al_keys ?new)" using assms(2) by (simp add: tx_inv_def)
  then have "owns st ?new n a" using assms(6) by (simp add: owns_def sorted_map_of_iff)
  then have a: "a' = a" using owns_unique [OF assms(8) m(1)] by simp
  have "fresh st (n, a)" using ok(1) assms(6) by (auto simp: changes_ok_def list_all_iff)
  then have h: "hist m = [(0, champ_empty)]" using m(4) by (simp add: a fresh_def same_map_hist)
  have "removes_known k" using ok(2) mem(1) by (auto simp: list_all_iff named_def)
  moreover have "valid m k" "prepare False m k" using m(2-4) by (simp_all add: same_map_valid same_map_prepare)
  ultimately show ?thesis using first_commit [OF h] mem(2) assms(4,5) m(5) a by simp
qed

lemma advances_created_ok:
  assumes "store_ok st" and "created_ok st" and "tx_inv st tx" and "advances st (created_maps tx) (all_changes tx) v st'"
    and "st_version st < v" and "v < 2 ^ 63" and "new_absent st (created_maps tx)" and "compacted st' = compacted st"
  shows "created_ok st'"
  unfolding created_ok_def assms(8)
proof clarify
  fix n c a assume mem: "(n, c, a) \<in> set (maps st')"
  have ok: "changes_ok st (created_maps tx) (all_changes tx)" using assms(3) by (simp add: tx_inv_def)
  show "fst (hd (hist (heap st' a))) \<le> compacted st \<and> (c \<le> compacted st \<or> c \<in> fst ` set (tl (hist (heap st' a))))"
  proof (cases "(n, c, a) \<in> set (maps st)")
    case True
    then have old: "fst (hd (hist (heap st a))) \<le> compacted st" "c \<le> compacted st \<or> c \<in> fst ` set (tl (hist (heap st a)))"
      using assms(2) by (auto simp: created_ok_def)
    have "hist_ok (hist (heap st a))" using assms(1) True by (auto simp: store_ok_def maps_ok_def list_all_iff map_ok_def)
    then have ne: "hist (heap st a) \<noteq> []" by (simp add: hist_ok_def)
    have "\<exists>h. hist (heap st' a) = hist (heap st a) @ h"
    proof (cases rule: advances_cases [OF assms(1) ok assms(4-6), of a])
      case 1
      then show ?thesis by (simp add: same_map_hist)
    next
      case (2 n k m)
      then show ?thesis using hist_extends [OF 2(6,8,9) assms(6)] by (simp add: same_map_hist)
    qed
    then show ?thesis using old ne by (auto simp: tl_append2)
  next
    case False
    then have "(n, a) \<in> set (created_maps tx)" "written_to (all_changes tx) n" "c = v"
      using mem assms(4) by (auto simp: advances_def)
    then show ?thesis using advances_new [OF assms(1,3-6) _ _ assms(7)] by fastforce
  qed
qed

section \<open>Steps keep the invariant\<close>

lemma pairwise_without:
  assumes "\<And>x y. R x y \<Longrightarrow> R y x" and "sorted_wrt R xs" and "i < length xs"
  shows "sorted_wrt R (without i xs) \<and> (\<forall>y\<in>set (without i xs). R (xs ! i) y)"
proof -
  have "sorted_wrt R (take i xs @ xs ! i # drop (Suc i) xs)" using assms(2,3) by (simp add: id_take_nth_drop [symmetric])
  then show ?thesis using assms(1) by (auto simp: sorted_wrt_append without_def)
qed

lemma pairwise_update:
  assumes "\<And>x y. R x y \<Longrightarrow> R y x" and "sorted_wrt R (without i xs)" and "i < length xs" and "\<forall>z\<in>set (without i xs). R y z"
  shows "sorted_wrt R (xs[i := y])"
  using assms by (auto simp: upd_conv_take_nth_drop sorted_wrt_append without_def)

lemma other_txs:
  assumes "system_inv (st, txs)" and "i < length txs"
  shows "tx_inv st (txs ! i)" and "list_all (tx_inv st) (without i txs)"
    and "sorted_wrt (\<lambda>t t'. created_addrs t \<inter> created_addrs t' = {}) (without i txs)"
    and "\<forall>t\<in>set (without i txs). created_addrs (txs ! i) \<inter> created_addrs t = {}"
proof -
  have "sorted_wrt (\<lambda>t t'. created_addrs t \<inter> created_addrs t' = {}) txs" using assms(1) by (simp add: system_inv_def)
  from pairwise_without [OF _ this assms(2)]
  show "sorted_wrt (\<lambda>t t'. created_addrs t \<inter> created_addrs t' = {}) (without i txs)"
    and "\<forall>t\<in>set (without i txs). created_addrs (txs ! i) \<inter> created_addrs t = {}" by blast+
  show "tx_inv st (txs ! i)" and "list_all (tx_inv st) (without i txs)"
    using assms by (auto simp: system_inv_def list_all_iff dest: set_without)
qed

lemma abandon_inv: "system_inv (st, txs) \<Longrightarrow> i < length txs \<Longrightarrow> system_inv (st, without i txs)"
  using other_txs(2,3) [of st txs i] by (simp add: system_inv_def)

lemma advances_others:
  assumes "store_ok st" and "tx_inv st tx" and "advances st (created_maps tx) (all_changes tx) v st'"
    and "st_version st < v" and "v < 2 ^ 63" and "maps_ok v st'" and "next_addr st' = next_addr st"
    and "tx_inv st t" and "created_addrs tx \<inter> created_addrs t = {}"
  shows "tx_inv st' t"
proof -
  have ok: "changes_ok st (created_maps tx) (all_changes tx)" using assms(2) by (simp add: tx_inv_def)
  have "hist (heap st' a) = hist (heap st a) \<and> a \<notin> set (addrs st')" if a: "a \<in> created_addrs t" for a
  proof -
    obtain n where "fresh st (n, a)"
      using assms(8) a by (auto simp: created_addrs_def tx_inv_def changes_ok_def list_all_iff)
    then have "a \<notin> set (addrs st)" by (simp add: fresh_def)
    moreover have "a \<notin> created_addrs tx" using assms(9) a by blast
    ultimately have no: "\<not> owns st (created_maps tx) m a" "\<And>c. (m, c, a) \<notin> set (maps st)" "(m, a) \<notin> set (created_maps tx)" for m
      by (auto simp: owns_def addrs_def created_addrs_def image_iff dest!: map_of_SomeD)
    then have "a \<notin> set (addrs st')" using assms(3) by (auto simp: advances_def addrs_def image_iff)
    moreover have "same_map (heap st a) (heap st' a)"
      by (rule advances_cases [OF assms(1) ok assms(3-5), of a]) (insert no(1), auto)
    ultimately show ?thesis by (simp add: same_map_hist)
  qed
  then show ?thesis using tx_inv_later [OF advances_later [OF assms(1) ok assms(3-7)] assms(8)] by blast
qed

lemma commit_inv:
  assumes "system_inv (st, txs)" and "i < length txs" and "st_version st + 1 < 2 ^ 63"
  shows "\<exists>st' r. apply_changes (all_changes (txs ! i)) next_version (created_maps (txs ! i)) None False st = Done st' r
    \<and> system_inv (st', without i txs)"
proof -
  let ?tx = "txs ! i" and ?v = "st_version st + 1"
  note o = other_txs [OF assms(1,2)]
  note nv = next_version_gives [OF assms(3), of "created_maps ?tx \<noteq> []"]
  have ok: "store_ok st" "created_ok st" "changes_ok st (created_maps ?tx) (all_changes ?tx)"
    using assms(1) o(1) by (simp_all add: system_inv_def tx_inv_def)
  show ?thesis
  proof (cases rule: apply_changes_cases [OF ok(1,3) nv(1) _ assms(3)])
    case 2
    then show ?thesis using abandon_inv [OF assms(1,2)] by blast
  next
    case 3
    then show ?thesis using abandon_inv [OF assms(1,2)] by blast
  next
    case (4 st')
    have f: "st_version st' = ?v" "compacted st' = compacted st" using same_but_mapsD [OF 4(5)] nv by auto
    have n: "next_addr st' = next_addr st" using 4(5) nv(1) by (cases st') (auto simp: same_but_maps_def gives_def)
    have "store_ok st'" using 4(6) ok(1) assms(3) f by (simp add: store_ok_def)
    moreover have "created_ok st'" using advances_created_ok [OF ok(1,2) o(1) 4(9) _ assms(3) 4(4) f(2)] by simp
    moreover have "list_all (tx_inv st') (without i txs)"
      using advances_others [OF ok(1) o(1) 4(9) _ assms(3) 4(6) n] o(2,4) by (simp add: list_all_iff)
    ultimately show ?thesis using 4(1) o(3) by (auto simp: system_inv_def)
  qed simp
qed

lemma operate_inv:
  assumes "system_inv (st, txs)" and "i < length txs" and "on_handle name (run_op f) (st, txs ! i) = Done (st', tx') u"
  shows "system_inv (st', txs[i := tx'])"
proof -
  note o = other_txs [OF assms(1,2)]
  have ok: "store_ok st" "created_ok st" using assms(1) by (simp_all add: system_inv_def)
  have al: "allocated st st'" "tx_inv st' tx'" "created_addrs tx' \<subseteq> created_addrs (txs ! i) \<union> {a. next_addr st \<le> a}"
    by (rule on_handle_cases [OF ok(1) o(1), of name f]; insert assms(3), simp)+
  have old: "a < next_addr st" if "t \<in> set txs" "a \<in> created_addrs t" for t a
    using assms(1) that by (fastforce simp: system_inv_def tx_inv_def changes_ok_def list_all_iff fresh_def created_addrs_def)
  have "created_addrs tx' \<inter> created_addrs t = {}" if t: "t \<in> set (without i txs)" for t
    using al(3) o(4) t old [OF set_without [OF t]] by fastforce
  then have "sorted_wrt (\<lambda>t t'. created_addrs t \<inter> created_addrs t' = {}) (txs[i := tx'])"
    using pairwise_update [OF _ o(3) assms(2)] by blast
  moreover have "list_all (tx_inv st') (txs[i := tx'])"
    using al(2) tx_inv_allocated [OF al(1) ok(1)] assms(1) set_update_subset_insert [of txs i tx']
    by (auto simp: system_inv_def list_all_iff)
  ultimately show ?thesis
    using allocated_store_ok [OF al(1) ok(1)] allocated_created_ok [OF al(1) ok] by (simp add: system_inv_def)
qed

section \<open>Compaction and rollback\<close>

lemma addrs_distinct: "store_ok st \<Longrightarrow> distinct (addrs st)"
proof -
  assume ok: "store_ok st"
  then have s: "sorted_wrt (<) (al_keys (maps st))" by (simp add: store_ok_def maps_ok_def)
  have "\<forall>(n, x)\<in>set (maps st). map_name (heap st (snd x)) = n"
    using ok by (auto simp: store_ok_def maps_ok_def list_all_iff map_ok_def)
  from named_distinct [where name = "\<lambda>b. map_name (heap st b)" and f = snd, OF s this]
  show ?thesis by (simp add: addrs_def)
qed

lemma fold_heap:
  fixes ms :: "(string \<times> Version \<times> addr) list"
  assumes "distinct (map (\<lambda>x. snd (snd x)) ms)" and "\<And>n c a st. heap (g (n, c, a) st) = (heap st)(a := f (heap st a))"
  shows "heap (fold g ms st) b = (if b \<in> snd ` snd ` set ms then f (heap st b) else heap st b)"
  using assms(1)
proof (induction ms arbitrary: st)
  case (Cons x ms)
  obtain n c a where x: "x = (n, c, a)" by (cases x)
  show ?case using Cons by (auto simp: x assms(2) image_iff)
qed simp

lemma fold_fields:
  assumes "\<And>x st. maps (g x st) = maps st \<and> next_addr (g x st) = next_addr st \<and> st_version (g x st) = st_version st
    \<and> compacted (g x st) = compacted st"
  shows "maps (fold g ms st) = maps st \<and> next_addr (fold g ms st) = next_addr st \<and> st_version (fold g ms st) = st_version st
    \<and> compacted (fold g ms st) = compacted st"
  by (induction ms arbitrary: st) (simp_all add: assms)

lemma on_maps_effect:
  assumes "store_ok st"
  shows "heap (on_maps f st) b = (if b \<in> set (addrs st) then f (heap st b) else heap st b)"
    and "maps (on_maps f st) = maps st" and "next_addr (on_maps f st) = next_addr st"
    and "st_version (on_maps f st) = st_version st" and "compacted (on_maps f st) = compacted st"
proof -
  have d: "distinct (map (\<lambda>x. snd (snd x)) (maps st))" using addrs_distinct [OF assms] by (simp add: addrs_def)
  show "heap (on_maps f st) b = (if b \<in> set (addrs st) then f (heap st b) else heap st b)"
    unfolding on_maps_def addrs_def using fold_heap [OF d, of _ f st b] by (auto simp: image_image)
  show "maps (on_maps f st) = maps st" and "next_addr (on_maps f st) = next_addr st"
    and "st_version (on_maps f st) = st_version st" and "compacted (on_maps f st) = compacted st"
    unfolding on_maps_def using fold_fields [of "\<lambda>(name, v, a) st. st\<lparr>heap := (heap st)(a := f (heap st a))\<rparr>" "maps st" st] by auto
qed

lemma post_compact_all_effect:
  assumes "distinct (addrs st)"
  shows "heap (post_compact_all st) b = (if b \<in> set (addrs st) then fst (post_compact (heap st b)) else heap st b)"
    and "maps (post_compact_all st) = maps st" and "next_addr (post_compact_all st) = next_addr st"
    and "st_version (post_compact_all st) = st_version st" and "compacted (post_compact_all st) = compacted st"
proof -
  let ?g = "\<lambda>(name, v, a) st. let (m, calls) = post_compact (heap st a)
    in st\<lparr>heap := (heap st)(a := m), events := events st @ map (\<lambda>(v, w). GlobalHook name v w) calls\<rparr>"
  have d: "distinct (map (\<lambda>x. snd (snd x)) (maps st))" using assms by (simp add: addrs_def)
  show "heap (post_compact_all st) b = (if b \<in> set (addrs st) then fst (post_compact (heap st b)) else heap st b)"
    unfolding post_compact_all_def addrs_def
    using fold_heap [OF d, of ?g "\<lambda>m. fst (post_compact m)" st b] by (auto simp: image_image case_prod_beta Let_def)
  show "maps (post_compact_all st) = maps st" and "next_addr (post_compact_all st) = next_addr st"
    and "st_version (post_compact_all st) = st_version st" and "compacted (post_compact_all st) = compacted st"
    unfolding post_compact_all_def using fold_fields [of ?g "maps st" st] by (auto simp: case_prod_beta Let_def)
qed

lemma in_tl:
  assumes "c \<in> f ` set (tl h)"
  shows "\<exists>j>0. j < length h \<and> c = f (h ! j)"
proof -
  obtain x where "x \<in> set (tl h)" "c = f x" using assms by blast
  then obtain i where i: "i < length (tl h)" "c = f (tl h ! i)" by (auto simp: in_set_conv_nth)
  then show ?thesis by (intro exI [of _ "Suc i"]) (simp add: nth_tl)
qed

lemma rollback_map:
  fixes m v
  assumes "hist_ok (hist m)"
  defines "m' \<equiv> map_rollback v m"
  shows "later_map m m'" and "hist_ok (hist m')" and "hd (hist m') = hd (hist m)"
    and "fst (hd (hist m)) \<le> v \<Longrightarrow> lc_version (get_tail m') \<le> v"
    and "c \<in> fst ` set (tl (hist m)) \<Longrightarrow> c \<le> v \<Longrightarrow> c \<in> fst ` set (tl (hist m'))"
    and "c \<in> fst ` set (tl (hist m)) \<Longrightarrow> v < c \<Longrightarrow> rollback_counter (roll m) < rollback_counter (roll m')"
proof -
  have ne: "hist m \<noteq> []" using assms(1) by (simp add: hist_ok_def)
  from map_rollback_hist [OF this, of v, folded m'_def] obtain n where n: "0 < n" "n \<le> length (hist m)" "hist m' = take n (hist m)"
    "\<forall>c\<in>set (drop n (hist m)). v < fst c" "fst (hist m ! (n - 1)) \<le> v \<or> n = 1"
    "rollback_counter (roll m') = rollback_counter (roll m) + (if n < length (hist m) then 1 else 0)"
    by (elim exE conjE)
  show ok: "hist_ok (hist m')" using assms(1) n(1,3) by (simp add: hist_ok_take)
  show hd: "hd (hist m') = hd (hist m)" using n(1,3) ne by (simp add: hd_take)
  have "map_name m' = map_name m" by (simp add: m'_def map_rollback_def Let_def)
  moreover have "valid m' cs" if "valid m cs" for cs
  proof (rule valid_mono [OF that])
    show "rollback_counter (roll m) \<le> rollback_counter (roll m')" using n(6) by simp
    assume "rollback_counter (roll m) = rollback_counter (roll m')"
    then have "n = length (hist m)" using n(2,6) by (simp split: if_splits)
    then show "follows (last (hist m)) (last (hist m'))" using n(3) by (simp add: follows_def)
  qed
  ultimately show "later_map m m'" using n(6) by (simp add: later_map_def)
  have last: "last (hist m') = hist m ! (n - 1)" using n(1-3) ne by (simp add: last_conv_nth min_absorb2)
  show "lc_version (get_tail m') \<le> v" if "fst (hd (hist m)) \<le> v"
    using n(5) that by (elim disjE) (simp_all add: tail_version [OF ok] last hd_conv_nth [OF ne])
  have split: "tl (hist m) = tl (hist m') @ drop n (hist m)"
    using n(1,3) ne tl_append2 [of "take n (hist m)" "drop n (hist m)"] by simp
  show "c \<in> fst ` set (tl (hist m'))" if "c \<in> fst ` set (tl (hist m))" "c \<le> v"
  proof -
    obtain x where x: "x \<in> set (tl (hist m))" "c = fst x" using \<open>c \<in> fst ` set (tl (hist m))\<close> by blast
    moreover have "x \<notin> set (drop n (hist m))" using n(4) \<open>c \<le> v\<close> x(2) by fastforce
    ultimately show ?thesis by (simp add: split)
  qed
  show "rollback_counter (roll m) < rollback_counter (roll m')" if c: "c \<in> fst ` set (tl (hist m))" "v < c"
  proof (rule ccontr)
    assume "\<not> ?thesis"
    then have all: "n = length (hist m)" using n(2,6) by (simp split: if_splits)
    obtain j where j: "0 < j" "j < length (hist m)" "c = fst (hist m ! j)"
      using in_tl [OF c(1)] by blast
    have "fst (hist m ! (n - 1)) \<le> v" using n(5) all j by auto
    moreover have "fst (hist m ! j) \<le> fst (hist m ! (n - 1))"
    proof (cases "j = n - 1")
      case False
      then have "newer (hist m ! j) (hist m ! (n - 1))"
        using assms(1) j all by (intro sorted_wrt_nth_less [where P = newer]) (auto simp: hist_ok_def)
      then show ?thesis by (simp add: newer_def)
    qed simp
    ultimately show False using c(2) j(3) by simp
  qed
qed

lemma compact_map:
  fixes m v
  assumes "hist_ok (hist m)"
  defines "m' \<equiv> fst (post_compact (map_compact v m))"
  shows "later_map m m'" and "hist_ok (hist m')" and "lc_version (get_tail m') = lc_version (get_tail m)"
    and "fst (hd (hist m)) \<le> v \<Longrightarrow> fst (hd (hist m')) \<le> v"
    and "c \<in> fst ` set (tl (hist m)) \<Longrightarrow> v < c \<Longrightarrow> c \<in> fst ` set (tl (hist m'))"
proof -
  have ne: "hist m \<noteq> []" using assms(1) by (simp add: hist_ok_def)
  from map_compact_hist [OF this, of v] obtain n where n: "n < length (hist m)" "hist m' = drop n (hist m)"
    "0 < n \<longrightarrow> fst (hist m ! n) \<le> v" "rollback_counter (roll m') = rollback_counter (roll m)"
    unfolding m'_def by auto
  show ok: "hist_ok (hist m')" using assms(1) n(1,2) by (simp add: hist_ok_drop)
  have last: "last (hist m') = last (hist m)" using n(1,2) by (simp add: last_drop)
  have "map_name m' = map_name m" by (simp add: m'_def post_compact_def map_compact_def case_prod_beta Let_def)
  then show "later_map m m'"
    using n(4) last valid_mono [of m _ m'] by (auto simp: later_map_def follows_def)
  show "lc_version (get_tail m') = lc_version (get_tail m)" using tail_version [OF ok] tail_version [OF assms(1)] last by simp
  show "fst (hd (hist m')) \<le> v" if "fst (hd (hist m)) \<le> v"
    using that n(1-3) ne by (cases "n = 0") (auto simp: hd_drop_conv_nth hd_conv_nth)
  show "c \<in> fst ` set (tl (hist m'))" if c: "c \<in> fst ` set (tl (hist m))" "v < c"
  proof (cases "n = 0")
    case False
    obtain j where j: "0 < j" "j < length (hist m)" "c = fst (hist m ! j)"
      using in_tl [OF c(1)] by blast
    have "n < j"
    proof (rule ccontr)
      assume "\<not> n < j"
      then have "j = n \<or> newer (hist m ! j) (hist m ! n)"
        using assms(1) n(1) by (auto simp: hist_ok_def intro: sorted_wrt_nth_less)
      then show False using j(3) c(2) n(3) False by (auto simp: newer_def)
    qed
    then have "hist m ! j \<in> set (drop (Suc n) (hist m))" using j(2) by (auto simp: set_drop_conv)
    then show ?thesis using j(3) n(2) by (simp add: tl_drop drop_Suc)
  qed (insert c(1) n(2), simp)
qed

lemma stored_ok:
  assumes "store_ok st" and "created_ok st" and "(n, c, a) \<in> set (maps st)"
  shows "map_ok (st_version st) st (n, c, a)" and "hist_ok (hist (heap st a))" and "a \<in> set (addrs st)"
    and "fst (hd (hist (heap st a))) \<le> compacted st" and "c \<le> compacted st \<or> c \<in> fst ` set (tl (hist (heap st a)))"
proof -
  show m: "map_ok (st_version st) st (n, c, a)" using assms(1,3) by (auto simp: store_ok_def maps_ok_def list_all_iff)
  then show "hist_ok (hist (heap st a))" by (simp add: map_ok_def)
  show "a \<in> set (addrs st)" using assms(3) by (force simp: addrs_def)
  show "fst (hd (hist (heap st a))) \<le> compacted st" and "c \<le> compacted st \<or> c \<in> fst ` set (tl (hist (heap st a)))"
    using assms(2,3) by (auto simp: created_ok_def)
qed

text \<open>A change of the maps of the store only.\<close>

lemma system_inv_later:
  assumes "system_inv (st, txs)" and "later_store st st'" and "store_ok st'" and "created_ok st'"
    and "\<forall>b. b \<notin> set (addrs st) \<longrightarrow> hist (heap st' b) = hist (heap st b)" and "set (addrs st') \<subseteq> set (addrs st)"
  shows "system_inv (st', txs)"
proof -
  have "tx_inv st' tx" if tx: "tx \<in> set txs" for tx
  proof -
    have inv: "tx_inv st tx" using assms(1) tx by (simp add: system_inv_def list_all_iff)
    have "a \<notin> set (addrs st)" if "a \<in> created_addrs tx" for a
      using inv that by (auto simp: created_addrs_def tx_inv_def changes_ok_def list_all_iff fresh_def)
    then show ?thesis using tx_inv_later [OF assms(2) inv] assms(5,6) by blast
  qed
  then show ?thesis using assms(1,3,4) by (simp add: system_inv_def list_all_iff)
qed

lemma rollback_maps_effect:
  fixes st st0 :: "'p kv_store"
  assumes "store_ok st" and "maps st0 = maps st" and "heap st0 = heap st"
  shows "heap (rollback_maps v st0) b = (if b \<in> set (addrs st) then map_rollback v (heap st b) else heap st b)"
    and "maps (rollback_maps v st0) = filter (\<lambda>(n, c, a). \<not> v < c) (maps st)"
    and "next_addr (rollback_maps v st0) = next_addr st0" and "st_version (rollback_maps v st0) = st_version st0"
    and "compacted (rollback_maps v st0) = compacted st0"
proof -
  have "distinct (map (\<lambda>x. snd (snd x)) (maps st0))" using addrs_distinct [OF assms(1)] by (simp add: addrs_def assms(2))
  from fold_heap [OF this, of "\<lambda>(name, u, a) st. st\<lparr>heap := (heap st)(a := map_rollback v (heap st a))\<rparr>" "map_rollback v" st0]
  show "heap (rollback_maps v st0) b = (if b \<in> set (addrs st) then map_rollback v (heap st b) else heap st b)"
    by (auto simp: rollback_maps_def on_maps_def Let_def addrs_def assms(2,3) image_image)
  from fold_fields [of "\<lambda>(name, u, a) st. st\<lparr>heap := (heap st)(a := map_rollback v (heap st a))\<rparr>" "maps st0" st0]
  show "maps (rollback_maps v st0) = filter (\<lambda>(n, c, a). \<not> v < c) (maps st)"
    and "next_addr (rollback_maps v st0) = next_addr st0" and "st_version (rollback_maps v st0) = st_version st0"
    and "compacted (rollback_maps v st0) = compacted st0"
    by (auto simp: rollback_maps_def on_maps_def Let_def assms(2))
qed

lemma rollback_maps_inv:
  fixes st st0 :: "'p kv_store"
  assumes "system_inv (st, txs)" and "compacted st \<le> v" and "v \<le> st_version st"
    and "maps st0 = maps st" and "heap st0 = heap st" and "next_addr st0 = next_addr st" and "compacted st0 = compacted st"
    and "st_version st0 = v"
  shows "system_inv (rollback_maps v st0, txs)"
proof -
  let ?st = "rollback_maps v st0"
  have ok: "store_ok st" "created_ok st" using assms(1) by (simp_all add: system_inv_def)
  note stored = stored_ok [OF ok]
  note effect = rollback_maps_effect [OF ok(1) assms(4,5), of v]
  note heap = effect(1) and f = effect(2-5) [unfolded assms(6-8)]
  have mem: "(n, c, a) \<in> set (maps st)" "c \<le> v" if "(n, c, a) \<in> set (maps ?st)" for n c a
    using that by (auto simp: f)
  have "map_ok v ?st (n, c, a)" if m: "(n, c, a) \<in> set (maps ?st)" for n c a
  proof -
    note s = stored [OF mem(1) [OF m]]
    have "fst (hd (hist (heap st a))) \<le> v" using s(4) assms(2) by simp
    from rollback_map(2,4) [OF s(2)] this rollback_map(1) [OF s(2), of v] s(1,3) mem(2) [OF m]
    show ?thesis by (simp add: map_ok_def heap f later_map_def)
  qed
  moreover have sm: "sorted_wrt (<) (al_keys (maps ?st))"
    using ok(1) unfolding store_ok_def maps_ok_def f al_keys_def sorted_wrt_map by (simp add: sorted_wrt_filter)
  ultimately have "store_ok ?st" using ok(1) assms(2,3) f by (auto simp: store_ok_def maps_ok_def list_all_iff)
  moreover have "created_ok ?st"
    unfolding created_ok_def
  proof clarify
    fix n c a assume m: "(n, c, a) \<in> set (maps ?st)"
    note s = stored [OF mem(1) [OF m]]
    show "fst (hd (hist (heap ?st a))) \<le> compacted ?st \<and> (c \<le> compacted ?st \<or> c \<in> fst ` set (tl (hist (heap ?st a))))"
      using s(3-5) mem(2) [OF m] rollback_map(3,5) [OF s(2)] by (auto simp: heap f)
  qed
  moreover have "later_store st ?st"
    unfolding later_store_def
  proof (intro conjI allI impI)
    show "later_map (heap st a) (heap ?st a)" for a
      using rollback_map(1) stored(2) later_map_same by (auto simp: heap addrs_def)
    fix n a assume "map_option snd (map_of (maps st) n) = Some a"
    then obtain c where c: "map_of (maps st) n = Some (c, a)" by auto
    note s = stored [OF map_of_SomeD [OF c]]
    show "map_option snd (map_of (maps ?st) n) = Some a \<or> rollback_counter (roll (heap st a)) < rollback_counter (roll (heap ?st a))"
    proof (cases "c \<le> v")
      case True
      then have "map_of (maps ?st) n = Some (c, a)" using sm map_of_SomeD [OF c] by (simp add: sorted_map_of_iff) (simp add: f)
      then show ?thesis by simp
    next
      case False
      then show ?thesis using rollback_map(6) [OF s(2), of c v] s(3,5) assms(2) by (simp add: heap)
    qed
  qed (simp add: f)
  moreover have "set (addrs ?st) \<subseteq> set (addrs st)" by (auto simp: addrs_def f)
  ultimately show ?thesis using system_inv_later [OF assms(1)] by (simp add: heap)
qed

text \<open>A store that differs in what the invariant does not speak about.\<close>

definition similar :: "'p kv_store \<Rightarrow> 'p kv_store \<Rightarrow> bool" where
  "similar st st' \<longleftrightarrow> maps st' = maps st \<and> next_addr st' = next_addr st \<and> st_version st' = st_version st
     \<and> compacted st' = compacted st \<and> (\<forall>a. same_map (heap st a) (heap st' a))"

lemma similar_inv:
  assumes "similar st st'" and "system_inv (st, txs)"
  shows "system_inv (st', txs)"
proof -
  have eq: "maps st' = maps st" "next_addr st' = next_addr st" "st_version st' = st_version st" "compacted st' = compacted st"
    "\<And>a. same_map (heap st a) (heap st' a)" using assms(1) by (simp_all add: similar_def)
  have h: "hist (heap st' a) = hist (heap st a)" "get_tail (heap st' a) = get_tail (heap st a)"
    "map_name (heap st' a) = map_name (heap st a)" for a
    using eq(5) [of a] by (simp_all add: same_map_hist same_map_tail) (simp add: same_map_def)
  have "map_ok w st' = map_ok w st" for w by (rule ext) (simp add: map_ok_def h eq)
  then have "store_ok st'" "created_ok st'"
    using assms(2) by (simp_all add: system_inv_def store_ok_def maps_ok_def created_ok_def h eq)
  moreover have "later_store st st'" using eq later_map_same by (auto simp: later_store_def)
  ultimately show ?thesis using system_inv_later [OF assms(2)] by (simp add: h addrs_def eq)
qed

lemma rollback_inv:
  assumes "system_inv (st, txs)" and "store_rollback txid t st = Done st' u"
  shows "system_inv (st', txs)"
proof (cases "st_version st \<le> snd txid")
  case True
  then have "similar st st'"
    using assms(2) by (auto simp: store_rollback_def Let_def similar_def st_emit_def split: if_splits)
  then show ?thesis using assms(1) by (rule similar_inv)
next
  case False
  then obtain st0 where "st' = rollback_maps (snd txid) st0" "maps st0 = maps st" "heap st0 = heap st"
    "next_addr st0 = next_addr st" "compacted st0 = compacted st" "st_version st0 = snd txid" "compacted st \<le> snd txid"
    using assms(2) by (auto simp: store_rollback_def Let_def st_emit_def unset_flag_def split: if_splits)
  then show ?thesis using rollback_maps_inv [OF assms(1)] False by simp
qed

lemma store_compact_effect:
  assumes "store_ok st" and "v \<le> st_version st"
  shows "heap (store_compact v st) b = (if b \<in> set (addrs st) then fst (post_compact (map_compact v (heap st b))) else heap st b)"
    and "maps (store_compact v st) = maps st" and "next_addr (store_compact v st) = next_addr st"
    and "st_version (store_compact v st) = st_version st" and "compacted (store_compact v st) = v"
proof -
  define st1 where "st1 = (if has_snapshotter st then st_emit (SnapshotterCommit v (has_consensus st \<and> is_primary st)) st else st)"
  define st2 where "st2 = (on_maps (map_compact v) st1)\<lparr>compacted := v\<rparr>"
  define st3 where "st3 = (if has_history st2 then st_emit (HistoryCompact v) st2 else st2)"
  have f1: "maps st1 = maps st" "heap st1 = heap st" "next_addr st1 = next_addr st" "st_version st1 = st_version st"
    "compacted st1 = compacted st" by (simp_all add: st1_def st_emit_def)
  then have ok1: "store_ok st1" using assms(1) store_ok_cong by blast
  have f3: "maps st3 = maps st" "next_addr st3 = next_addr st" "st_version st3 = st_version st" "compacted st3 = v"
    "heap st3 = heap (on_maps (map_compact v) st1)"
    by (simp_all add: st3_def st2_def st_emit_def on_maps_effect [OF ok1] f1)
  have a: "addrs st3 = addrs st" "addrs st1 = addrs st" by (simp_all add: addrs_def f1 f3)
  have "store_compact v st = post_compact_all st3"
    using assms(2) f1(4) by (simp add: store_compact_def Let_def st1_def [symmetric] st2_def [symmetric] st3_def [symmetric])
  moreover have "distinct (addrs st3)" using addrs_distinct [OF assms(1)] a by simp
  ultimately show "heap (store_compact v st) b = (if b \<in> set (addrs st) then fst (post_compact (map_compact v (heap st b))) else heap st b)"
    and "maps (store_compact v st) = maps st" and "next_addr (store_compact v st) = next_addr st"
    and "st_version (store_compact v st) = st_version st" and "compacted (store_compact v st) = v"
    by (simp_all add: post_compact_all_effect a f3 on_maps_effect(1) [OF ok1] f1)
qed

lemma compact_inv:
  fixes st :: "'p kv_store"
  assumes "system_inv (st, txs)" and "compacted st \<le> v"
  shows "system_inv (store_compact v st, txs)"
proof (cases "st_version st < v")
  case True
  then have "similar st (store_compact v st)" by (simp add: store_compact_def Let_def similar_def st_emit_def)
  then show ?thesis using assms(1) by (rule similar_inv)
next
  case False
  let ?st = "store_compact v st"
  have ok: "store_ok st" "created_ok st" using assms(1) by (simp_all add: system_inv_def)
  note stored = stored_ok [OF ok]
  have v: "v \<le> st_version st" using False by simp
  note f = store_compact_effect [OF ok(1) v]
  have "map_ok (st_version st) ?st (n, c, a)" if m: "(n, c, a) \<in> set (maps st)" for n c a
    using stored(1,3) [OF m] compact_map(1-3) [OF stored(2) [OF m], of v] by (simp add: map_ok_def f later_map_def)
  then have "store_ok ?st" using ok(1) v f by (auto simp: store_ok_def maps_ok_def list_all_iff)
  moreover have "created_ok ?st"
    unfolding created_ok_def f(2,5)
  proof clarify
    fix n c a assume m: "(n, c, a) \<in> set (maps st)"
    note s = stored [OF m] and cm = compact_map [OF stored(2) [OF m], where v = v]
    show "fst (hd (hist (heap ?st a))) \<le> v \<and> (c \<le> v \<or> c \<in> fst ` set (tl (hist (heap ?st a))))"
      using s(3-5) assms(2) cm(4) cm(5) [where c = c] by (cases "c \<le> v") (simp_all add: f(1))
  qed
  moreover have "later_map (heap st a) (heap ?st a)" for a
    using compact_map(1) stored(2) later_map_same by (auto simp: f(1) addrs_def)
  then have "later_store st ?st" by (auto simp: later_store_def f(2,3))
  moreover have "addrs ?st = addrs st" by (simp add: addrs_def f(2))
  ultimately show ?thesis using system_inv_later [OF assms(1)] by (simp add: f(1))
qed

lemma step_inv: "system_step s s' \<Longrightarrow> system_inv s \<Longrightarrow> system_inv s'"
proof (induction rule: system_step.induct)
  case (open_tx st txs)
  have "tx_inv st new_tx" by (simp add: tx_inv_def changes_ok_def new_tx_def)
  moreover have "created_addrs new_tx = {}" by (simp add: created_addrs_def new_tx_def)
  ultimately show ?case using open_tx by (simp add: system_inv_def)
next
  case (operate i txs name f st st' tx' u)
  then show ?case using operate_inv by blast
next
  case (throw i txs name f st st' tx' x)
  have "st' = st"
    by (rule on_handle_cases [of st "txs ! i" name f]) (insert throw other_txs(1), auto simp: system_inv_def)
  then show ?case using abandon_inv throw by blast
next
  case (commit_tx i txs st st' r)
  then show ?case using commit_inv [of st txs i] by auto
next
  case (map_hook st txs name)
  have "similar st (set_map_hook name st)"
    by (auto simp: similar_def set_map_hook_def with_named_map_def same_map_def split: option.split)
  then show ?case using map_hook similar_inv by blast
next
  case (global_hook st txs name)
  have "similar st (set_global_hook name st)"
    by (auto simp: similar_def set_global_hook_def with_named_map_def same_map_def split: option.split)
  then show ?case using global_hook similar_inv by blast
qed (blast intro: abandon_inv compact_inv rollback_inv)+

lemma system_reachable_inv: "system_reachable s \<Longrightarrow> system_inv s"
proof (induction rule: system_reachable.induct)
  case (start st)
  then show ?case by (simp add: system_inv_def store_ok_def maps_ok_def created_ok_def)
next
  case (step s s')
  then show ?case using step_inv by blast
qed

section \<open>Properties\<close>

text \<open>C6: However transactions, compactions and rollbacks interleave, the store and the open
  transactions stay well formed, and nothing that a transaction can do ends in an internal error: an
  operation through a handle returns or reports that the version the transaction reads has been
  compacted, and a commit returns.\<close>

theorem store_well_formed:
  assumes "system_reachable (st, txs)" and "i < length txs"
  shows "store_ok st \<and> changes_ok st (created_maps (txs ! i)) (all_changes (txs ! i))
    \<and> (returns (on_handle name (run_op f) (st, txs ! i))
       \<or> (\<exists>s. on_handle name (run_op f) (st, txs ! i) = Throw s (CompactedVersionConflict name)))
    \<and> (st_version st + 1 < 2 ^ 63 \<longrightarrow>
        returns (apply_changes (all_changes (txs ! i)) next_version (created_maps (txs ! i)) None False st))"
proof -
  have inv: "system_inv (st, txs)" using assms(1) by (rule system_reachable_inv)
  have tx: "store_ok st" "tx_inv st (txs ! i)" using inv other_txs(1) [OF inv assms(2)] by (simp_all add: system_inv_def)
  have "returns (on_handle name (run_op f) (st, txs ! i))
      \<or> (\<exists>s. on_handle name (run_op f) (st, txs ! i) = Throw s (CompactedVersionConflict name))"
    by (rule on_handle_cases [OF tx, of name f]) auto
  then show ?thesis using tx commit_inv [OF inv assms(2)] by (auto simp: tx_inv_def)
qed

text \<open>A transaction that has put a key into a new map.\<close>

definition put_store :: "unit kv_store" where
  "put_store = fst (alloc_map ''a'' (new_store True False))"

definition put_tx :: Tx where
  "put_tx = new_tx\<lparr>read_txid := Some (0, 0), created_maps := [(''a'', 0)],
     all_changes := [(''a'', 0, Normal (handle_put [1] [7] empty_change_set))]\<rparr>"

lemma put_reachable: "system_reachable (put_store, [put_tx])"
proof -
  let ?st = "new_store True False :: unit kv_store"
  have "system_reachable (?st, [])" by (rule system_reachable.start) (simp_all add: new_store_def)
  then have open_st: "system_reachable (?st, [new_tx])" using system_step.open_tx system_reachable.step by blast
  have "commit_at 0 (heap put_store 0) = Some initial_commit"
    by (simp add: put_store_def alloc_map_def new_store_def commit_at_def new_map_def reset_commits_def initial_commit_def)
  moreover have "rollback_counter (roll (heap put_store 0)) = 0" "get_head (heap put_store 0) = initial_commit"
    by (simp_all add: put_store_def alloc_map_def new_store_def new_map_def reset_commits_def get_head_def)
  ultimately have cs: "create_change_set 0 (heap put_store 0) = Some empty_change_set"
    by (simp add: create_change_set_def empty_change_set_def initial_commit_def)
  have st: "alloc_map ''a'' ?st = (put_store, 0)" "current_txid ?st = (0, 0)" "get_map_internal 0 ''a'' ?st = None"
    "term_of_next_version ?st = 0"
    by (simp_all add: put_store_def alloc_map_def current_txid_def get_map_internal_def new_store_def)
  have "get_map_and_change_set_by_name ''a'' (?st, new_tx) =
      Done (put_store, new_tx\<lparr>read_txid := Some (0, 0), created_maps := [(''a'', 0)]\<rparr>) (0, Some empty_change_set)"
    using cs st by (simp add: get_map_and_change_set_by_name_def new_tx_def)
  then have "on_handle ''a'' (run_op (Put [1] [7])) (?st, [new_tx] ! 0) = Done (put_store, put_tx) ()"
    by (simp add: on_handle_def get_handle_by_name_def run_op_def put_tx_def new_tx_def)
  from system_step.operate [OF _ this] have "system_step (?st, [new_tx]) (put_store, [put_tx])" by simp
  then show ?thesis using open_st system_reachable.step by blast
qed

theorem store_well_formed_witness:
  "system_reachable (put_store, [put_tx]) \<and> store_ok put_store
    \<and> returns (apply_changes (all_changes put_tx) next_version (created_maps put_tx) None False put_store)"
proof -
  have "st_version put_store + 1 < 2 ^ 63" by (simp add: put_store_def alloc_map_def new_store_def)
  then show ?thesis using store_well_formed [OF put_reachable, of 0] put_reachable by simp
qed



end
