(* ===== verification/Spec2Isabelle.thy ===== *)
theory Spec2Isabelle
  imports Aft_Theorems Rb_Map Champ_Map Contiguous_Set Kv_Replay Kv_System
begin

text \<open>
  A verification development of CCF, the Confidential Consortium Framework: its consensus
  protocol, its key-value store and the byte formats between them. All paths are under src/.

  \<^bold>\<open>The program.\<close> A CCF service is a group of nodes that replicate a ledger of transactions.
  Applications run transactions against a versioned key-value store (src/kv). A transaction
  that commits is serialised into an entry whose private part is encrypted with a ledger secret
  (src/node/ledger_secrets.h), and consensus (src/consensus/aft), a variant of Raft in which only
  entries that are signatures can be committed, sends it to the other nodes. They apply it to their stores. A
  commit in consensus compacts the store and a change of leader rolls it back.

  \<^bold>\<open>Conventions\<close> (Prelude). A member function that mutates its object takes the state last and
  gives an \<open>exec\<close>: \<open>Done\<close> with the new state and the value, \<open>Throw\<close> with the state at the
  exception, or \<open>Diverge\<close>, a loop that was still running when its fuel ended. A free function that
  may throw gives \<open>exn + 'a\<close>. The exception \<open>OutOfBounds\<close> is an access outside of an object, whose
  behaviour C++ leaves undefined; no \<open>catch\<close> clause stops it. \<open>std::map\<close>s are association lists in
  the order of their keys. Integers are natural numbers with the wrap-around written out where the
  code computes with it, and words where the code works on bits; the indices and views of consensus
  have no upper bound in the model except where they are decremented or sent. Locks are left out: an operation of the model is what runs
  under its locks. Third-party code and the hardware are parameters: SHA-256, HMAC, AES-GCM, the
  Merkle history, the random numbers.

  \<^bold>\<open>Consensus\<close> (src/consensus/aft/raft.h, impl/state.h, raft_types.h).
  \<^item> View_History: the class \<open>ViewHistory\<close>, as the map from versions to views that it represents.
  \<^item> Raft_Types: messages and their byte format, configurations, node identifiers.
  \<^item> Aft_State, Aft_Send, Aft_Commit, Aft_Election, Aft_Node: the class \<open>Aft\<close>, in the order of the calls:
    the state as a record, sending of append entries, commit and rollback with reconfiguration in
    one and in two transactions, elections and retirement, and the handlers of messages, of timers and of
    the calls of the node. The calls on the ledger, the store and the channels are recorded as events; the answers
    of the store are parameters.
  \<^item> Aft_Invariant, Aft_Invariant_Commit, Aft_Invariant_Node: the invariant of a node and that
    every handler keeps it. Aft_Step: runs of one node. Aft_Termination: the loops end; the fuel of
    the loops whose end depends on the state is a bound that the invariant gives.
  \<^item> Aft_Quorum, Aft_Ballot, Raft_Network: majorities as a locale, the abstract ballot machine
    that the handlers refine, and a network that may lose, copy and reorder messages.
  \<^item> Aft_Theorems: the properties of consensus.

  \<^bold>\<open>Containers.\<close> Map_Interface: the contract of a persistent map as a locale. Rb_Map
  (src/ds/rb_map.h) and Champ_Map (src/ds/champ_map.h) implement it; Siphash
  (include/ccf/ds/siphash.h) is the hash of the keys. Contiguous_Set (include/ccf/ds/contiguous_set.h): a set of integers
  kept as ranges is the set of the values it covers; its iterators are positions among the values in
  increasing order, and its binary searches end at the right one. Serialized (src/ds/serialized.h,
  src/kv/serialised_entry_format.h): flat serialisation and the framing of ledger entries.

  \<^bold>\<open>Key-value store\<close> (src/kv).
  \<^item> Kv_Map, Kv_Handles: one map with its roll of versions, its change sets and the handles of a
    transaction (untyped_map.h, untyped_change_set.h, untyped_map_handle.cpp). What a handle shows
    is a finite map.
  \<^item> Kv_Commit: commit, compaction and rollback on the history of states. Kv_Serialisable: any
    interleaving of transactions, rollbacks, compactions and snapshots of one map.
  \<^item> Kv_Types, Kv_Store, Kv_Tx: the store of maps, the atomic application of change sets and
    transactions (kv_types.h, store.h, apply_changes.h, committable_tx.h, tx.cpp). Kv_Apply: a
    transaction is applied as a whole or not at all. Kv_System: a store with open transactions, under
    any interleaving of their operations and commits with compactions and rollbacks; what a transaction
    has read from maps it does not write to may be out of date.
  \<^item> Ledger_Secrets: the keys of the ledger and the encryption of entries (src/node/ledger_secrets.h,
    src/node/encryptor.h, src/kv/encryptor.h).
  \<^item> Kv_Raw, Kv_Format: the byte format of entries (raw_serialise.h, generic_serialise_wrapper.h)
    and what parsing gives back.
  \<^item> Kv_Deserialise, Kv_Replay: entries applied by a node that did not execute them (deserialise.h,
    \<open>fill_maps\<close> in store.h), and that such a node ends up with what the node holds that did.

  \<^bold>\<open>Not modelled.\<close> The life cycle of a node, governance and the front ends, which are glue over JSON,
  certificates and attestation reports; TLS, HTTP and QUIC sessions; the bindings of the JavaScript engines;
  OpenSSL; the Merkle tree (merklecpp); historical queries and indexing; the host process apart
  from what is listed above; samples, clients and tests. Concurrency within an operation is not modelled.
\<close>

end
